(* ===== verification/Kbuf_Prelude.thy ===== *)
theory Kbuf_Prelude
  imports Main "HOL-Library.Word"
begin

text \<open>
  Shared vocabulary of the development: the C integer types the driver uses, the errno values
  and result type of its entry points, the circular window that both slot rings and the byte
  ring are read through, and the arithmetic of free-running and masked indices.
\<close>

unbundle bit_operations_syntax

section \<open>C types and results\<close>

type_synonym u8 = "8 word"
type_synonym u32 = "32 word"
type_synonym u64 = "64 word"

text \<open>A user buffer is the memory seen from the user pointer on.\<close>

type_synonym ubuf = "nat \<Rightarrow> u8"

abbreviation ubytes :: "ubuf \<Rightarrow> nat \<Rightarrow> u8 list" where
  "ubytes ub n \<equiv> map ub [0..<n]"

text \<open>
  The error codes the driver returns by name; \<open>Kerr\<close> carries an error value that a kernel
  call returned and the driver passes on unchanged.
\<close>

datatype errno =
    EFAULT | EINVAL | EBUSY | ENOMEM | ENOTTY | EAGAIN | ERESTARTSYS | ENODEV | ENOENT
  | ENOSPC | EIO | Kerr int

type_synonym 'a result = "errno + 'a"

named_theorems kbuf_defs \<open>definitions of the operations, to be unfolded together\<close>
named_theorems word_nat \<open>reading word expressions as natural numbers\<close>

section \<open>The circular window\<close>

text \<open>
  \<open>window xs s k\<close> is what a ring over the array \<open>xs\<close> holds when its oldest element is at
  index \<open>s\<close> and it has \<open>k\<close> elements.
\<close>

definition window :: "'a list \<Rightarrow> nat \<Rightarrow> nat \<Rightarrow> 'a list" where
  "window xs s k = map (\<lambda>i. xs ! ((s + i) mod length xs)) [0..<k]"

lemma length_window [simp]: "length (window xs s k) = k"
  by (simp add: window_def)

lemma window_0 [simp]: "window xs s 0 = []"
  by (simp add: window_def)

lemma window_eq_Nil [simp]: "window xs s k = [] \<longleftrightarrow> k = 0"
  by (simp add: window_def)

lemma nth_window [simp]: "i < k \<Longrightarrow> window xs s k ! i = xs ! ((s + i) mod length xs)"
  by (simp add: window_def)

lemma window_start_mod [simp]: "window xs (s mod length xs) k = window xs s k"
  by (simp add: window_def mod_add_left_eq)

lemma window_map: "xs \<noteq> [] \<Longrightarrow> window (map f xs) s k = map f (window xs s k)"
  by (simp add: window_def)

lemma set_window: "xs \<noteq> [] \<Longrightarrow> set (window xs s k) \<subseteq> set xs"
  by (auto simp: window_def)

lemma window_Suc: "window xs s (Suc k) = xs ! (s mod length xs) # window xs (Suc s) k"
  by (rule nth_equalityI) (auto simp: nth_Cons split: nat.splits)

lemma window_hd: "0 < k \<Longrightarrow> hd (window xs s k) = xs ! (s mod length xs)"
  by (cases k) (simp_all add: window_Suc)

lemma window_tl: "tl (window xs s k) = window xs (Suc s) (k - 1)"
  by (cases k) (simp_all add: window_Suc)

lemma window_add: "window xs s (j + k) = window xs s j @ window xs (s + j) k"
  by (rule nth_equalityI) (auto simp: nth_append add.assoc)

lemma window_drop: "j \<le> k \<Longrightarrow> drop j (window xs s k) = window xs (s + j) (k - j)"
  by (rule nth_equalityI) (auto simp: add.assoc)

lemma window_take: "j \<le> k \<Longrightarrow> take j (window xs s k) = window xs s j"
  by (rule nth_equalityI) auto

text \<open>Two positions of a window of at most the array's length are different slots.\<close>

lemma mod_add_cong_less:
  fixes s i j n :: nat
  assumes "(s + i) mod n = (s + j) mod n" "i < n" "j < n"
  shows "i = j"
proof -
  have "int i mod int n = int j mod int n"
  proof -
    have "(int s + int i) mod int n = (int s + int j) mod int n"
      using assms(1) by (metis of_nat_add of_nat_mod)
    then have "(int s + int i - int s) mod int n = (int s + int j - int s) mod int n"
      by (rule mod_diff_cong) simp
    then show ?thesis by simp
  qed
  with assms show ?thesis by simp
qed

lemma mod_Suc_add_pred: "0 < c \<Longrightarrow> (Suc i mod n + (c - 1)) mod n = (i + c) mod (n::nat)"
  by (cases c) (simp_all add: mod_add_left_eq)

text \<open>Filling the slot just past the window leaves the window as it is and extends it.\<close>

lemma window_update_outside:
  assumes "k < length xs"
  shows "window (xs[(s + k) mod length xs := x]) s k = window xs s k"
proof (rule nth_equalityI)
  fix i assume "i < length (window (xs[(s + k) mod length xs := x]) s k)"
  then have i: "i < k" by simp
  have "(s + k) mod length xs \<noteq> (s + i) mod length xs"
    using mod_add_cong_less [of s k "length xs" i] i assms by auto
  then show "window (xs[(s + k) mod length xs := x]) s k ! i = window xs s k ! i"
    using i by simp
qed simp

lemma window_update_snoc:
  assumes "k < length xs"
  shows "window (xs[(s + k) mod length xs := x]) s (Suc k) = window xs s k @ [x]"
proof -
  have "(s + k) mod length xs < length xs"
    using assms by (intro mod_less_divisor) linarith
  then show ?thesis
    using window_update_outside [OF assms, of s x]
      window_add [of "xs[(s + k) mod length xs := x]" s k 1]
    by (simp add: window_def)
qed

section \<open>Index arithmetic on words\<close>

lemma unat_u32_less: "unat (x :: u32) < 2 ^ 32"
  using unsigned_less [of x, where 'a = nat] by simp

lemma unat_u64_less: "unat (x :: u64) < 2 ^ 64"
  using unsigned_less [of x, where 'a = nat] by simp

lemma unat_2_power: "k < 32 \<Longrightarrow> unat (2 ^ k :: u32) = 2 ^ k"
  using unat_of_nat [of "2 ^ k", where 'a = 32] power_strict_increasing [of k 32 "2::nat"]
  by simp

text \<open>\<open>is_power_of_2\<close> of linux/log2.h.\<close>

definition is_power_of_2 :: "u32 \<Rightarrow> bool" where
  "is_power_of_2 n \<longleftrightarrow> n \<noteq> 0 \<and> n AND (n - 1) = 0"

lemma nat_and_pred_pow2: "0 < (x::nat) \<Longrightarrow> x AND (x - 1) = 0 \<Longrightarrow> \<exists>k. x = 2 ^ k"
proof (induction x rule: less_induct)
  case (less x)
  show ?case
  proof (cases "even x")
    case True
    then obtain y where y: "x = 2 * y" by blast
    with less.prems(1) have y0: "0 < y" by simp
    then have "x - 1 = Suc (2 * (y - 1))" using y by simp
    then have "x AND (x - 1) = 2 * (y AND (y - 1))"
      using y by (subst and_nat_unfold) (auto simp: y0)
    with less.prems(2) have "y AND (y - 1) = 0" by simp
    with less.IH [of y] y y0 obtain k where "y = 2 ^ k" by auto
    with y have "x = 2 ^ Suc k" by simp
    then show ?thesis by blast
  next
    case False
    then obtain y where y: "x = Suc (2 * y)" by (elim oddE) simp
    then have "x AND (x - 1) = 2 * y"
      by (subst and_nat_unfold) auto
    with less.prems(2) y have "x = 2 ^ 0" by simp
    then show ?thesis by blast
  qed
qed

lemma is_power_of_2_iff: "is_power_of_2 n \<longleftrightarrow> (\<exists>k<32. unat n = 2 ^ k)"
proof
  assume p: "is_power_of_2 n"
  then have n0: "n \<noteq> 0" and a: "n AND (n - 1) = 0" by (auto simp: is_power_of_2_def)
  have "unat n AND (unat n - 1) = 0"
    using a n0 by (metis unat_0 unat_minus_one unsigned_and_eq)
  moreover have "0 < unat n" using n0 by (simp add: unat_gt_0)
  ultimately obtain k where k: "unat n = 2 ^ k" using nat_and_pred_pow2 by blast
  have "unat n < 2 ^ 32" using unat_u32_less [of n] by simp
  with k have "(2::nat) ^ k < 2 ^ 32" by simp
  then have "k < 32" by (rule power_less_imp_less_exp [rotated]) simp
  with k show "\<exists>k<32. unat n = 2 ^ k" by blast
next
  assume "\<exists>k<32. unat n = 2 ^ k"
  then obtain k where k: "k < 32" "unat n = 2 ^ k" by blast
  have n: "n = 2 ^ k"
    by (rule word_unat_eq_iff [THEN iffD2]) (use k in \<open>simp add: unat_2_power\<close>)
  have "n AND (n - 1) = n AND mask k" by (simp add: n mask_eq_decr_exp)
  also have "\<dots> = 0"
    using and_mask_dvd_nat [of k n] k by simp
  finally show "is_power_of_2 n"
    using k by (auto simp: is_power_of_2_def)
qed

lemma pow2_dvd_2p32: "is_power_of_2 n \<Longrightarrow> unat n dvd 2 ^ 32"
proof -
  assume "is_power_of_2 n"
  then obtain k where "k < 32" "unat n = 2 ^ k" by (auto simp: is_power_of_2_iff)
  then show ?thesis using le_imp_power_dvd [of k 32 "2::nat"] by simp
qed

text \<open>Masking with \<open>n - 1\<close> is reduction modulo \<open>n\<close>.\<close>

lemma unat_and_pred [word_nat]:
  assumes "is_power_of_2 n"
  shows "unat (x AND (n - 1)) = unat x mod unat n"
proof -
  from assms obtain k where k: "k < 32" "unat n = 2 ^ k" by (auto simp: is_power_of_2_iff)
  have n: "n = 2 ^ k"
    by (rule word_unat_eq_iff [THEN iffD2]) (use k in \<open>simp add: unat_2_power\<close>)
  have "x AND (n - 1) = take_bit k x"
    by (simp only: n take_bit_eq_mask mask_eq_decr_exp)
  then show ?thesis using k unsigned_take_bit_eq [of k x, where 'a = nat]
    by (simp only: take_bit_eq_mod)
qed

text \<open>
  A free-running 32-bit index keeps its slot across the wrap-around at \<open>2^32\<close>, because the
  number of slots divides \<open>2^32\<close>.
\<close>

lemma unat_add_mod_pow2:
  fixes x y :: u32
  assumes "is_power_of_2 n"
  shows "unat (x + y) mod unat n = (unat x + unat y) mod unat n"
  using pow2_dvd_2p32 [OF assms] by (simp add: unat_word_ariths mod_mod_cancel)

lemma unat_add_1_mod_pow2:
  fixes x :: u32
  assumes "is_power_of_2 n"
  shows "unat (x + 1) mod unat n = Suc (unat x) mod unat n"
  using unat_add_mod_pow2 [OF assms, of x 1] by simp

lemma unat_diff_Suc [word_nat]:
  fixes p c :: u32
  assumes "unat (p - c) < 2 ^ 32 - 1"
  shows "unat (p + 1 - c) = Suc (unat (p - c))"
proof -
  have eq: "p + 1 - c = 1 + (p - c)" by simp
  have "1 + (p - c) \<noteq> 0"
  proof
    assume "1 + (p - c) = 0"
    then have "p - c = - 1" by (simp add: eq_neg_iff_add_eq_0 add.commute)
    then have "unat (p - c) = 2 ^ 32 - 1" by (simp add: unsigned_minus_1_eq_mask mask_eq_exp_minus_1)
    with assms show False by simp
  qed
  then show ?thesis unfolding eq by (rule unatSuc)
qed

lemma unat_diff_pred [word_nat]:
  fixes p c :: u32
  assumes "p \<noteq> c"
  shows "unat (p - (c + 1)) = unat (p - c) - 1"
  using assms unat_minus_one [of "p - c"] by (simp add: diff_diff_eq)

lemma unat_eq_diff_0: "unat (p - c) = 0 \<longleftrightarrow> (p :: 'a::len word) = c"
  by (simp add: unat_eq_0)

text \<open>The blocking ring's index advance, \<open>(pos + 1) % num_buffers\<close>.\<close>

lemma unat_succ_mod [word_nat]:
  fixes x n :: u32
  assumes "unat x < unat n"
  shows "unat ((x + 1) mod n) = Suc (unat x) mod unat n"
proof -
  have "unat x + 1 < 2 ^ 32" using assms unat_u32_less [of n] by simp
  then have "unat (x + 1) = Suc (unat x)" by (simp add: unat_word_ariths)
  then show ?thesis by (simp add: unat_mod_distrib)
qed

lemma unat_succ [word_nat]:
  fixes x n :: u32
  assumes "unat x < unat n"
  shows "unat (x + 1) = Suc (unat x)"
proof -
  have "unat x + 1 < 2 ^ 32" using assms unat_u32_less [of n] by simp
  then show ?thesis by (simp add: unat_word_ariths)
qed

section \<open>Late observations of an index\<close>

text \<open>A load may return any value the index went through since it was \<open>old\<close>.\<close>

definition may_load :: "'a::len word \<Rightarrow> 'a word \<Rightarrow> 'a word \<Rightarrow> bool" where
  "may_load old cur v \<longleftrightarrow> unat (v - old) \<le> unat (cur - old)"

lemma may_load_same: "may_load a a v \<longleftrightarrow> v = a"
  by (auto simp: may_load_def unat_eq_0)

lemma unat_diff_split:
  fixes a v c :: "'a::len word"
  assumes "unat (v - a) \<le> unat (c - a)"
  shows "unat (c - v) = unat (c - a) - unat (v - a)"
proof -
  have "c - v = (c - a) - (v - a)" by simp
  then show ?thesis using assms unat_sub [of "v - a" "c - a"] by (simp add: word_le_nat_alt)
qed

lemma load_cons:
  fixes a c p v :: "'a::len word"
  assumes "unat (c - a) + unat (p - c) = unat (p - a)" "may_load a c v"
  shows "unat (c - v) + unat (p - c) = unat (p - v)" "unat (p - v) \<le> unat (p - a)"
proof -
  have v: "unat (v - a) \<le> unat (c - a)" using assms(2) by (simp add: may_load_def)
  then have "unat (v - a) \<le> unat (p - a)" using assms(1) by simp
  with unat_diff_split [OF v] unat_diff_split [OF this] assms(1) v
  show "unat (c - v) + unat (p - c) = unat (p - v)" "unat (p - v) \<le> unat (p - a)" by simp_all
qed

lemma load_prod:
  fixes c w p v :: "'a::len word"
  assumes "unat (w - c) + unat (p - w) = unat (p - c)" "may_load w p v"
  shows "unat (v - c) + unat (p - v) = unat (p - c)"
proof -
  have "unat (v - w) \<le> unat (p - w)" using assms(2) by (simp add: may_load_def)
  from unat_diff_split [OF this] have pv: "unat (p - v) = unat (p - w) - unat (v - w)" .
  have e: "v - c = (p - c) - (p - v)" by simp
  have "p - v \<le> p - c" using pv assms(1) by (simp add: word_le_nat_alt)
  then have "unat (v - c) = unat (p - c) - unat (p - v)" by (subst e) (rule unat_sub)
  with pv assms(1) show ?thesis by simp
qed

end
