(* ===== verification/Kbuf_Kernel.thy ===== *)
theory Kbuf_Kernel
  imports Kbuf_Prelude "HOL-Library.State_Monad" "HOL-Library.Multiset"
begin

text \<open>
  The kernel the module runs in is not part of the repository. What each of its calls returns is
  a parameter: \<open>answers\<close> gives the value the kernel answers with at each request, and every
  theorem quantifies over it. What the driver does to the kernel is recorded as the list of the
  calls it made. \<open>held\<close> reads that list with the documented contract of the calls (which
  object a call hands out and which one it takes back): it is the multiset of kernel objects the
  module owns, and \<open>None\<close> once the module gives back an object it does not own (a double or
  invalid free). \<open>ktriple\<close> is a small separation logic over this ledger.
\<close>

section \<open>Kernel objects and calls\<close>

text \<open>Pointers as integers: \<open>0\<close> is NULL.\<close>

type_synonym ptr = int

datatype kobj =
    Mem ptr | VMem ptr | Ida_Id int | Chrdev_Region int nat | Dev_Class ptr
  | Cdev_Obj ptr | Cdev_Map int | Dev_Node int
  | Proc_Entry ptr | Debugfs_Dir ptr | Misc_Dev | Platform_Dev ptr
  | Sg_Table ptr | Dma_Mapping ptr
  | Dmabuf_Ref ptr | Dmabuf_Attach ptr | Dmabuf_Map ptr | Dmabuf_Vmap ptr

text \<open>
  The calls the module makes, by their contract: one that hands an object out and one that takes
  an object back.
\<close>

datatype kcall = Got kobj | Gave kobj

section \<open>The ledger\<close>

record kst =
  answers :: "nat \<Rightarrow> int"
  ticks :: nat
  calls :: "kcall list"

fun kstep :: "kobj multiset option \<Rightarrow> kcall \<Rightarrow> kobj multiset option" where
  "kstep None c = None"
| "kstep (Some H) (Got x) = Some (add_mset x H)"
| "kstep (Some H) (Gave x) = (if x \<in># H then Some (H - {#x#}) else None)"

definition ledger :: "kobj multiset option \<Rightarrow> kcall list \<Rightarrow> kobj multiset option" where
  "ledger H cs = foldl kstep H cs"

definition held :: "kst \<Rightarrow> kobj multiset option" where
  "held k = ledger (Some {#}) (calls k)"

section \<open>Requests to the kernel\<close>

definition ask :: "(kst, int) state" where
  "ask = State (\<lambda>k. (answers k (ticks k), k\<lparr>ticks := Suc (ticks k)\<rparr>))"

definition ask_bytes :: "nat \<Rightarrow> (kst, u8 list) state" where
  "ask_bytes n = State (\<lambda>k. (map (\<lambda>i. word_of_int (answers k (ticks k + i))) [0..<n],
     k\<lparr>ticks := ticks k + n\<rparr>))"

definition tell :: "kcall \<Rightarrow> (kst, unit) state" where
  "tell c = State (\<lambda>k. ((), k\<lparr>calls := calls k @ [c]\<rparr>))"

text \<open>A call that returns a new object or NULL.\<close>

definition ask_ptr :: "(ptr \<Rightarrow> kobj) \<Rightarrow> (kst, ptr) state" where
  "ask_ptr ob = do {
     p \<leftarrow> ask;
     if p > 0 then do { tell (Got (ob p)); State_Monad.return p } else State_Monad.return 0 }"

text \<open>A call that returns a negative error, or a value of at least 0 and an object with it.\<close>

definition ask_err :: "(int \<Rightarrow> kobj) \<Rightarrow> (kst, int) state" where
  "ask_err ob = do {
     r \<leftarrow> ask;
     if r < 0 then State_Monad.return r else do { tell (Got (ob r)); State_Monad.return r } }"

section \<open>A separation logic over the ledger\<close>

definition ktriple :: "kobj multiset \<Rightarrow> (kst, 'a) state \<Rightarrow> ('a \<Rightarrow> kobj multiset) \<Rightarrow> bool" where
  "ktriple P m Q \<longleftrightarrow> (\<forall>k F. held k = Some (P + F) \<longrightarrow>
     (case run_state m k of (r, k') \<Rightarrow> held k' = Some (Q r + F)))"

lemma ktripleI:
  "(\<And>k F r k'. held k = Some (P + F) \<Longrightarrow> run_state m k = (r, k') \<Longrightarrow> held k' = Some (Q r + F))
   \<Longrightarrow> ktriple P m Q"
  unfolding ktriple_def by (auto split: prod.split)

lemma ktripleD:
  "ktriple P m Q \<Longrightarrow> held k = Some (P + F) \<Longrightarrow> run_state m k = (r, k') \<Longrightarrow>
   held k' = Some (Q r + F)"
  unfolding ktriple_def by (fastforce split: prod.splits)

lemma ktriple_return: "P = Q x \<Longrightarrow> ktriple P (State_Monad.return x) Q"
  by (auto intro!: ktripleI simp: State_Monad.return_def)

lemma ktriple_bind:
  assumes "ktriple P m Q" and "\<And>r. ktriple (Q r) (f r) R"
  shows "ktriple P (m \<bind> f) R"
proof (rule ktripleI)
  fix k F r k'
  assume h: "held k = Some (P + F)" and run: "run_state (m \<bind> f) k = (r, k')"
  obtain r1 k1 where m: "run_state m k = (r1, k1)" by fastforce
  have "held k1 = Some (Q r1 + F)" by (rule ktripleD [OF assms(1) h m])
  moreover have "run_state (f r1) k1 = (r, k')"
    using run m by (simp add: State_Monad.bind_def)
  ultimately show "held k' = Some (R r + F)" by (rule ktripleD [OF assms(2)])
qed

lemma ktriple_frame: "ktriple P m Q \<Longrightarrow> ktriple (P + F) m (\<lambda>r. Q r + F)"
  by (rule ktripleI) (auto simp: union_assoc dest: ktripleD)

lemma ktriple_conseq:
  "ktriple P m Q \<Longrightarrow> P' = P + F \<Longrightarrow> (\<And>r. Q r + F = Q' r) \<Longrightarrow> ktriple P' m Q'"
  using ktriple_frame [of P m Q F] by simp

text \<open>One step: run \<open>m\<close> on the part \<open>P\<close> of what is held and go on with the rest.\<close>

lemma ktriple_step:
  assumes "ktriple P m Q" and "P' = P + F" and "\<And>r. ktriple (Q r + F) (f r) R"
  shows "ktriple P' (m \<bind> f) R"
  by (rule ktriple_bind [OF ktriple_conseq [OF assms(1,2) refl]]) (rule assms(3))

lemma ktriple_if:
  "(b \<Longrightarrow> ktriple P m Q) \<Longrightarrow> (\<not> b \<Longrightarrow> ktriple P n Q) \<Longrightarrow> ktriple P (if b then m else n) Q"
  by simp

lemma ledger_snoc [simp]: "ledger H (cs @ [c]) = kstep (ledger H cs) c"
  by (simp add: ledger_def)

lemma ktriple_ask: "ktriple {#} ask (\<lambda>_. {#})"
  by (rule ktripleI) (auto simp: ask_def held_def)

lemma ktriple_ask_bytes: "ktriple {#} (ask_bytes n) (\<lambda>_. {#})"
  by (rule ktripleI) (auto simp: ask_bytes_def held_def)

lemma ktriple_got: "ktriple {#} (tell (Got x)) (\<lambda>_. {#x#})"
  by (rule ktripleI) (auto simp: tell_def held_def)

lemma ktriple_gave: "ktriple {#x#} (tell (Gave x)) (\<lambda>_. {#})"
  by (rule ktripleI) (auto simp: tell_def held_def)

lemma ktriple_ask_ptr: "ktriple {#} (ask_ptr ob) (\<lambda>p. if p = 0 then {#} else {#ob p#})"
  unfolding ask_ptr_def
  by (rule ktriple_bind [OF ktriple_ask], rule ktriple_if, rule ktriple_bind [OF ktriple_got])
    (auto intro: ktriple_return)

lemma ktriple_ask_err: "ktriple {#} (ask_err ob) (\<lambda>r. if r < 0 then {#} else {#ob r#})"
  unfolding ask_err_def
  by (rule ktriple_bind [OF ktriple_ask], rule ktriple_if, simp add: ktriple_return,
      rule ktriple_bind [OF ktriple_got]) (auto intro: ktriple_return)

end
