(* ===== verification/Kbuf_Dev.thy ===== *)
theory Kbuf_Dev
  imports Kbuf_Kernel
begin

text \<open>
  The data of the driver: the constants and structures of include/kbuf.h and
  src/kbuf_internal.h, the allocation and release of a slot array (src/kbuf_ring.c) and of the
  buffers shared through mmap (src/kbuf_mmap.c), with the ledger of kernel memory they keep.
\<close>

section \<open>Constants and structures\<close>

definition KBUF_MODE_BLOCKING :: int where [simp]: "KBUF_MODE_BLOCKING = 0"
definition KBUF_MODE_SPSC :: int where [simp]: "KBUF_MODE_SPSC = 1"

definition KBUF_DEFAULT_NUM_BUFFERS :: u32 where "KBUF_DEFAULT_NUM_BUFFERS = 8"
definition KBUF_DEFAULT_BUFFER_SIZE :: u32 where "KBUF_DEFAULT_BUFFER_SIZE = 4096"
definition KBUF_MAX_NUM_BUFFERS :: u32 where "KBUF_MAX_NUM_BUFFERS = 256"
definition KBUF_MAX_BUFFER_SIZE :: u32 where "KBUF_MAX_BUFFER_SIZE = 64 * 1024"
definition KBUF_MMAP_CAPACITY :: nat where "KBUF_MMAP_CAPACITY = 64 * 1024"

text \<open>
  A slot: the pointer to its heap buffer, the contents of that buffer (whose length is the
  allocated size) and the number of valid bytes.
\<close>

record kbuf_slot =
  data :: ptr
  bytes :: "u8 list"
  len :: nat

text \<open>The control page of the mmap ring.\<close>

record kbuf_mmap_ctrl =
  head :: u64
  tail :: u64
  capacity :: u32

text \<open>
  The device. A pointer field comes with the contents it points to: \<open>slots_ptr\<close> with
  \<open>slots\<close>, \<open>mmap_ctrl\<close> with \<open>ctrl_page\<close>, \<open>mmap_data\<close> with
  \<open>data_bytes\<close>. The C \<open>int\<close> fields \<open>read_pos\<close>, \<open>write_pos\<close> and
  \<open>count\<close> (here \<open>ring_count\<close>) only meet unsigned operands, so they are words.
\<close>

record kbuf_dev =
  slots_ptr :: ptr
  slots :: "kbuf_slot list"
  num_buffers :: u32
  buffer_size :: u32
  read_pos :: u32
  write_pos :: u32
  ring_count :: u32
  prod_idx :: u32
  cons_idx :: u32
  peak_count :: u32
  bytes_produced :: u64
  bytes_consumed :: u64
  msgs_produced :: u64
  msgs_consumed :: u64
  read_sleeps :: u64
  write_sleeps :: u64
  mode :: int
  mmap_ctrl :: ptr
  ctrl_page :: kbuf_mmap_ctrl
  mmap_data :: ptr
  data_bytes :: "u8 list"
  cdevp :: ptr
  devno :: int
  dynamic :: bool
  minor_off :: int

text \<open>A device as \<open>kzalloc\<close>/\<open>kcalloc\<close> hand it out: every field zero.\<close>

definition zero_ctrl :: kbuf_mmap_ctrl where
  "zero_ctrl = \<lparr>head = 0, tail = 0, capacity = 0\<rparr>"

definition zero_dev :: kbuf_dev where
  "zero_dev = \<lparr>slots_ptr = 0, slots = [], num_buffers = 0, buffer_size = 0, read_pos = 0,
     write_pos = 0, ring_count = 0, prod_idx = 0, cons_idx = 0, peak_count = 0,
     bytes_produced = 0, bytes_consumed = 0, msgs_produced = 0, msgs_consumed = 0,
     read_sleeps = 0, write_sleeps = 0, mode = 0, mmap_ctrl = 0, ctrl_page = zero_ctrl,
     mmap_data = 0, data_bytes = [], cdevp = 0, devno = 0, dynamic = False, minor_off = 0\<rparr>"

section \<open>Slot arrays\<close>

definition kmalloc :: "nat \<Rightarrow> (kst, ptr \<times> u8 list) state" where
  "kmalloc n = do { p \<leftarrow> ask_ptr Mem; b \<leftarrow> ask_bytes n; State_Monad.return (p, b) }"

definition kfree :: "ptr \<Rightarrow> (kst, unit) state" where
  "kfree p = (if p = 0 then State_Monad.return () else tell (Gave (Mem p)))"

primrec kfree_all :: "ptr list \<Rightarrow> (kst, unit) state" where
  "kfree_all [] = State_Monad.return ()"
| "kfree_all (p # ps) = do { kfree p; kfree_all ps }"

text \<open>
  The loop of \<open>kbuf_alloc_slots\<close>: \<open>acc\<close> holds the slots \<open>0..i-1\<close>, \<open>n\<close>
  slots are still to come. On failure the buffers are freed from the last one back, then the
  array.
\<close>

primrec alloc_slots_loop :: "nat \<Rightarrow> nat \<Rightarrow> ptr \<Rightarrow> kbuf_slot list
    \<Rightarrow> (kst, (ptr \<times> kbuf_slot list) option) state" where
  "alloc_slots_loop 0 sz sp acc = State_Monad.return (Some (sp, acc))"
| "alloc_slots_loop (Suc n) sz sp acc = do {
     (p, b) \<leftarrow> kmalloc sz;
     if p = 0 then do {
       kfree_all (rev (map data acc));
       kfree sp;
       State_Monad.return None }
     else alloc_slots_loop n sz sp (acc @ [\<lparr>data = p, bytes = b, len = 0\<rparr>]) }"

definition kbuf_alloc_slots ::
    "u32 \<Rightarrow> u32 \<Rightarrow> (kst, (ptr \<times> kbuf_slot list) option) state" where
  "kbuf_alloc_slots num sz = do {
     sp \<leftarrow> ask_ptr Mem;
     if sp = 0 then State_Monad.return None
     else alloc_slots_loop (unat num) (unat sz) sp [] }"

definition kbuf_free_slots :: "ptr \<Rightarrow> kbuf_slot list \<Rightarrow> u32 \<Rightarrow> (kst, unit) state" where
  "kbuf_free_slots sp ss num =
     (if sp = 0 then State_Monad.return ()
      else do { kfree_all (map (\<lambda>i. data (ss ! i)) [0..<unat num]); kfree sp })"

lemma alloc_slots_loop_numeral [simp]:
  "alloc_slots_loop (numeral n) sz sp acc = do {
     (p, b) \<leftarrow> kmalloc sz;
     if p = 0 then do {
       kfree_all (rev (map data acc));
       kfree sp;
       State_Monad.return None }
     else alloc_slots_loop (pred_numeral n) sz sp (acc @ [\<lparr>data = p, bytes = b, len = 0\<rparr>]) }"
  by (simp add: numeral_eq_Suc)

text \<open>The kernel memory a slot array owns.\<close>

definition slot_mem :: "kbuf_slot list \<Rightarrow> kobj multiset" where
  "slot_mem ss = image_mset (\<lambda>s. Mem (data s)) (mset ss)"

definition slots_mem :: "ptr \<Rightarrow> kbuf_slot list \<Rightarrow> kobj multiset" where
  "slots_mem sp ss = (if sp = 0 then {#} else add_mset (Mem sp) (slot_mem ss))"

definition slots_ok :: "nat \<Rightarrow> nat \<Rightarrow> kbuf_slot list \<Rightarrow> bool" where
  "slots_ok n sz ss \<longleftrightarrow> length ss = n \<and>
     (\<forall>s \<in> set ss. data s \<noteq> 0 \<and> length (bytes s) = sz \<and> len s \<le> sz)"

lemma slot_mem_simps [simp]:
  "slot_mem [] = {#}"
  "slot_mem (s # ss) = add_mset (Mem (data s)) (slot_mem ss)"
  "slot_mem (ss @ ts) = slot_mem ss + slot_mem ts"
  by (simp_all add: slot_mem_def)

lemma ktriple_kmalloc: "ktriple {#} (kmalloc n) (\<lambda>(p, b). if p = 0 then {#} else {#Mem p#})"
  unfolding kmalloc_def
  by (rule ktriple_bind [OF ktriple_ask_ptr], rule ktriple_step [OF ktriple_ask_bytes])
    (auto intro: ktriple_return)

lemma ktriple_kfree: "p \<noteq> 0 \<Longrightarrow> ktriple {#Mem p#} (kfree p) (\<lambda>_. {#})"
  by (simp add: kfree_def ktriple_gave)

lemma ktriple_kfree_all:
  "0 \<notin> set ps \<Longrightarrow> ktriple (image_mset Mem (mset ps)) (kfree_all ps) (\<lambda>_. {#})"
proof (induction ps)
  case (Cons p ps)
  then have "ktriple {#Mem p#} (kfree p) (\<lambda>_. {#})" by (auto intro: ktriple_kfree)
  then show ?case
    by (simp, rule ktriple_step [where F = "image_mset Mem (mset ps)"]) (use Cons in auto)
qed (simp add: ktriple_return)

lemma kmalloc_result:
  "run_state (kmalloc n) k = ((p, b), k') \<Longrightarrow> length b = n"
  by (auto simp: kmalloc_def ask_bytes_def State_Monad.bind_def State_Monad.return_def
      split: prod.splits)

lemma ktriple_alloc_slots_loop:
  "\<forall>s \<in> set acc. data s \<noteq> 0 \<Longrightarrow> sp \<noteq> 0 \<Longrightarrow>
   ktriple (add_mset (Mem sp) (slot_mem acc)) (alloc_slots_loop n sz sp acc)
     (\<lambda>r. case r of None \<Rightarrow> {#} | Some (sp, ss) \<Rightarrow> slots_mem sp ss)"
proof (induction n arbitrary: acc)
  case 0
  then show ?case by (auto simp: slots_mem_def intro!: ktriple_return)
next
  case (Suc n)
  let ?H = "add_mset (Mem sp) (slot_mem acc)"
  have free: "ktriple ?H (do { kfree_all (rev (map data acc)); kfree sp;
      State_Monad.return (None :: (ptr \<times> kbuf_slot list) option) })
      (\<lambda>r. case r of None \<Rightarrow> {#} | Some (sp, ss) \<Rightarrow> slots_mem sp ss)"
  proof (rule ktriple_step [OF ktriple_kfree_all, where F = "{#Mem sp#}"])
    show "?H = image_mset Mem (mset (rev (map data acc))) + {#Mem sp#}"
      by (simp add: slot_mem_def image_mset.compositionality comp_def)
  qed (use Suc.prems in \<open>auto intro!: ktriple_bind [OF ktriple_kfree] ktriple_return\<close>)
  have more: "ktriple (add_mset (Mem p) ?H)
      (alloc_slots_loop n sz sp (acc @ [\<lparr>data = p, bytes = b, len = 0\<rparr>]))
      (\<lambda>r. case r of None \<Rightarrow> {#} | Some (sp, ss) \<Rightarrow> slots_mem sp ss)" if "p \<noteq> 0" for p b
    using Suc.IH [of "acc @ [\<lparr>data = p, bytes = b, len = 0\<rparr>]"] Suc.prems that
    by (auto simp: add_mset_commute)
  show ?case
    by (simp only: alloc_slots_loop.simps, rule ktriple_step [OF ktriple_kmalloc, where F = ?H])
      (use free more in \<open>auto simp: add_mset_commute\<close>)
qed

lemma ktriple_kbuf_alloc_slots:
  "ktriple {#} (kbuf_alloc_slots num sz)
     (\<lambda>r. case r of None \<Rightarrow> {#} | Some (sp, ss) \<Rightarrow> slots_mem sp ss)"
  unfolding kbuf_alloc_slots_def
  by (rule ktriple_bind [OF ktriple_ask_ptr])
    (auto intro: ktriple_return ktriple_alloc_slots_loop [of "[]", simplified])

text \<open>A successful allocation has the requested geometry, with every slot empty.\<close>

lemma alloc_slots_loop_ok:
  "run_state (alloc_slots_loop n sz sp acc) k = (Some (sp', ss), k') \<Longrightarrow>
   slots_ok m sz acc \<Longrightarrow> \<forall>s \<in> set acc. len s = 0 \<Longrightarrow>
   sp' = sp \<and> slots_ok (m + n) sz ss \<and> (\<forall>s \<in> set ss. len s = 0)"
proof (induction n arbitrary: acc m k)
  case (Suc n)
  obtain p b k1 where m: "run_state (kmalloc sz) k = ((p, b), k1)"
    by (metis surj_pair)
  with Suc.prems(1) have p: "p \<noteq> 0"
    by (auto split: prod.splits if_splits)
  with m Suc.prems(1) have run:
    "run_state (alloc_slots_loop n sz sp (acc @ [\<lparr>data = p, bytes = b, len = 0\<rparr>])) k1
       = (Some (sp', ss), k')"
    by simp
  have "slots_ok (Suc m) sz (acc @ [\<lparr>data = p, bytes = b, len = 0\<rparr>])"
    using Suc.prems(2) p kmalloc_result [OF m] by (auto simp: slots_ok_def)
  from Suc.IH [OF run this] Suc.prems(3) show ?case by simp
qed auto

lemma kbuf_alloc_slots_ok:
  assumes "run_state (kbuf_alloc_slots num sz) k = (Some (sp, ss), k')"
  shows "sp \<noteq> 0" "slots_ok (unat num) (unat sz) ss" "\<forall>s \<in> set ss. len s = 0"
proof -
  obtain p k1 where p: "run_state (ask_ptr Mem) k = (p, k1)" by fastforce
  with assms have p0: "p \<noteq> 0"
    and run: "run_state (alloc_slots_loop (unat num) (unat sz) p []) k1 = (Some (sp, ss), k')"
    by (auto simp: kbuf_alloc_slots_def split: if_splits)
  have "slots_ok 0 (unat sz) []" by (simp add: slots_ok_def)
  from alloc_slots_loop_ok [OF run this] p0
  show "sp \<noteq> 0" "slots_ok (unat num) (unat sz) ss" "\<forall>s \<in> set ss. len s = 0"
    by simp_all
qed

lemma map_nth_data: "n = length ss \<Longrightarrow> map (\<lambda>i. data (ss ! i)) [0..<n] = map data ss"
  by (rule nth_equalityI) auto

lemma ktriple_kbuf_free_slots:
  assumes "slots_ok (unat num) sz ss"
  shows "ktriple (slots_mem sp ss) (kbuf_free_slots sp ss num) (\<lambda>_. {#})"
proof (cases "sp = 0")
  case True
  then show ?thesis by (simp add: kbuf_free_slots_def slots_mem_def ktriple_return)
next
  case False
  have all: "map (\<lambda>i. data (ss ! i)) [0..<unat num] = map data ss"
    using assms by (intro map_nth_data) (simp add: slots_ok_def)
  have "0 \<notin> set (map data ss)" using assms by (auto simp: slots_ok_def)
  from ktriple_kfree_all [OF this] False show ?thesis
    unfolding kbuf_free_slots_def all
    by (simp, intro ktriple_step [where F = "{#Mem sp#}"])
      (auto simp: slots_mem_def slot_mem_def image_mset.compositionality comp_def
        intro: ktriple_kfree)
qed

end
