(* ===== verification/Kbuf_Queue.thy ===== *)
theory Kbuf_Queue
  imports Kbuf_Prelude
begin

text \<open>
  What a kbuf device promises to the processes that use it, and the interfaces between the ring
  mechanics (kbuf_ring.c), the file operations (kbuf_main.c) and their callers. A device is a
  bounded queue of messages: \<open>spec_step\<close> is that contract, one call at a time, and the FIFO
  law below is what it means for a whole sequence of calls. The locale \<open>slot_ring\<close> is what
  the file operations rely on from a ring, \<open>fifo_server\<close> what their callers rely on.
\<close>

section \<open>User memory access\<close>

text \<open>
  The kernel's user copies, as parameters. \<open>copy_to_user src\<close> gives the bytes that arrive
  in user memory and the number of bytes left uncopied, \<open>copy_from_user dst src\<close> the new
  contents of the kernel buffer and the number left uncopied.
\<close>

record uaccess =
  copy_to_user :: "u8 list \<Rightarrow> u8 list \<times> nat"
  copy_from_user :: "u8 list \<Rightarrow> u8 list \<Rightarrow> u8 list \<times> nat"

text \<open>
  Their documented behaviour: a copy that leaves nothing uncopied is complete, and a copy into a
  large enough buffer stays within the first bytes of it.
\<close>

definition uaccess_ok :: "uaccess \<Rightarrow> bool" where
  "uaccess_ok u \<longleftrightarrow>
     (\<forall>src. snd (copy_to_user u src) = 0 \<longrightarrow> fst (copy_to_user u src) = src) \<and>
     (\<forall>dst src. length src \<le> length dst \<longrightarrow>
        length (fst (copy_from_user u dst src)) = length dst \<and>
        (snd (copy_from_user u dst src) = 0 \<longrightarrow>
           fst (copy_from_user u dst src) = src @ drop (length src) dst))"

lemma copy_to_user_ok: "uaccess_ok u \<Longrightarrow> copy_to_user u src = (out, 0) \<Longrightarrow> out = src"
  by (auto simp: uaccess_ok_def dest!: spec [where x = src])

lemma copy_from_user_ok:
  assumes "uaccess_ok u" "length src \<le> length dst" "copy_from_user u dst src = (new, left)"
  shows "length new = length dst" "left = 0 \<Longrightarrow> new = src @ drop (length src) dst"
proof -
  have "length (fst (copy_from_user u dst src)) = length dst \<and>
      (snd (copy_from_user u dst src) = 0 \<longrightarrow>
        fst (copy_from_user u dst src) = src @ drop (length src) dst)"
    using assms(1,2) by (simp add: uaccess_ok_def)
  with assms(3) show "length new = length dst" "left = 0 \<Longrightarrow> new = src @ drop (length src) dst"
    by simp_all
qed

text \<open>Accesses that never fault, and accesses that always do.\<close>

definition good_user :: uaccess where
  "good_user = \<lparr>copy_to_user = (\<lambda>src. (src, 0)),
     copy_from_user = (\<lambda>dst src. (src @ drop (length src) dst, 0))\<rparr>"

definition bad_user :: uaccess where
  "bad_user = \<lparr>copy_to_user = (\<lambda>src. ([], Suc (length src))),
     copy_from_user = (\<lambda>dst src. (dst, Suc (length src)))\<rparr>"

lemma uaccess_ok_good [simp]: "uaccess_ok good_user"
  by (simp add: uaccess_ok_def good_user_def)

lemma uaccess_ok_bad [simp]: "uaccess_ok bad_user"
  by (simp add: uaccess_ok_def bad_user_def)

lemma good_user_simps [simp]:
  "copy_to_user good_user src = (src, 0)"
  "copy_from_user good_user dst src = (src @ drop (length src) dst, 0)"
  by (simp_all add: good_user_def)

section \<open>The abstract device\<close>

datatype call = Read nat | Write ubuf nat

text \<open>\<open>Done n out\<close>: the call returned \<open>n\<close> and \<open>out\<close> is in the reader's buffer.\<close>

datatype reply = Done nat "u8 list" | Failed errno

inductive spec_step :: "nat \<Rightarrow> nat \<Rightarrow> u8 list list \<Rightarrow> call \<Rightarrow> reply \<Rightarrow> u8 list list \<Rightarrow> bool"
  for cap bsize where
  read_empty: "spec_step cap bsize [] (Read n) (Failed EAGAIN) []"
| read_msg: "spec_step cap bsize (m # ms) (Read n) (Done (min n (length m)) (take n m)) ms"
| read_fault: "spec_step cap bsize (m # ms) (Read n) (Failed EFAULT) (m # ms)"
| write_full: "length q = cap \<Longrightarrow> spec_step cap bsize q (Write ub n) (Failed EAGAIN) q"
| write_msg: "length q < cap \<Longrightarrow> spec_step cap bsize q (Write ub n) (Done (min n bsize) [])
     (q @ [ubytes ub (min n bsize)])"
| write_fault: "length q < cap \<Longrightarrow> spec_step cap bsize q (Write ub n) (Failed EFAULT) q"

inductive_cases spec_step_readE: "spec_step cap bsize q (Read n) r q'"
inductive_cases spec_step_writeE: "spec_step cap bsize q (Write ub n) r q'"

inductive spec_run :: "nat \<Rightarrow> nat \<Rightarrow> u8 list list \<Rightarrow> (call \<times> reply) list \<Rightarrow> u8 list list \<Rightarrow> bool"
  for cap bsize where
  run_nil: "spec_run cap bsize q [] q"
| run_cons: "spec_step cap bsize q c r q' \<Longrightarrow> spec_run cap bsize q' tr q'' \<Longrightarrow>
     spec_run cap bsize q ((c, r) # tr) q''"

inductive_cases spec_run_consE: "spec_run cap bsize q ((c, r) # tr) q'"

text \<open>The messages the writers were told are in, and the reads that returned data.\<close>

fun accepted :: "(call \<times> reply) list \<Rightarrow> u8 list list" where
  "accepted [] = []"
| "accepted ((Write ub n, Done k out) # tr) = ubytes ub k # accepted tr"
| "accepted (_ # tr) = accepted tr"

fun delivered :: "(call \<times> reply) list \<Rightarrow> (nat \<times> u8 list) list" where
  "delivered [] = []"
| "delivered ((Read n, Done k out) # tr) = (n, out) # delivered tr"
| "delivered (_ # tr) = delivered tr"

lemma accepted_Cons: "accepted (x # tr) = accepted [x] @ accepted tr"
proof (cases x)
  case (Pair c r)
  then show ?thesis by (cases c; cases r) simp_all
qed

lemma delivered_Cons: "delivered (x # tr) = delivered [x] @ delivered tr"
proof (cases x)
  case (Pair c r)
  then show ?thesis by (cases c; cases r) simp_all
qed

text \<open>
  The FIFO law: what was queued and accepted is, in order, what the reads took out (each read one
  whole message, of which it got the first bytes it had room for) followed by what is left.
\<close>

definition fifo_law :: "u8 list list \<Rightarrow> (call \<times> reply) list \<Rightarrow> u8 list list \<Rightarrow> bool" where
  "fifo_law q tr q' \<longleftrightarrow> (\<exists>gone. q @ accepted tr = gone @ q' \<and>
     list_all2 (\<lambda>(n, out) m. out = take n m) (delivered tr) gone)"

lemma fifo_law_nil: "fifo_law q [] q"
  by (simp add: fifo_law_def)

lemma fifo_law_read: "fifo_law ms tr q' \<Longrightarrow> fifo_law (m # ms) ((Read n, Done k (take n m)) # tr) q'"
  unfolding fifo_law_def
proof (elim exE conjE)
  fix gone
  assume "ms @ accepted tr = gone @ q'"
    and "list_all2 (\<lambda>(n, out) m. out = take n m) (delivered tr) gone"
  then show "\<exists>gone. (m # ms) @ accepted ((Read n, Done k (take n m)) # tr) = gone @ q' \<and>
      list_all2 (\<lambda>(n, out) m. out = take n m) (delivered ((Read n, Done k (take n m)) # tr)) gone"
    by (intro exI [where x = "m # gone"]) simp
qed

lemma fifo_law_write:
  "fifo_law (q @ [ubytes ub k]) tr q' \<Longrightarrow> fifo_law q ((Write ub n, Done k out) # tr) q'"
  by (simp add: fifo_law_def)

lemma fifo_law_failed: "fifo_law q tr q' \<Longrightarrow> fifo_law q ((c, Failed e) # tr) q'"
  by (cases c) (simp_all add: fifo_law_def)

lemma spec_run_fifo: "spec_run cap bsize q tr q' \<Longrightarrow> fifo_law q tr q'"
proof (induction rule: spec_run.induct)
  case (run_cons q c r q' tr q'')
  from run_cons.hyps(1) run_cons.IH show ?case
    by cases (auto intro: fifo_law_read fifo_law_write fifo_law_failed)
qed (rule fifo_law_nil)

lemma spec_run_bounded:
  "spec_run cap bsize q tr q' \<Longrightarrow> length q \<le> cap \<Longrightarrow> length q' \<le> cap"
proof (induction rule: spec_run.induct)
  case (run_cons q c r q' tr q'')
  from run_cons.hyps(1) have "length q \<le> cap \<Longrightarrow> length q' \<le> cap" by cases auto
  with run_cons show ?case by simp
qed

section \<open>Sequences of calls\<close>

fun exec :: "('d \<Rightarrow> uaccess \<Rightarrow> call \<Rightarrow> (reply \<times> 'd) option) \<Rightarrow> 'd \<Rightarrow> (uaccess \<times> call) list
    \<Rightarrow> ((call \<times> reply) list \<times> 'd) option" where
  "exec step d [] = Some ([], d)"
| "exec step d ((u, c) # cs) =
     (case step d u c of
        None \<Rightarrow> None
      | Some (r, d') \<Rightarrow> (case exec step d' cs of
          None \<Rightarrow> None
        | Some (tr, d'') \<Rightarrow> Some ((c, r) # tr, d'')))"

text \<open>A server of calls: every call is defined, keeps the invariant and follows the contract.\<close>

locale fifo_server =
  fixes inv :: "'d \<Rightarrow> bool" and msgs :: "'d \<Rightarrow> u8 list list"
    and cap :: "'d \<Rightarrow> nat" and bsize :: "'d \<Rightarrow> nat"
    and step :: "'d \<Rightarrow> uaccess \<Rightarrow> call \<Rightarrow> (reply \<times> 'd) option"
  assumes serves: "inv d \<Longrightarrow> uaccess_ok u \<Longrightarrow>
      \<exists>r d'. step d u c = Some (r, d') \<and> inv d' \<and> cap d' = cap d \<and> bsize d' = bsize d \<and>
        spec_step (cap d) (bsize d) (msgs d) c r (msgs d')"
begin

lemma exec_refines:
  "inv d \<Longrightarrow> \<forall>(u, c) \<in> set cs. uaccess_ok u \<Longrightarrow>
   \<exists>tr d'. exec step d cs = Some (tr, d') \<and> inv d' \<and> cap d' = cap d \<and> bsize d' = bsize d \<and>
     map fst tr = map snd cs \<and> spec_run (cap d) (bsize d) (msgs d) tr (msgs d')"
proof (induction cs arbitrary: d)
  case Nil
  then show ?case by (auto intro: run_nil)
next
  case (Cons uc cs)
  obtain u c where uc: "uc = (u, c)" by fastforce
  with Cons.prems serves [of d u c] obtain r d1 where
    1: "step d u c = Some (r, d1)" "inv d1" "cap d1 = cap d" "bsize d1 = bsize d"
      "spec_step (cap d) (bsize d) (msgs d) c r (msgs d1)"
    by auto
  from Cons.IH [OF 1(2)] Cons.prems obtain tr d2 where
    "exec step d1 cs = Some (tr, d2)" "inv d2" "cap d2 = cap d1" "bsize d2 = bsize d1"
      "map fst tr = map snd cs" "spec_run (cap d1) (bsize d1) (msgs d1) tr (msgs d2)"
    by auto
  with 1 uc show ?case by (auto intro: run_cons)
qed

lemma exec_fifo:
  assumes "inv d" "\<forall>(u, c) \<in> set cs. uaccess_ok u"
  shows "\<exists>tr d'. exec step d cs = Some (tr, d') \<and> inv d' \<and> map fst tr = map snd cs \<and>
    fifo_law (msgs d) tr (msgs d')"
  using exec_refines [OF assms] spec_run_fifo by blast

end

section \<open>What a ring promises\<close>

locale slot_ring =
  fixes inv :: "'d \<Rightarrow> bool" and msgs :: "'d \<Rightarrow> u8 list list"
    and cap :: "'d \<Rightarrow> nat" and bsize :: "'d \<Rightarrow> nat"
    and is_empty :: "'d \<Rightarrow> bool" and is_full :: "'d \<Rightarrow> bool"
    and consume :: "uaccess \<Rightarrow> 'd \<Rightarrow> nat \<Rightarrow> (nat result \<times> u8 list \<times> 'd) option"
    and produce :: "uaccess \<Rightarrow> 'd \<Rightarrow> ubuf \<Rightarrow> nat \<Rightarrow> (nat result \<times> 'd) option"
  assumes is_empty_iff: "inv d \<Longrightarrow> is_empty d \<longleftrightarrow> msgs d = []"
    and is_full_iff: "inv d \<Longrightarrow> is_full d \<longleftrightarrow> length (msgs d) = cap d"
    and msgs_bounded: "inv d \<Longrightarrow> length (msgs d) \<le> cap d"
    and consume_spec: "inv d \<Longrightarrow> uaccess_ok u \<Longrightarrow> msgs d = m # ms \<Longrightarrow>
      \<exists>r out d'. consume u d n = Some (r, out, d') \<and> inv d' \<and> cap d' = cap d \<and>
        bsize d' = bsize d \<and>
        (r = Inl EFAULT \<and> msgs d' = msgs d \<or>
         r = Inr (min n (length m)) \<and> out = take n m \<and> msgs d' = ms)"
    and produce_spec: "inv d \<Longrightarrow> uaccess_ok u \<Longrightarrow> length (msgs d) < cap d \<Longrightarrow> n \<le> bsize d \<Longrightarrow>
      \<exists>r d'. produce u d ub n = Some (r, d') \<and> inv d' \<and> cap d' = cap d \<and> bsize d' = bsize d \<and>
        (r = Inl EFAULT \<and> msgs d' = msgs d \<or>
         r = Inr n \<and> msgs d' = msgs d @ [ubytes ub n])"
begin

text \<open>The check-then-act of a non-blocking call follows the contract of the device.\<close>

lemma read_refines:
  assumes "inv d" "uaccess_ok u"
  shows "is_empty d \<Longrightarrow> spec_step (cap d) (bsize d) (msgs d) (Read n) (Failed EAGAIN) (msgs d)"
    and "\<not> is_empty d \<Longrightarrow> \<exists>r out d'. consume u d n = Some (r, out, d') \<and> inv d' \<and>
      cap d' = cap d \<and> bsize d' = bsize d \<and>
      spec_step (cap d) (bsize d) (msgs d) (Read n)
        (case r of Inl e \<Rightarrow> Failed e | Inr k \<Rightarrow> Done k out) (msgs d')"
proof -
  show "is_empty d \<Longrightarrow> spec_step (cap d) (bsize d) (msgs d) (Read n) (Failed EAGAIN) (msgs d)"
    using assms by (simp add: is_empty_iff read_empty)
  assume "\<not> is_empty d"
  with assms obtain m ms where q: "msgs d = m # ms"
    by (auto simp: is_empty_iff neq_Nil_conv)
  with consume_spec [OF assms this, of n] show "\<exists>r out d'. consume u d n = Some (r, out, d') \<and>
      inv d' \<and> cap d' = cap d \<and> bsize d' = bsize d \<and>
      spec_step (cap d) (bsize d) (msgs d) (Read n)
        (case r of Inl e \<Rightarrow> Failed e | Inr k \<Rightarrow> Done k out) (msgs d')"
    by (auto intro: read_msg read_fault)
qed

lemma write_refines:
  assumes "inv d" "uaccess_ok u"
  shows "is_full d \<Longrightarrow> spec_step (cap d) (bsize d) (msgs d) (Write ub n) (Failed EAGAIN) (msgs d)"
    and "\<not> is_full d \<Longrightarrow> \<exists>r d'. produce u d ub (min n (bsize d)) = Some (r, d') \<and> inv d' \<and>
      cap d' = cap d \<and> bsize d' = bsize d \<and>
      spec_step (cap d) (bsize d) (msgs d) (Write ub n)
        (case r of Inl e \<Rightarrow> Failed e | Inr k \<Rightarrow> Done k []) (msgs d')"
proof -
  show "is_full d \<Longrightarrow> spec_step (cap d) (bsize d) (msgs d) (Write ub n) (Failed EAGAIN) (msgs d)"
    using assms by (simp add: is_full_iff write_full)
  assume "\<not> is_full d"
  with assms have "length (msgs d) < cap d"
    using is_full_iff msgs_bounded by (simp add: order_less_le)
  with produce_spec [OF assms this, of "min n (bsize d)" ub]
  show "\<exists>r d'. produce u d ub (min n (bsize d)) = Some (r, d') \<and> inv d' \<and>
      cap d' = cap d \<and> bsize d' = bsize d \<and>
      spec_step (cap d) (bsize d) (msgs d) (Write ub n)
        (case r of Inl e \<Rightarrow> Failed e | Inr k \<Rightarrow> Done k []) (msgs d')"
    by (auto intro: write_msg write_fault)
qed

end

end
