(* ===== verification/Kbuf_Ring.thy ===== *)
theory Kbuf_Ring
  imports Kbuf_Dev Kbuf_Queue
begin

text \<open>
  The blocking slot ring of src/kbuf_ring.c: the empty and full tests and the consume and produce
  steps that run under \<open>dev->lock\<close>, with their invariant and the queue of messages the
  slot array stands for. An access outside the bounds of an array or a heap buffer is undefined
  in C; the operations return \<open>None\<close> there, so memory safety is that they do not.
  The ring implements the interface \<open>slot_ring\<close>.
\<close>

section \<open>The blocking ring\<close>

definition kbuf_ring_is_empty :: "kbuf_dev \<Rightarrow> bool" where
  "kbuf_ring_is_empty d \<longleftrightarrow> ring_count d = 0"

definition kbuf_ring_is_full :: "kbuf_dev \<Rightarrow> bool" where
  "kbuf_ring_is_full d \<longleftrightarrow> ring_count d = num_buffers d"

definition kbuf_ring_consume ::
    "uaccess \<Rightarrow> kbuf_dev \<Rightarrow> nat \<Rightarrow> (nat result \<times> u8 list \<times> kbuf_dev) option" where
  "kbuf_ring_consume u d cnt =
     (if \<not> unat (read_pos d) < length (slots d) then None
      else let slot = slots d ! unat (read_pos d); n = min cnt (len slot) in
        if length (bytes slot) < n then None
        else let (out, left) = copy_to_user u (take n (bytes slot)) in
          if left \<noteq> 0 then Some (Inl EFAULT, out, d)
          else Some (Inr n, out, d\<lparr>
            read_pos := (read_pos d + 1) mod num_buffers d,
            ring_count := ring_count d - 1,
            bytes_consumed := bytes_consumed d + of_nat n,
            msgs_consumed := msgs_consumed d + 1\<rparr>))"

definition kbuf_ring_produce ::
    "uaccess \<Rightarrow> kbuf_dev \<Rightarrow> ubuf \<Rightarrow> nat \<Rightarrow> (nat result \<times> kbuf_dev) option" where
  "kbuf_ring_produce u d ub cnt =
     (if \<not> unat (write_pos d) < length (slots d) then None
      else let slot = slots d ! unat (write_pos d) in
        if length (bytes slot) < cnt then None
        else let (new, left) = copy_from_user u (bytes slot) (ubytes ub cnt) in
          if left \<noteq> 0
          then Some (Inl EFAULT, d\<lparr>slots := (slots d)[unat (write_pos d) := slot\<lparr>bytes := new\<rparr>]\<rparr>)
          else Some (Inr cnt, d\<lparr>
            slots := (slots d)[unat (write_pos d) := slot\<lparr>bytes := new, len := cnt\<rparr>],
            write_pos := (write_pos d + 1) mod num_buffers d,
            ring_count := ring_count d + 1,
            peak_count := (if peak_count d < ring_count d + 1 then ring_count d + 1
                           else peak_count d),
            bytes_produced := bytes_produced d + of_nat cnt,
            msgs_produced := msgs_produced d + 1\<rparr>))"

section \<open>Invariant and abstraction\<close>

text \<open>The geometry: within the bounds of \<open>KBUF_IOCRESIZE\<close> and matching the allocation.\<close>

definition geom_ok :: "kbuf_dev \<Rightarrow> bool" where
  "geom_ok d \<longleftrightarrow> 1 \<le> unat (num_buffers d) \<and> unat (num_buffers d) \<le> 256 \<and>
     1 \<le> unat (buffer_size d) \<and> unat (buffer_size d) \<le> 65536 \<and>
     slots_ok (unat (num_buffers d)) (unat (buffer_size d)) (slots d)"

definition ring_ok :: "kbuf_dev \<Rightarrow> bool" where
  "ring_ok d \<longleftrightarrow> geom_ok d \<and>
     unat (read_pos d) < unat (num_buffers d) \<and>
     unat (ring_count d) \<le> unat (num_buffers d) \<and>
     unat (write_pos d) = (unat (read_pos d) + unat (ring_count d)) mod unat (num_buffers d) \<and>
     ring_count d \<le> peak_count d \<and> unat (peak_count d) \<le> unat (num_buffers d)"

definition msg :: "kbuf_slot \<Rightarrow> u8 list" where
  "msg s = take (len s) (bytes s)"

definition ring_msgs :: "kbuf_dev \<Rightarrow> u8 list list" where
  "ring_msgs d = map msg (window (slots d) (unat (read_pos d)) (unat (ring_count d)))"

lemma length_ring_msgs [simp]: "length (ring_msgs d) = unat (ring_count d)"
  by (simp add: ring_msgs_def)

lemma slots_ok_nth:
  "slots_ok n sz ss \<Longrightarrow> i < n \<Longrightarrow>
   data (ss ! i) \<noteq> 0 \<and> length (bytes (ss ! i)) = sz \<and> len (ss ! i) \<le> sz"
  by (simp add: slots_ok_def)

lemma slots_ok_update:
  "slots_ok n sz ss \<Longrightarrow> data s \<noteq> 0 \<Longrightarrow> length (bytes s) = sz \<Longrightarrow> len s \<le> sz \<Longrightarrow>
   slots_ok n sz (ss[i := s])"
  by (auto simp: slots_ok_def dest!: set_update_subset_insert [THEN subsetD])

lemma geom_ok_update:
  assumes "geom_ok d" "slots_ok (unat (num_buffers d)) (unat (buffer_size d)) ss"
    "num_buffers d' = num_buffers d" "buffer_size d' = buffer_size d" "slots d' = ss"
  shows "geom_ok d'"
  using assms by (simp add: geom_ok_def)

lemma length_slots: "geom_ok d \<Longrightarrow> length (slots d) = unat (num_buffers d)"
  by (simp add: geom_ok_def slots_ok_def)

text \<open>The slot at \<open>read_pos\<close> holds the oldest message.\<close>

lemma ring_oldest:
  assumes inv: "ring_ok d" and q: "ring_msgs d = m # ms"
  defines "slot \<equiv> slots d ! unat (read_pos d)"
  shows "unat (read_pos d) < length (slots d)" "length (bytes slot) = unat (buffer_size d)"
    "len slot \<le> unat (buffer_size d)" "len slot = length m" "m = msg slot" "ring_count d \<noteq> 0"
    "ms = map msg (window (slots d) (Suc (unat (read_pos d))) (unat (ring_count d) - 1))"
proof -
  from inv have g: "geom_ok d" and i: "unat (read_pos d) < unat (num_buffers d)"
    by (auto simp: ring_ok_def)
  then show 1: "unat (read_pos d) < length (slots d)" by (simp add: length_slots)
  show 2: "length (bytes slot) = unat (buffer_size d)" "len slot \<le> unat (buffer_size d)"
    unfolding slot_def using g i slots_ok_nth by (auto simp: geom_ok_def)
  have c: "unat (ring_count d) \<noteq> 0" using q by (metis length_ring_msgs length_0_conv list.discI)
  then have "window (slots d) (unat (read_pos d)) (unat (ring_count d))
      = slot # window (slots d) (Suc (unat (read_pos d))) (unat (ring_count d) - 1)"
    using 1 by (cases "unat (ring_count d)") (simp_all add: window_Suc slot_def)
  with q show 3: "m = msg slot"
    "ms = map msg (window (slots d) (Suc (unat (read_pos d))) (unat (ring_count d) - 1))"
    by (simp_all add: ring_msgs_def)
  show "len slot = length m" using 2 by (simp add: 3 msg_def)
  show "ring_count d \<noteq> 0" using c by auto
qed

text \<open>Advancing \<open>read_pos\<close> and decrementing the count drops the oldest message.\<close>

lemma ring_advance:
  assumes inv: "ring_ok d" and c: "ring_count d \<noteq> 0"
    and d': "d' = d\<lparr>read_pos := (read_pos d + 1) mod num_buffers d,
      ring_count := ring_count d - 1, bytes_consumed := x, msgs_consumed := y\<rparr>"
  shows "ring_ok d'"
    "ring_msgs d' = map msg (window (slots d) (Suc (unat (read_pos d))) (unat (ring_count d) - 1))"
proof -
  let ?i = "unat (read_pos d)" and ?n = "unat (num_buffers d)"
  from inv have g: "geom_ok d" and i: "?i < ?n" by (auto simp: ring_ok_def)
  have rp: "unat ((read_pos d + 1) mod num_buffers d) = Suc ?i mod ?n"
    using i by (rule unat_succ_mod)
  have rc: "unat (ring_count d - 1) = unat (ring_count d) - 1"
    using c by (rule unat_minus_one)
  have "(Suc ?i mod ?n + (unat (ring_count d) - 1)) mod ?n = (?i + unat (ring_count d)) mod ?n"
    using c by (intro mod_Suc_add_pred) (simp add: unat_gt_0)
  then show "ring_ok d'"
    using inv rp rc i by (auto simp: ring_ok_def geom_ok_def word_le_nat_alt d')
  show "ring_msgs d' = map msg (window (slots d) (Suc ?i) (unat (ring_count d) - 1))"
    using rp rc length_slots [OF g] window_start_mod [of "slots d" "Suc ?i"]
    by (simp add: ring_msgs_def d')
qed

text \<open>
  Consuming from a ring that is not empty: no access is out of bounds; the oldest message is
  delivered, cut to the reader's size, and leaves the ring whole; a faulting copy changes nothing.
\<close>

lemma ring_consume_spec:
  assumes inv: "ring_ok d" and u: "uaccess_ok u" and q: "ring_msgs d = m # ms"
  shows "\<exists>r out d'. kbuf_ring_consume u d n = Some (r, out, d') \<and> ring_ok d' \<and>
    slots d' = slots d \<and> num_buffers d' = num_buffers d \<and> buffer_size d' = buffer_size d \<and>
    mode d' = mode d \<and>
    (if snd (copy_to_user u (take n m)) \<noteq> 0 then r = Inl EFAULT \<and> d' = d
     else r = Inr (min n (length m)) \<and> out = take n m \<and> ring_msgs d' = ms)"
proof -
  note old = ring_oldest [OF inv q] and adv = ring_advance [OF inv ring_oldest(6) [OF inv q] refl]
  have tk: "take (min n (length m)) (bytes (slots d ! unat (read_pos d))) = take n m"
    using old by (metis msg_def take_take)
  obtain out left where cp: "copy_to_user u (take n m) = (out, left)" by fastforce
  have "kbuf_ring_consume u d n =
      Some (if left \<noteq> 0 then (Inl EFAULT, out, d)
        else (Inr (min n (length m)), out, d\<lparr>read_pos := (read_pos d + 1) mod num_buffers d,
          ring_count := ring_count d - 1,
          bytes_consumed := bytes_consumed d + of_nat (min n (length m)),
          msgs_consumed := msgs_consumed d + 1\<rparr>))"
    using old(1-4) by (simp add: kbuf_ring_consume_def Let_def tk cp)
  then show ?thesis
    using inv adv old(7) cp copy_to_user_ok [OF u] by auto
qed

text \<open>The slot at \<open>write_pos\<close> is free, and its buffer holds a whole slot.\<close>

lemma ring_free_slot:
  assumes inv: "ring_ok d"
  defines "slot \<equiv> slots d ! unat (write_pos d)"
  shows "unat (write_pos d) < length (slots d)" "data slot \<noteq> 0"
    "length (bytes slot) = unat (buffer_size d)" "len slot \<le> unat (buffer_size d)"
    "unat (write_pos d) = (unat (read_pos d) + unat (ring_count d)) mod length (slots d)"
proof -
  from inv have g: "geom_ok d" and w: "unat (write_pos d) =
      (unat (read_pos d) + unat (ring_count d)) mod unat (num_buffers d)"
    by (auto simp: ring_ok_def)
  have wn: "unat (write_pos d) < unat (num_buffers d)" using w g by (simp add: geom_ok_def)
  then show "unat (write_pos d) < length (slots d)" "data slot \<noteq> 0"
    "length (bytes slot) = unat (buffer_size d)" "len slot \<le> unat (buffer_size d)"
    unfolding slot_def using g slots_ok_nth by (auto simp: geom_ok_def length_slots [OF g])
  show "unat (write_pos d) = (unat (read_pos d) + unat (ring_count d)) mod length (slots d)"
    using w by (simp add: length_slots [OF g])
qed

text \<open>A failed copy may leave anything in the free slot: the queue does not see it.\<close>

lemma ring_scribble:
  assumes inv: "ring_ok d" and room: "unat (ring_count d) < unat (num_buffers d)"
    and s: "data s \<noteq> 0" "length (bytes s) = unat (buffer_size d)" "len s \<le> unat (buffer_size d)"
    and d': "d' = d\<lparr>slots := (slots d)[unat (write_pos d) := s]\<rparr>"
  shows "ring_ok d'" "ring_msgs d' = ring_msgs d"
proof -
  have g: "geom_ok d" using inv by (simp add: ring_ok_def)
  then show "ring_ok d'"
    using inv s by (auto simp: ring_ok_def geom_ok_def d' intro: slots_ok_update)
  show "ring_msgs d' = ring_msgs d"
    using window_update_outside [of "unat (ring_count d)" "slots d" "unat (read_pos d)" s] room
      ring_free_slot(5) [OF inv] length_slots [OF g] by (simp add: ring_msgs_def d')
qed

text \<open>Filling the free slot and advancing \<open>write_pos\<close> appends a message.\<close>

lemma ring_append:
  assumes inv: "ring_ok d" and room: "unat (ring_count d) < unat (num_buffers d)"
    and s: "data s \<noteq> 0" "length (bytes s) = unat (buffer_size d)" "len s \<le> unat (buffer_size d)"
    and d': "d' = d\<lparr>slots := (slots d)[unat (write_pos d) := s],
      write_pos := (write_pos d + 1) mod num_buffers d, ring_count := ring_count d + 1,
      peak_count := (if peak_count d < ring_count d + 1 then ring_count d + 1 else peak_count d),
      bytes_produced := x, msgs_produced := y\<rparr>"
  shows "ring_ok d'" "ring_msgs d' = ring_msgs d @ [msg s]"
proof -
  let ?n = "unat (num_buffers d)" and ?c = "unat (ring_count d)"
  have g: "geom_ok d" using inv by (simp add: ring_ok_def)
  note ln = length_slots [OF g] and w = ring_free_slot(1,5) [OF inv]
  have rc: "unat (ring_count d + 1) = Suc ?c" using room by (rule unat_succ)
  have wp: "unat ((write_pos d + 1) mod num_buffers d) = (unat (read_pos d) + Suc ?c) mod ?n"
    using unat_succ_mod [of "write_pos d" "num_buffers d"] w ln by (simp add: mod_Suc_eq)
  have upd: "slots_ok ?n (unat (buffer_size d)) ((slots d)[unat (write_pos d) := s])"
    using g s by (auto simp: geom_ok_def intro: slots_ok_update)
  show "ring_ok d'"
    using inv upd room rc wp
    by (auto simp: ring_ok_def geom_ok_def word_le_nat_alt word_less_nat_alt not_less d')
  show "ring_msgs d' = ring_msgs d @ [msg s]"
    using window_update_snoc [of ?c "slots d" "unat (read_pos d)" s] room ln w rc
    by (simp add: ring_msgs_def d')
qed

text \<open>
  Producing into a ring that is not full, with the count clamped to the slot size: no access is
  out of bounds and the message is appended; a faulting copy leaves the queue as it was.
\<close>

lemma ring_produce_spec:
  assumes inv: "ring_ok d" and u: "uaccess_ok u"
    and room: "length (ring_msgs d) < unat (num_buffers d)" and n: "n \<le> unat (buffer_size d)"
  shows "\<exists>r d'. kbuf_ring_produce u d ub n = Some (r, d') \<and> ring_ok d' \<and>
    num_buffers d' = num_buffers d \<and> buffer_size d' = buffer_size d \<and> mode d' = mode d \<and>
    (r = Inl EFAULT \<and> ring_msgs d' = ring_msgs d \<or>
     r = Inr n \<and> ring_msgs d' = ring_msgs d @ [ubytes ub n])"
proof -
  let ?slot = "slots d ! unat (write_pos d)"
  note fs = ring_free_slot [OF inv]
  from room have c: "unat (ring_count d) < unat (num_buffers d)" by simp
  obtain new left where cp: "copy_from_user u (bytes ?slot) (ubytes ub n) = (new, left)"
    by fastforce
  have new: "length new = unat (buffer_size d)"
      "left = 0 \<Longrightarrow> new = ubytes ub n @ drop n (bytes ?slot)"
    using copy_from_user_ok [OF u _ cp] n fs by simp_all
  show ?thesis
  proof (cases "left = 0")
    case False
    then show ?thesis
      using fs n cp ring_scribble [OF inv c _ _ _ refl, of "?slot\<lparr>bytes := new\<rparr>"] new(1)
      by (simp add: kbuf_ring_produce_def Let_def)
  next
    case True
    then have "msg (?slot\<lparr>bytes := new, len := n\<rparr>) = ubytes ub n"
      using new(2) by (simp add: msg_def)
    then show ?thesis
      using True fs n cp ring_append [OF inv c _ _ _ refl, of "?slot\<lparr>bytes := new, len := n\<rparr>"]
        new(1)
      by (simp add: kbuf_ring_produce_def Let_def)
  qed
qed

lemma ring_is_empty_iff: "kbuf_ring_is_empty d \<longleftrightarrow> ring_msgs d = []"
  by (simp add: kbuf_ring_is_empty_def ring_msgs_def unat_eq_0)

lemma ring_is_full_iff: "kbuf_ring_is_full d \<longleftrightarrow> length (ring_msgs d) = unat (num_buffers d)"
  by (simp add: kbuf_ring_is_full_def word_unat_eq_iff)

interpretation blocking: slot_ring ring_ok ring_msgs "\<lambda>d. unat (num_buffers d)"
  "\<lambda>d. unat (buffer_size d)" kbuf_ring_is_empty kbuf_ring_is_full
  kbuf_ring_consume kbuf_ring_produce
proof unfold_locales
  fix d u m ms n
  assume "ring_ok d" "uaccess_ok u" "ring_msgs d = m # ms"
  from ring_consume_spec [OF this, of n]
  show "\<exists>r out d'. kbuf_ring_consume u d n = Some (r, out, d') \<and> ring_ok d' \<and>
      unat (num_buffers d') = unat (num_buffers d) \<and>
      unat (buffer_size d') = unat (buffer_size d) \<and>
      (r = Inl EFAULT \<and> ring_msgs d' = ring_msgs d \<or>
       r = Inr (min n (length m)) \<and> out = take n m \<and> ring_msgs d' = ms)"
    by (auto split: if_splits)
next
  fix d u n ub
  assume "ring_ok d" "uaccess_ok u" "length (ring_msgs d) < unat (num_buffers d)"
    "n \<le> unat (buffer_size d)"
  from ring_produce_spec [OF this, of ub]
  show "\<exists>r d'. kbuf_ring_produce u d ub n = Some (r, d') \<and> ring_ok d' \<and>
      unat (num_buffers d') = unat (num_buffers d) \<and>
      unat (buffer_size d') = unat (buffer_size d) \<and>
      (r = Inl EFAULT \<and> ring_msgs d' = ring_msgs d \<or>
       r = Inr n \<and> ring_msgs d' = ring_msgs d @ [ubytes ub n])"
    by auto
qed (auto simp: ring_is_empty_iff ring_is_full_iff ring_ok_def)

end
