(* ===== verification/Kbuf_Spsc.thy ===== *)
theory Kbuf_Spsc
  imports Kbuf_Ring
begin

text \<open>
  The lock-free slot ring of src/kbuf_ring.c: free-running 32-bit indices, masked by
  \<open>num_buffers - 1\<close>. Here the operations are sequential, as one thread runs them; the
  interleaving of a producer and a consumer is a theory of its own. The ring implements the same
  interface \<open>slot_ring\<close> as the blocking one, across the wrap-around of the indices.
\<close>

section \<open>Operations\<close>

definition kbuf_spsc_is_empty :: "kbuf_dev \<Rightarrow> bool" where
  "kbuf_spsc_is_empty d \<longleftrightarrow> prod_idx d = cons_idx d"

definition kbuf_spsc_is_full :: "kbuf_dev \<Rightarrow> bool" where
  "kbuf_spsc_is_full d \<longleftrightarrow> prod_idx d - cons_idx d \<ge> num_buffers d"

definition kbuf_spsc_consume ::
    "uaccess \<Rightarrow> kbuf_dev \<Rightarrow> nat \<Rightarrow> (nat result \<times> u8 list \<times> kbuf_dev) option" where
  "kbuf_spsc_consume u d cnt =
     (let cons = cons_idx d; i = unat (cons AND (num_buffers d - 1)) in
      if \<not> i < length (slots d) then None
      else let slot = slots d ! i; n = min cnt (len slot) in
        if length (bytes slot) < n then None
        else let (out, left) = copy_to_user u (take n (bytes slot)) in
          if left \<noteq> 0 then Some (Inl EFAULT, out, d)
          else Some (Inr n, out, d\<lparr>
            cons_idx := cons + 1,
            bytes_consumed := bytes_consumed d + of_nat n,
            msgs_consumed := msgs_consumed d + 1\<rparr>))"

definition kbuf_spsc_produce ::
    "uaccess \<Rightarrow> kbuf_dev \<Rightarrow> ubuf \<Rightarrow> nat \<Rightarrow> (nat result \<times> kbuf_dev) option" where
  "kbuf_spsc_produce u d ub cnt =
     (let prod = prod_idx d; i = unat (prod AND (num_buffers d - 1)) in
      if \<not> i < length (slots d) then None
      else let slot = slots d ! i in
        if length (bytes slot) < cnt then None
        else let (new, left) = copy_from_user u (bytes slot) (ubytes ub cnt) in
          if left \<noteq> 0
          then Some (Inl EFAULT, d\<lparr>slots := (slots d)[i := slot\<lparr>bytes := new\<rparr>]\<rparr>)
          else let occ = prod + 1 - cons_idx d in
            Some (Inr cnt, d\<lparr>
              slots := (slots d)[i := slot\<lparr>bytes := new, len := cnt\<rparr>],
              prod_idx := prod + 1,
              bytes_produced := bytes_produced d + of_nat cnt,
              msgs_produced := msgs_produced d + 1,
              peak_count := (if peak_count d < occ then occ else peak_count d)\<rparr>))"

definition kbuf_occupancy :: "kbuf_dev \<Rightarrow> u32" where
  "kbuf_occupancy d =
     (if mode d = KBUF_MODE_SPSC then prod_idx d - cons_idx d else ring_count d)"

section \<open>Invariant and abstraction\<close>

definition spsc_ok :: "kbuf_dev \<Rightarrow> bool" where
  "spsc_ok d \<longleftrightarrow> geom_ok d \<and> is_power_of_2 (num_buffers d) \<and>
     unat (prod_idx d - cons_idx d) \<le> unat (num_buffers d) \<and>
     unat (peak_count d) \<le> unat (num_buffers d)"

definition spsc_msgs :: "kbuf_dev \<Rightarrow> u8 list list" where
  "spsc_msgs d = map msg (window (slots d) (unat (cons_idx d)) (unat (prod_idx d - cons_idx d)))"

lemma length_spsc_msgs [simp]: "length (spsc_msgs d) = unat (prod_idx d - cons_idx d)"
  by (simp add: spsc_msgs_def)

text \<open>The masked index is the free-running index modulo the length of the slot array.\<close>

lemma spsc_index:
  assumes "spsc_ok d"
  shows "unat (x AND (num_buffers d - 1)) = unat x mod length (slots d)"
    "unat (x AND (num_buffers d - 1)) < length (slots d)"
proof -
  from assms have g: "geom_ok d" and p: "is_power_of_2 (num_buffers d)" by (auto simp: spsc_ok_def)
  show "unat (x AND (num_buffers d - 1)) = unat x mod length (slots d)"
    using unat_and_pred [OF p] length_slots [OF g] by simp
  then show "unat (x AND (num_buffers d - 1)) < length (slots d)"
    using g length_slots [OF g] by (simp add: geom_ok_def)
qed

text \<open>
  The producer's index reduces to the slot just past the window, even when it has wrapped and the
  consumer's has not.
\<close>

lemma spsc_prod_slot:
  assumes "spsc_ok d"
  shows "unat (prod_idx d) mod length (slots d) =
    (unat (cons_idx d) + unat (prod_idx d - cons_idx d)) mod length (slots d)"
proof -
  from assms have g: "geom_ok d" and p: "is_power_of_2 (num_buffers d)" by (auto simp: spsc_ok_def)
  have "prod_idx d = cons_idx d + (prod_idx d - cons_idx d)" by simp
  then show ?thesis
    using unat_add_mod_pow2 [OF p, of "cons_idx d" "prod_idx d - cons_idx d"] length_slots [OF g]
    by simp
qed

lemma spsc_window_next:
  assumes "spsc_ok d"
  shows "window (slots d) (unat (cons_idx d + 1)) k = window (slots d) (Suc (unat (cons_idx d))) k"
proof -
  from assms have g: "geom_ok d" and p: "is_power_of_2 (num_buffers d)" by (auto simp: spsc_ok_def)
  have "unat (cons_idx d + 1) mod length (slots d) = Suc (unat (cons_idx d)) mod length (slots d)"
    using unat_add_1_mod_pow2 [OF p] length_slots [OF g] by simp
  then show ?thesis by (metis window_start_mod)
qed

lemma spsc_oldest:
  assumes inv: "spsc_ok d" and q: "spsc_msgs d = m # ms"
  defines "slot \<equiv> slots d ! unat (cons_idx d AND (num_buffers d - 1))"
  shows "length (bytes slot) = unat (buffer_size d)" "len slot \<le> unat (buffer_size d)"
    "len slot = length m" "m = msg slot" "prod_idx d \<noteq> cons_idx d"
    "ms = map msg (window (slots d) (Suc (unat (cons_idx d))) (unat (prod_idx d - cons_idx d) - 1))"
proof -
  from inv have g: "geom_ok d" by (simp add: spsc_ok_def)
  show 2: "length (bytes slot) = unat (buffer_size d)" "len slot \<le> unat (buffer_size d)"
    unfolding slot_def using g slots_ok_nth spsc_index(2) [OF inv] length_slots [OF g]
    by (auto simp: geom_ok_def)
  have c: "unat (prod_idx d - cons_idx d) \<noteq> 0"
    using q by (metis length_spsc_msgs length_0_conv list.discI)
  then have "window (slots d) (unat (cons_idx d)) (unat (prod_idx d - cons_idx d)) =
      slot # window (slots d) (Suc (unat (cons_idx d))) (unat (prod_idx d - cons_idx d) - 1)"
    using spsc_index(1) [OF inv]
    by (cases "unat (prod_idx d - cons_idx d)") (simp_all add: window_Suc slot_def)
  with q show 3: "m = msg slot" "ms = map msg
      (window (slots d) (Suc (unat (cons_idx d))) (unat (prod_idx d - cons_idx d) - 1))"
    by (simp_all add: spsc_msgs_def)
  show "len slot = length m" using 2 by (simp add: 3 msg_def)
  show "prod_idx d \<noteq> cons_idx d" using c by auto
qed

lemma spsc_advance:
  assumes inv: "spsc_ok d" and ne: "prod_idx d \<noteq> cons_idx d"
    and d': "d' = d\<lparr>cons_idx := cons_idx d + 1, bytes_consumed := x, msgs_consumed := y\<rparr>"
  shows "spsc_ok d'" "spsc_msgs d' = map msg
    (window (slots d) (Suc (unat (cons_idx d))) (unat (prod_idx d - cons_idx d) - 1))"
proof -
  note occ = unat_diff_pred [OF ne]
  show "spsc_ok d'" using inv occ by (auto simp: spsc_ok_def geom_ok_def d')
  show "spsc_msgs d' = map msg
      (window (slots d) (Suc (unat (cons_idx d))) (unat (prod_idx d - cons_idx d) - 1))"
    using occ spsc_window_next [OF inv] by (simp add: spsc_msgs_def d')
qed

lemma spsc_consume_spec:
  assumes inv: "spsc_ok d" and u: "uaccess_ok u" and q: "spsc_msgs d = m # ms"
  shows "\<exists>r out d'. kbuf_spsc_consume u d n = Some (r, out, d') \<and> spsc_ok d' \<and>
    slots d' = slots d \<and> num_buffers d' = num_buffers d \<and> buffer_size d' = buffer_size d \<and>
    mode d' = mode d \<and> ring_count d' = ring_count d \<and>
    (if snd (copy_to_user u (take n m)) \<noteq> 0 then r = Inl EFAULT \<and> d' = d
     else r = Inr (min n (length m)) \<and> out = take n m \<and> spsc_msgs d' = ms)"
proof -
  let ?slot = "slots d ! unat (cons_idx d AND (num_buffers d - 1))"
  note old = spsc_oldest [OF inv q] and adv = spsc_advance [OF inv spsc_oldest(5) [OF inv q] refl]
  have tk: "take (min n (length m)) (bytes ?slot) = take n m"
    using old by (metis msg_def take_take)
  obtain out left where cp: "copy_to_user u (take n m) = (out, left)" by fastforce
  have "kbuf_spsc_consume u d n =
      Some (if left \<noteq> 0 then (Inl EFAULT, out, d)
        else (Inr (min n (length m)), out, d\<lparr>cons_idx := cons_idx d + 1,
          bytes_consumed := bytes_consumed d + of_nat (min n (length m)),
          msgs_consumed := msgs_consumed d + 1\<rparr>))"
    using old(1-3) spsc_index(2) [OF inv] by (simp add: kbuf_spsc_consume_def Let_def tk cp)
  then show ?thesis
    using inv adv old(6) cp copy_to_user_ok [OF u] by auto
qed

lemma spsc_scribble:
  assumes inv: "spsc_ok d" and room: "unat (prod_idx d - cons_idx d) < unat (num_buffers d)"
    and s: "data s \<noteq> 0" "length (bytes s) = unat (buffer_size d)" "len s \<le> unat (buffer_size d)"
    and d': "d' = d\<lparr>slots := (slots d)[unat (prod_idx d AND (num_buffers d - 1)) := s]\<rparr>"
  shows "spsc_ok d'" "spsc_msgs d' = spsc_msgs d"
proof -
  have g: "geom_ok d" using inv by (simp add: spsc_ok_def)
  then show "spsc_ok d'"
    using inv s by (auto simp: spsc_ok_def geom_ok_def d' intro: slots_ok_update)
  show "spsc_msgs d' = spsc_msgs d"
    using window_update_outside [of "unat (prod_idx d - cons_idx d)" "slots d" "unat (cons_idx d)" s]
      room spsc_prod_slot [OF inv] spsc_index(1) [OF inv] length_slots [OF g]
    by (simp add: spsc_msgs_def d')
qed

lemma spsc_append:
  assumes inv: "spsc_ok d" and room: "unat (prod_idx d - cons_idx d) < unat (num_buffers d)"
    and s: "data s \<noteq> 0" "length (bytes s) = unat (buffer_size d)" "len s \<le> unat (buffer_size d)"
    and d': "d' = d\<lparr>slots := (slots d)[unat (prod_idx d AND (num_buffers d - 1)) := s],
      prod_idx := prod_idx d + 1, bytes_produced := x, msgs_produced := y,
      peak_count := (if peak_count d < prod_idx d + 1 - cons_idx d
                     then prod_idx d + 1 - cons_idx d else peak_count d)\<rparr>"
  shows "spsc_ok d'" "spsc_msgs d' = spsc_msgs d @ [msg s]"
proof -
  have g: "geom_ok d" using inv by (simp add: spsc_ok_def)
  have occ: "unat (prod_idx d + 1 - cons_idx d) = Suc (unat (prod_idx d - cons_idx d))"
    using room g by (intro unat_diff_Suc) (simp add: geom_ok_def)
  have "slots_ok (unat (num_buffers d)) (unat (buffer_size d))
      ((slots d)[unat (prod_idx d AND (num_buffers d - 1)) := s])"
    using g s by (auto simp: geom_ok_def intro: slots_ok_update)
  with inv occ room show "spsc_ok d'" by (auto simp: spsc_ok_def geom_ok_def d')
  show "spsc_msgs d' = spsc_msgs d @ [msg s]"
    using window_update_snoc [of "unat (prod_idx d - cons_idx d)" "slots d" "unat (cons_idx d)" s]
      room spsc_prod_slot [OF inv] spsc_index(1) [OF inv] length_slots [OF g] occ
    by (simp add: spsc_msgs_def d')
qed

lemma spsc_produce_spec:
  assumes inv: "spsc_ok d" and u: "uaccess_ok u"
    and room: "length (spsc_msgs d) < unat (num_buffers d)" and n: "n \<le> unat (buffer_size d)"
  shows "\<exists>r d'. kbuf_spsc_produce u d ub n = Some (r, d') \<and> spsc_ok d' \<and>
    num_buffers d' = num_buffers d \<and> buffer_size d' = buffer_size d \<and> mode d' = mode d \<and>
    ring_count d' = ring_count d \<and>
    (r = Inl EFAULT \<and> spsc_msgs d' = spsc_msgs d \<or>
     r = Inr n \<and> spsc_msgs d' = spsc_msgs d @ [ubytes ub n])"
proof -
  let ?slot = "slots d ! unat (prod_idx d AND (num_buffers d - 1))"
  have g: "geom_ok d" using inv by (simp add: spsc_ok_def)
  note ix = spsc_index(2) [OF inv, of "prod_idx d"]
  have fs: "data ?slot \<noteq> 0" "length (bytes ?slot) = unat (buffer_size d)"
      "len ?slot \<le> unat (buffer_size d)"
    using g ix slots_ok_nth length_slots [OF g] by (auto simp: geom_ok_def)
  from room have c: "unat (prod_idx d - cons_idx d) < unat (num_buffers d)" by simp
  obtain new left where cp: "copy_from_user u (bytes ?slot) (ubytes ub n) = (new, left)"
    by fastforce
  have new: "length new = unat (buffer_size d)"
      "left = 0 \<Longrightarrow> new = ubytes ub n @ drop n (bytes ?slot)"
    using copy_from_user_ok [OF u _ cp] n fs by simp_all
  show ?thesis
  proof (cases "left = 0")
    case False
    then show ?thesis
      using fs ix n cp spsc_scribble [OF inv c _ _ _ refl, of "?slot\<lparr>bytes := new\<rparr>"] new(1)
      by (simp add: kbuf_spsc_produce_def Let_def)
  next
    case True
    then have "msg (?slot\<lparr>bytes := new, len := n\<rparr>) = ubytes ub n"
      using new(2) by (simp add: msg_def)
    then show ?thesis
      using True fs ix n cp spsc_append [OF inv c _ _ _ refl, of "?slot\<lparr>bytes := new, len := n\<rparr>"]
        new(1)
      by (simp add: kbuf_spsc_produce_def Let_def)
  qed
qed

lemma spsc_is_empty_iff: "kbuf_spsc_is_empty d \<longleftrightarrow> spsc_msgs d = []"
  by (simp add: kbuf_spsc_is_empty_def spsc_msgs_def unat_eq_0)

lemma spsc_is_full_iff:
  "spsc_ok d \<Longrightarrow> kbuf_spsc_is_full d \<longleftrightarrow> length (spsc_msgs d) = unat (num_buffers d)"
  by (auto simp: kbuf_spsc_is_full_def spsc_ok_def word_le_nat_alt)

interpretation spsc: slot_ring spsc_ok spsc_msgs "\<lambda>d. unat (num_buffers d)"
  "\<lambda>d. unat (buffer_size d)" kbuf_spsc_is_empty kbuf_spsc_is_full
  kbuf_spsc_consume kbuf_spsc_produce
proof unfold_locales
  fix d u m ms n
  assume "spsc_ok d" "uaccess_ok u" "spsc_msgs d = m # ms"
  from spsc_consume_spec [OF this, of n]
  show "\<exists>r out d'. kbuf_spsc_consume u d n = Some (r, out, d') \<and> spsc_ok d' \<and>
      unat (num_buffers d') = unat (num_buffers d) \<and>
      unat (buffer_size d') = unat (buffer_size d) \<and>
      (r = Inl EFAULT \<and> spsc_msgs d' = spsc_msgs d \<or>
       r = Inr (min n (length m)) \<and> out = take n m \<and> spsc_msgs d' = ms)"
    by (auto split: if_splits)
next
  fix d u n ub
  assume "spsc_ok d" "uaccess_ok u" "length (spsc_msgs d) < unat (num_buffers d)"
    "n \<le> unat (buffer_size d)"
  from spsc_produce_spec [OF this, of ub]
  show "\<exists>r d'. kbuf_spsc_produce u d ub n = Some (r, d') \<and> spsc_ok d' \<and>
      unat (num_buffers d') = unat (num_buffers d) \<and>
      unat (buffer_size d') = unat (buffer_size d) \<and>
      (r = Inl EFAULT \<and> spsc_msgs d' = spsc_msgs d \<or>
       r = Inr n \<and> spsc_msgs d' = spsc_msgs d @ [ubytes ub n])"
    by auto
qed (auto simp: spsc_is_empty_iff spsc_is_full_iff spsc_ok_def)

end
