(* ===== verification/Kbuf_File.thy ===== *)
theory Kbuf_File
  imports Kbuf_Spsc
begin

text \<open>
  The data path of the file operations in src/kbuf_main.c: read, write and poll, in the blocking
  and in the lock-free mode. A call that finds no work sleeps, so what the other threads do to the
  device in the meantime and where signals arrive are parameters of the call. A loop that never
  finds work does not return: it is \<open>None\<close>; \<open>Some None\<close> is an access out of bounds.
\<close>

section \<open>The environment of a call\<close>

text \<open>
  \<open>lock_intr i\<close> and \<open>wait_intr i\<close> tell whether a signal interrupts the \<open>i\<close>-th
  \<open>mutex_lock_interruptible\<close> and the \<open>i\<close>-th \<open>wait_event_interruptible\<close>;
  \<open>others i\<close> is what the other threads do between the moment the call gives up the device
  to sleep for the \<open>i\<close>-th time and the moment it has it again or returns.
\<close>

record sched =
  lock_intr :: "nat \<Rightarrow> bool"
  wait_intr :: "nat \<Rightarrow> bool"
  others :: "nat \<Rightarrow> kbuf_dev \<Rightarrow> kbuf_dev"

definition calm :: sched where
  "calm = \<lparr>lock_intr = (\<lambda>_. False), wait_intr = (\<lambda>_. False), others = (\<lambda>_ d. d)\<rparr>"

datatype wq = READ_WQ | WRITE_WQ

text \<open>The outcome of a call: return value, bytes delivered, wait queues woken, the device.\<close>

type_synonym outcome = "nat result \<times> u8 list \<times> wq list \<times> kbuf_dev"

section \<open>Read\<close>

definition finish_read ::
    "(nat result \<times> u8 list \<times> kbuf_dev) option \<Rightarrow> outcome option" where
  "finish_read x = map_option (\<lambda>(r, out, d). (r, out, if isl r then [] else [WRITE_WQ], d)) x"

partial_function (option) read_blocking_loop ::
    "sched \<Rightarrow> uaccess \<Rightarrow> bool \<Rightarrow> nat \<Rightarrow> nat \<Rightarrow> kbuf_dev \<Rightarrow> outcome option option" where
  "read_blocking_loop s u nonblock cnt i d =
     (if kbuf_ring_is_empty d then
        if nonblock then Some (Some (Inl EAGAIN, [], [], d))
        else let d = others s i (d\<lparr>read_sleeps := read_sleeps d + 1\<rparr>) in
          if wait_intr s i then Some (Some (Inl ERESTARTSYS, [], [], d))
          else if lock_intr s (Suc i) then Some (Some (Inl ERESTARTSYS, [], [], d))
          else read_blocking_loop s u nonblock cnt (Suc i) d
      else Some (finish_read (kbuf_ring_consume u d cnt)))"

definition kbuf_read_blocking ::
    "sched \<Rightarrow> uaccess \<Rightarrow> bool \<Rightarrow> nat \<Rightarrow> kbuf_dev \<Rightarrow> outcome option option" where
  "kbuf_read_blocking s u nonblock cnt d =
     (if lock_intr s 0 then Some (Some (Inl ERESTARTSYS, [], [], d))
      else read_blocking_loop s u nonblock cnt 0 d)"

partial_function (option) read_spsc_loop ::
    "sched \<Rightarrow> uaccess \<Rightarrow> bool \<Rightarrow> nat \<Rightarrow> nat \<Rightarrow> kbuf_dev \<Rightarrow> outcome option option" where
  "read_spsc_loop s u nonblock cnt i d =
     (if kbuf_spsc_is_empty d then
        if nonblock then Some (Some (Inl EAGAIN, [], [], d))
        else let d = others s i (d\<lparr>read_sleeps := read_sleeps d + 1\<rparr>) in
          if wait_intr s i then Some (Some (Inl ERESTARTSYS, [], [], d))
          else read_spsc_loop s u nonblock cnt (Suc i) d
      else Some (finish_read (kbuf_spsc_consume u d cnt)))"

definition kbuf_read_spsc ::
    "sched \<Rightarrow> uaccess \<Rightarrow> bool \<Rightarrow> nat \<Rightarrow> kbuf_dev \<Rightarrow> outcome option option" where
  "kbuf_read_spsc s u nonblock cnt d = read_spsc_loop s u nonblock cnt 0 d"

definition kbuf_read ::
    "sched \<Rightarrow> uaccess \<Rightarrow> bool \<Rightarrow> nat \<Rightarrow> kbuf_dev \<Rightarrow> outcome option option" where
  "kbuf_read s u nonblock cnt d =
     (if mode d = KBUF_MODE_SPSC then kbuf_read_spsc s u nonblock cnt d
      else kbuf_read_blocking s u nonblock cnt d)"

section \<open>Write\<close>

definition finish_write :: "(nat result \<times> kbuf_dev) option \<Rightarrow> outcome option" where
  "finish_write x = map_option (\<lambda>(r, d). (r, [], if isl r then [] else [READ_WQ], d)) x"

partial_function (option) write_blocking_loop ::
    "sched \<Rightarrow> uaccess \<Rightarrow> bool \<Rightarrow> ubuf \<Rightarrow> nat \<Rightarrow> nat \<Rightarrow> kbuf_dev \<Rightarrow> outcome option option" where
  "write_blocking_loop s u nonblock ub cnt i d =
     (if kbuf_ring_is_full d then
        if nonblock then Some (Some (Inl EAGAIN, [], [], d))
        else let d = others s i (d\<lparr>write_sleeps := write_sleeps d + 1\<rparr>) in
          if wait_intr s i then Some (Some (Inl ERESTARTSYS, [], [], d))
          else if lock_intr s (Suc i) then Some (Some (Inl ERESTARTSYS, [], [], d))
          else write_blocking_loop s u nonblock ub cnt (Suc i) d
      else Some (finish_write (kbuf_ring_produce u d ub cnt)))"

text \<open>The count is clamped once, under the lock, before the loop.\<close>

definition kbuf_write_blocking ::
    "sched \<Rightarrow> uaccess \<Rightarrow> bool \<Rightarrow> ubuf \<Rightarrow> nat \<Rightarrow> kbuf_dev \<Rightarrow> outcome option option" where
  "kbuf_write_blocking s u nonblock ub cnt d =
     (if lock_intr s 0 then Some (Some (Inl ERESTARTSYS, [], [], d))
      else let cnt = (if cnt > unat (buffer_size d) then unat (buffer_size d) else cnt) in
        write_blocking_loop s u nonblock ub cnt 0 d)"

partial_function (option) write_spsc_loop ::
    "sched \<Rightarrow> uaccess \<Rightarrow> bool \<Rightarrow> ubuf \<Rightarrow> nat \<Rightarrow> nat \<Rightarrow> kbuf_dev \<Rightarrow> outcome option option" where
  "write_spsc_loop s u nonblock ub cnt i d =
     (if kbuf_spsc_is_full d then
        if nonblock then Some (Some (Inl EAGAIN, [], [], d))
        else let d = others s i (d\<lparr>write_sleeps := write_sleeps d + 1\<rparr>) in
          if wait_intr s i then Some (Some (Inl ERESTARTSYS, [], [], d))
          else write_spsc_loop s u nonblock ub cnt (Suc i) d
      else Some (finish_write (kbuf_spsc_produce u d ub cnt)))"

definition kbuf_write_spsc ::
    "sched \<Rightarrow> uaccess \<Rightarrow> bool \<Rightarrow> ubuf \<Rightarrow> nat \<Rightarrow> kbuf_dev \<Rightarrow> outcome option option" where
  "kbuf_write_spsc s u nonblock ub cnt d =
     (let cnt = (if cnt > unat (buffer_size d) then unat (buffer_size d) else cnt) in
      write_spsc_loop s u nonblock ub cnt 0 d)"

definition kbuf_write ::
    "sched \<Rightarrow> uaccess \<Rightarrow> bool \<Rightarrow> ubuf \<Rightarrow> nat \<Rightarrow> kbuf_dev \<Rightarrow> outcome option option" where
  "kbuf_write s u nonblock ub cnt d =
     (if mode d = KBUF_MODE_SPSC then kbuf_write_spsc s u nonblock ub cnt d
      else kbuf_write_blocking s u nonblock ub cnt d)"

section \<open>Poll\<close>

definition EPOLLIN :: u32 where "EPOLLIN = 0x001"
definition EPOLLOUT :: u32 where "EPOLLOUT = 0x004"
definition EPOLLRDNORM :: u32 where "EPOLLRDNORM = 0x040"
definition EPOLLWRNORM :: u32 where "EPOLLWRNORM = 0x100"

definition kbuf_poll :: "kbuf_dev \<Rightarrow> u32" where
  "kbuf_poll d =
     (if mode d = KBUF_MODE_SPSC then
        (if \<not> kbuf_spsc_is_empty d then EPOLLIN OR EPOLLRDNORM else 0) OR
        (if \<not> kbuf_spsc_is_full d then EPOLLOUT OR EPOLLWRNORM else 0)
      else
        (if \<not> kbuf_ring_is_empty d then EPOLLIN OR EPOLLRDNORM else 0) OR
        (if \<not> kbuf_ring_is_full d then EPOLLOUT OR EPOLLWRNORM else 0))"

section \<open>The invariant of a device\<close>

definition dev_ok :: "kbuf_dev \<Rightarrow> bool" where
  "dev_ok d \<longleftrightarrow>
     (if mode d = KBUF_MODE_SPSC then spsc_ok d \<and> ring_count d = 0
      else mode d = KBUF_MODE_BLOCKING \<and> ring_ok d)"

definition dev_msgs :: "kbuf_dev \<Rightarrow> u8 list list" where
  "dev_msgs d = (if mode d = KBUF_MODE_SPSC then spsc_msgs d else ring_msgs d)"

lemma dev_ok_cases:
  assumes "dev_ok d"
  obtains (blk) "mode d = KBUF_MODE_BLOCKING" "ring_ok d" "dev_msgs d = ring_msgs d"
  | (spsc) "mode d = KBUF_MODE_SPSC" "spsc_ok d" "ring_count d = 0" "dev_msgs d = spsc_msgs d"
  using assms by (auto simp: dev_ok_def dev_msgs_def split: if_splits)

lemma length_dev_msgs: "length (dev_msgs d) = unat (kbuf_occupancy d)"
  by (simp add: dev_msgs_def kbuf_occupancy_def)

section \<open>Non-blocking calls\<close>

text \<open>
  With \<open>O_NONBLOCK\<close> a call that gets the lock never sleeps: it is the empty or full test
  followed by the ring operation.
\<close>

lemma read_nonblock:
  assumes "\<not> lock_intr s 0"
  shows "kbuf_read s u True cnt d =
    Some (if mode d = KBUF_MODE_SPSC
      then if kbuf_spsc_is_empty d then Some (Inl EAGAIN, [], [], d)
           else finish_read (kbuf_spsc_consume u d cnt)
      else if kbuf_ring_is_empty d then Some (Inl EAGAIN, [], [], d)
           else finish_read (kbuf_ring_consume u d cnt))"
  using assms
  by (simp add: kbuf_read_def kbuf_read_spsc_def kbuf_read_blocking_def
      read_spsc_loop.simps read_blocking_loop.simps)

lemma write_nonblock:
  assumes "\<not> lock_intr s 0"
  shows "kbuf_write s u True ub cnt d =
    Some (if mode d = KBUF_MODE_SPSC
      then if kbuf_spsc_is_full d then Some (Inl EAGAIN, [], [], d)
           else finish_write (kbuf_spsc_produce u d ub (min cnt (unat (buffer_size d))))
      else if kbuf_ring_is_full d then Some (Inl EAGAIN, [], [], d)
           else finish_write (kbuf_ring_produce u d ub (min cnt (unat (buffer_size d)))))"
  using assms
  by (simp add: kbuf_write_def kbuf_write_spsc_def kbuf_write_blocking_def
      write_spsc_loop.simps write_blocking_loop.simps Let_def min_def)

text \<open>One system call of a process that opened the device with \<open>O_NONBLOCK\<close>.\<close>

definition reply_of :: "outcome \<Rightarrow> reply \<times> kbuf_dev" where
  "reply_of x = (case x of (r, out, w, d) \<Rightarrow>
     ((case r of Inl e \<Rightarrow> Failed e | Inr k \<Rightarrow> Done k out), d))"

fun syscall :: "kbuf_dev \<Rightarrow> uaccess \<Rightarrow> call \<Rightarrow> (reply \<times> kbuf_dev) option" where
  "syscall d u (Read n) = Option.bind (kbuf_read calm u True n d) (map_option reply_of)"
| "syscall d u (Write ub n) = Option.bind (kbuf_write calm u True ub n d) (map_option reply_of)"

lemma calm_simps [simp]: "\<not> lock_intr calm i" "\<not> wait_intr calm i" "others calm i d = d"
  by (simp_all add: calm_def)

text \<open>The ring operations leave the mode and, in the lock-free mode, the count alone.\<close>

lemma ring_consume_frame:
  "kbuf_ring_consume u d n = Some (r, out, d') \<Longrightarrow> mode d' = mode d"
  by (auto simp: kbuf_ring_consume_def Let_def split: if_splits prod.splits)

lemma ring_produce_frame: "kbuf_ring_produce u d ub n = Some (r, d') \<Longrightarrow> mode d' = mode d"
  by (auto simp: kbuf_ring_produce_def Let_def split: if_splits prod.splits)

lemma spsc_consume_frame:
  "kbuf_spsc_consume u d n = Some (r, out, d') \<Longrightarrow>
   mode d' = mode d \<and> ring_count d' = ring_count d"
  by (auto simp: kbuf_spsc_consume_def Let_def split: if_splits prod.splits)

lemma spsc_produce_frame:
  "kbuf_spsc_produce u d ub n = Some (r, d') \<Longrightarrow>
   mode d' = mode d \<and> ring_count d' = ring_count d"
  by (auto simp: kbuf_spsc_produce_def Let_def split: if_splits prod.splits)

lemma dev_blk:
  assumes "mode d = KBUF_MODE_BLOCKING"
  shows "dev_ok d \<longleftrightarrow> ring_ok d" "dev_msgs d = ring_msgs d"
  using assms by (simp_all add: dev_ok_def dev_msgs_def)

lemma dev_spsc:
  assumes "mode d = KBUF_MODE_SPSC"
  shows "dev_ok d \<longleftrightarrow> spsc_ok d \<and> ring_count d = 0" "dev_msgs d = spsc_msgs d"
  using assms by (simp_all add: dev_ok_def dev_msgs_def)

text \<open>What a call promises: \<open>spec_step\<close> on the queue, and the geometry kept.\<close>

definition served :: "kbuf_dev \<Rightarrow> call \<Rightarrow> reply \<Rightarrow> kbuf_dev \<Rightarrow> bool" where
  "served d c r d' \<longleftrightarrow> dev_ok d' \<and>
     unat (num_buffers d') = unat (num_buffers d) \<and> unat (buffer_size d') = unat (buffer_size d) \<and>
     spec_step (unat (num_buffers d)) (unat (buffer_size d)) (dev_msgs d) c r (dev_msgs d')"

lemma syscall_blocking:
  assumes m: "mode d = KBUF_MODE_BLOCKING" and d: "ring_ok d" and u: "uaccess_ok u"
  shows "\<exists>r d'. syscall d u c = Some (r, d') \<and> served d c r d'"
proof (cases c)
  case (Read n)
  show ?thesis
  proof (cases "kbuf_ring_is_empty d")
    case True
    then show ?thesis using blocking.read_refines(1) [OF d u True, of n] Read m d
      by (simp add: read_nonblock reply_of_def served_def dev_blk)
  next
    case False
    from blocking.read_refines(2) [OF d u False, of n] obtain r out d' where
      c: "kbuf_ring_consume u d n = Some (r, out, d')" and "ring_ok d'" and
      "unat (num_buffers d') = unat (num_buffers d)" "unat (buffer_size d') = unat (buffer_size d)"
      "spec_step (unat (num_buffers d)) (unat (buffer_size d)) (ring_msgs d) (Read n)
        (case r of Inl e \<Rightarrow> Failed e | Inr k \<Rightarrow> Done k out) (ring_msgs d')" by blast
    with ring_consume_frame [OF c] Read m False show ?thesis
      by (simp add: read_nonblock finish_read_def reply_of_def served_def dev_blk)
  qed
next
  case (Write ub n)
  show ?thesis
  proof (cases "kbuf_ring_is_full d")
    case True
    then show ?thesis using blocking.write_refines(1) [OF d u True, of ub n] Write m d
      by (simp add: write_nonblock reply_of_def served_def dev_blk)
  next
    case False
    from blocking.write_refines(2) [OF d u False, of ub n] obtain r d' where
      c: "kbuf_ring_produce u d ub (min n (unat (buffer_size d))) = Some (r, d')" and "ring_ok d'"
      "unat (num_buffers d') = unat (num_buffers d)" "unat (buffer_size d') = unat (buffer_size d)"
      "spec_step (unat (num_buffers d)) (unat (buffer_size d)) (ring_msgs d) (Write ub n)
        (case r of Inl e \<Rightarrow> Failed e | Inr k \<Rightarrow> Done k []) (ring_msgs d')" by blast
    with ring_produce_frame [OF c] Write m False show ?thesis
      by (simp add: write_nonblock finish_write_def reply_of_def served_def dev_blk)
  qed
qed

lemma syscall_spsc:
  assumes m: "mode d = KBUF_MODE_SPSC" and d: "spsc_ok d" "ring_count d = 0" and u: "uaccess_ok u"
  shows "\<exists>r d'. syscall d u c = Some (r, d') \<and> served d c r d'"
proof (cases c)
  case (Read n)
  show ?thesis
  proof (cases "kbuf_spsc_is_empty d")
    case True
    then show ?thesis using spsc.read_refines(1) [OF d(1) u True, of n] Read m d
      by (simp add: read_nonblock reply_of_def served_def dev_spsc)
  next
    case False
    from spsc.read_refines(2) [OF d(1) u False, of n] obtain r out d' where
      c: "kbuf_spsc_consume u d n = Some (r, out, d')" and "spsc_ok d'" and
      "unat (num_buffers d') = unat (num_buffers d)" "unat (buffer_size d') = unat (buffer_size d)"
      "spec_step (unat (num_buffers d)) (unat (buffer_size d)) (spsc_msgs d) (Read n)
        (case r of Inl e \<Rightarrow> Failed e | Inr k \<Rightarrow> Done k out) (spsc_msgs d')" by blast
    with spsc_consume_frame [OF c] Read m d False show ?thesis
      by (simp add: read_nonblock finish_read_def reply_of_def served_def dev_spsc)
  qed
next
  case (Write ub n)
  show ?thesis
  proof (cases "kbuf_spsc_is_full d")
    case True
    then show ?thesis using spsc.write_refines(1) [OF d(1) u True, of ub n] Write m d
      by (simp add: write_nonblock reply_of_def served_def dev_spsc)
  next
    case False
    from spsc.write_refines(2) [OF d(1) u False, of ub n] obtain r d' where
      c: "kbuf_spsc_produce u d ub (min n (unat (buffer_size d))) = Some (r, d')" and "spsc_ok d'"
      "unat (num_buffers d') = unat (num_buffers d)" "unat (buffer_size d') = unat (buffer_size d)"
      "spec_step (unat (num_buffers d)) (unat (buffer_size d)) (spsc_msgs d) (Write ub n)
        (case r of Inl e \<Rightarrow> Failed e | Inr k \<Rightarrow> Done k []) (spsc_msgs d')" by blast
    with spsc_produce_frame [OF c] Write m d False show ?thesis
      by (simp add: write_nonblock finish_write_def reply_of_def served_def dev_spsc)
  qed
qed

interpretation device: fifo_server dev_ok dev_msgs "\<lambda>d. unat (num_buffers d)"
  "\<lambda>d. unat (buffer_size d)" syscall
proof unfold_locales
  fix d u c
  assume d: "dev_ok d" and u: "uaccess_ok u"
  then have "\<exists>r d'. syscall d u c = Some (r, d') \<and> served d c r d'"
    by (cases rule: dev_ok_cases) (auto intro: syscall_blocking syscall_spsc)
  then show "\<exists>r d'. syscall d u c = Some (r, d') \<and> dev_ok d' \<and>
      unat (num_buffers d') = unat (num_buffers d) \<and> unat (buffer_size d') = unat (buffer_size d) \<and>
      spec_step (unat (num_buffers d)) (unat (buffer_size d)) (dev_msgs d) c r (dev_msgs d')"
    by (auto simp: served_def)
qed

section \<open>Blocking calls\<close>

lemma finish_simps [simp]:
  "finish_read (Some (Inl e, out, d)) = Some (Inl e, out, [], d)"
  "finish_read (Some (Inr k, out, d)) = Some (Inr k, out, [WRITE_WQ], d)"
  "finish_write (Some (Inl e, d)) = Some (Inl e, [], [], d)"
  "finish_write (Some (Inr k, d)) = Some (Inr k, [], [READ_WQ], d)"
  by (simp_all add: finish_read_def finish_write_def)

text \<open>
  The device a blocked reader (writer) finds each time it is woken: the other threads' changes,
  applied after each time the sleep was counted.
\<close>

primrec seen_by_reader :: "sched \<Rightarrow> kbuf_dev \<Rightarrow> nat \<Rightarrow> kbuf_dev" where
  "seen_by_reader s d 0 = d"
| "seen_by_reader s d (Suc k) =
     (let e = seen_by_reader s d k in others s k (e\<lparr>read_sleeps := read_sleeps e + 1\<rparr>))"

primrec seen_by_writer :: "sched \<Rightarrow> kbuf_dev \<Rightarrow> nat \<Rightarrow> kbuf_dev" where
  "seen_by_writer s d 0 = d"
| "seen_by_writer s d (Suc k) =
     (let e = seen_by_writer s d k in others s k (e\<lparr>write_sleeps := write_sleeps e + 1\<rparr>))"

lemma read_blocking_loop_waits:
  "\<forall>j < k. kbuf_ring_is_empty (seen_by_reader s d j) \<and> \<not> wait_intr s j \<and> \<not> lock_intr s (Suc j) \<Longrightarrow>
   read_blocking_loop s u False cnt 0 d = read_blocking_loop s u False cnt k (seen_by_reader s d k)"
proof (induction k)
  case (Suc k)
  then have "read_blocking_loop s u False cnt 0 d =
      read_blocking_loop s u False cnt k (seen_by_reader s d k)" by simp
  also have "\<dots> = read_blocking_loop s u False cnt (Suc k) (seen_by_reader s d (Suc k))"
    using Suc.prems by (subst read_blocking_loop.simps) (simp add: Let_def)
  finally show ?case .
qed simp

lemma write_blocking_loop_waits:
  "\<forall>j < k. kbuf_ring_is_full (seen_by_writer s d j) \<and> \<not> wait_intr s j \<and> \<not> lock_intr s (Suc j) \<Longrightarrow>
   write_blocking_loop s u False ub cnt 0 d =
     write_blocking_loop s u False ub cnt k (seen_by_writer s d k)"
proof (induction k)
  case (Suc k)
  then have "write_blocking_loop s u False ub cnt 0 d =
      write_blocking_loop s u False ub cnt k (seen_by_writer s d k)" by simp
  also have "\<dots> = write_blocking_loop s u False ub cnt (Suc k) (seen_by_writer s d (Suc k))"
    using Suc.prems by (subst write_blocking_loop.simps) (simp add: Let_def)
  finally show ?case .
qed simp

lemma read_spsc_loop_waits:
  "\<forall>j < k. kbuf_spsc_is_empty (seen_by_reader s d j) \<and> \<not> wait_intr s j \<Longrightarrow>
   read_spsc_loop s u False cnt 0 d = read_spsc_loop s u False cnt k (seen_by_reader s d k)"
proof (induction k)
  case (Suc k)
  then have "read_spsc_loop s u False cnt 0 d =
      read_spsc_loop s u False cnt k (seen_by_reader s d k)" by simp
  also have "\<dots> = read_spsc_loop s u False cnt (Suc k) (seen_by_reader s d (Suc k))"
    using Suc.prems by (subst read_spsc_loop.simps) (simp add: Let_def)
  finally show ?case .
qed simp

lemma write_spsc_loop_waits:
  "\<forall>j < k. kbuf_spsc_is_full (seen_by_writer s d j) \<and> \<not> wait_intr s j \<Longrightarrow>
   write_spsc_loop s u False ub cnt 0 d = write_spsc_loop s u False ub cnt k (seen_by_writer s d k)"
proof (induction k)
  case (Suc k)
  then have "write_spsc_loop s u False ub cnt 0 d =
      write_spsc_loop s u False ub cnt k (seen_by_writer s d k)" by simp
  also have "\<dots> = write_spsc_loop s u False ub cnt (Suc k) (seen_by_writer s d (Suc k))"
    using Suc.prems by (subst write_spsc_loop.simps) (simp add: Let_def)
  finally show ?case .
qed simp

text \<open>
  C19: a blocking read of a device in the blocking mode returns as soon as a wake-up finds the ring
  non-empty: it sleeps while the ring is empty, then delivers the oldest message of the ring as it
  is at that moment (or reports the fault of the copy) and wakes the writers.
\<close>

theorem kbuf_read_blocking_returns:
  assumes "mode d = KBUF_MODE_BLOCKING" and "\<not> lock_intr s 0"
    and "\<forall>j < k. kbuf_ring_is_empty (seen_by_reader s d j) \<and> \<not> wait_intr s j \<and> \<not> lock_intr s (Suc j)"
    and "ring_ok (seen_by_reader s d k)" and "ring_msgs (seen_by_reader s d k) = m # ms"
    and "uaccess_ok u"
  shows "\<exists>r out w d'. kbuf_read s u False n d = Some (Some (r, out, w, d')) \<and> ring_ok d' \<and>
    (if snd (copy_to_user u (take n m)) = 0
     then r = Inr (min n (length m)) \<and> out = take n m \<and> w = [WRITE_WQ] \<and> ring_msgs d' = ms
     else r = Inl EFAULT \<and> w = [] \<and> d' = seen_by_reader s d k)"
proof -
  have ne: "\<not> kbuf_ring_is_empty (seen_by_reader s d k)"
    using assms(5) by (simp add: ring_is_empty_iff)
  have "kbuf_read s u False n d =
      Some (finish_read (kbuf_ring_consume u (seen_by_reader s d k) n))"
    using assms(1,2) read_blocking_loop_waits [OF assms(3), of u n] ne
    by (simp add: kbuf_read_def kbuf_read_blocking_def
        read_blocking_loop.simps [of s u False n k "seen_by_reader s d k"])
  with ring_consume_spec [OF assms(4,6,5), of n] show ?thesis
    by (auto split: if_splits)
qed


section \<open>Sequences of non-blocking calls\<close>

text \<open>
  C1: whatever sequence of non-blocking reads and writes the processes make on a device, in either
  mode, every call is free of out-of-bounds accesses, the device stays well formed, and messages
  come out whole, in order, each exactly once: what was queued and accepted is what was delivered
  followed by what is still queued.
\<close>

theorem device_fifo:
  assumes "dev_ok d" and "\<forall>(u, c) \<in> set cs. uaccess_ok u"
  shows "\<exists>tr d'. exec syscall d cs = Some (tr, d') \<and> dev_ok d' \<and> map fst tr = map snd cs \<and>
    fifo_law (dev_msgs d) tr (dev_msgs d')"
  by (rule device.exec_fifo [OF assms])

text \<open>
  C12: a device implements the bounded queue of its contract: every sequence of non-blocking calls
  on it is, reply by reply, a run of the abstract device of the same capacity and slot size.
\<close>

theorem device_refines_queue:
  assumes "dev_ok d" and "\<forall>(u, c) \<in> set cs. uaccess_ok u"
  shows "\<exists>tr d'. exec syscall d cs = Some (tr, d') \<and> map fst tr = map snd cs \<and>
    num_buffers d' = num_buffers d \<and> buffer_size d' = buffer_size d \<and>
    spec_run (unat (num_buffers d)) (unat (buffer_size d)) (dev_msgs d) tr (dev_msgs d')"
  using device.exec_refines [OF assms] by (auto simp: word_unat_eq_iff)

section \<open>Counters\<close>

text \<open>The four throughput counters move by what a trace accepted and delivered, modulo 2^64.\<close>

definition counted :: "kbuf_dev \<Rightarrow> (call \<times> reply) list \<Rightarrow> kbuf_dev \<Rightarrow> bool" where
  "counted d tr d' \<longleftrightarrow>
     msgs_produced d' = msgs_produced d + of_nat (length (accepted tr)) \<and>
     bytes_produced d' = bytes_produced d + of_nat (sum_list (map length (accepted tr))) \<and>
     msgs_consumed d' = msgs_consumed d + of_nat (length (delivered tr)) \<and>
     bytes_consumed d' =
       bytes_consumed d + of_nat (sum_list (map (\<lambda>(n, out). length out) (delivered tr)))"

lemma counted_nil: "counted d [] d"
  by (simp add: counted_def)

lemma counted_Cons: "counted d [x] d' \<Longrightarrow> counted d' tr d'' \<Longrightarrow> counted d (x # tr) d''"
  unfolding counted_def accepted_Cons [of x tr] delivered_Cons [of x tr] by (simp add: add.assoc)

lemma ring_consume_counted:
  "kbuf_ring_consume u d n = Some (r, out, d') \<Longrightarrow> uaccess_ok u \<Longrightarrow>
   counted d [(Read n, case r of Inl e \<Rightarrow> Failed e | Inr k \<Rightarrow> Done k out)] d'"
  by (auto simp: kbuf_ring_consume_def Let_def counted_def min_def not_less
      dest: copy_to_user_ok split: if_splits prod.splits)

lemma spsc_consume_counted:
  "kbuf_spsc_consume u d n = Some (r, out, d') \<Longrightarrow> uaccess_ok u \<Longrightarrow>
   counted d [(Read n, case r of Inl e \<Rightarrow> Failed e | Inr k \<Rightarrow> Done k out)] d'"
  by (auto simp: kbuf_spsc_consume_def Let_def counted_def min_def not_less
      dest: copy_to_user_ok split: if_splits prod.splits)

lemma ring_produce_counted:
  "kbuf_ring_produce u d ub n = Some (r, d') \<Longrightarrow>
   counted d [(Write ub m, case r of Inl e \<Rightarrow> Failed e | Inr k \<Rightarrow> Done k [])] d'"
  by (auto simp: kbuf_ring_produce_def Let_def counted_def split: if_splits prod.splits)

lemma spsc_produce_counted:
  "kbuf_spsc_produce u d ub n = Some (r, d') \<Longrightarrow>
   counted d [(Write ub m, case r of Inl e \<Rightarrow> Failed e | Inr k \<Rightarrow> Done k [])] d'"
  by (auto simp: kbuf_spsc_produce_def Let_def counted_def split: if_splits prod.splits)

lemma counted_EAGAIN: "counted d [(c, Failed e)] d"
  by (cases c) (simp_all add: counted_def)

lemma syscall_counted:
  assumes "syscall d u c = Some (r, d')" "uaccess_ok u"
  shows "counted d [(c, r)] d'"
  using assms
  by (cases c)
    (auto simp: read_nonblock write_nonblock finish_read_def finish_write_def reply_of_def
      counted_EAGAIN split: if_splits
      intro: ring_consume_counted spsc_consume_counted ring_produce_counted spsc_produce_counted)

lemma exec_counted:
  assumes "exec syscall d cs = Some (tr, d')" and "\<forall>(u, c) \<in> set cs. uaccess_ok u"
  shows "counted d tr d'"
  using assms
proof (induction cs arbitrary: d tr)
  case Nil
  then show ?case by (simp add: counted_nil)
next
  case (Cons uc cs)
  obtain u c where uc: "uc = (u, c)" by fastforce
  with Cons.prems obtain r d1 tr1 where
    1: "syscall d u c = Some (r, d1)" and
    2: "exec syscall d1 cs = Some (tr1, d')" and tr: "tr = (c, r) # tr1"
    by (auto split: option.splits)
  have "counted d [(c, r)] d1" using syscall_counted [OF 1] Cons.prems(2) uc by simp
  moreover have "counted d1 tr1 d'" using Cons.IH [OF 2] Cons.prems(2) by simp
  ultimately show ?case unfolding tr by (rule counted_Cons)
qed

text \<open>
  C21: over any sequence of non-blocking calls the statistics are exact (modulo 2^64): messages and
  bytes produced grow by what the writes were told was accepted, messages and bytes consumed by
  what the reads delivered, and failed calls are not counted.
\<close>

theorem counters_exact:
  assumes "exec syscall d cs = Some (tr, d')" and "\<forall>(u, c) \<in> set cs. uaccess_ok u"
  shows "counted d tr d'"
  by (rule exec_counted [OF assms])

section \<open>Poll\<close>

lemma poll_bits:
  "(((if a then EPOLLIN OR EPOLLRDNORM else 0) OR (if b then EPOLLOUT OR EPOLLWRNORM else 0))
      AND EPOLLIN \<noteq> 0) = a"
  "(((if a then EPOLLIN OR EPOLLRDNORM else 0) OR (if b then EPOLLOUT OR EPOLLWRNORM else 0))
      AND EPOLLOUT \<noteq> 0) = b"
  by (cases a; cases b; simp add: EPOLLIN_def EPOLLOUT_def EPOLLRDNORM_def EPOLLWRNORM_def)+

text \<open>
  C22: poll is exact: it reports a device readable precisely when a non-blocking read would not
  return EAGAIN, and writable precisely when a non-blocking write would not.
\<close>

theorem poll_exact:
  assumes "dev_ok d" and "uaccess_ok u"
  shows "(kbuf_poll d AND EPOLLIN \<noteq> 0 \<longleftrightarrow>
      (\<exists>r d'. syscall d u (Read n) = Some (r, d') \<and> r \<noteq> Failed EAGAIN)) \<and>
    (kbuf_poll d AND EPOLLOUT \<noteq> 0 \<longleftrightarrow>
      (\<exists>r d'. syscall d u (Write ub n) = Some (r, d') \<and> r \<noteq> Failed EAGAIN))"
proof -
  have in_out: "kbuf_poll d AND EPOLLIN \<noteq> 0 \<longleftrightarrow> dev_msgs d \<noteq> []"
    "kbuf_poll d AND EPOLLOUT \<noteq> 0 \<longleftrightarrow> length (dev_msgs d) \<noteq> unat (num_buffers d)"
    using assms(1)
    by (cases rule: dev_ok_cases; simp add: kbuf_poll_def poll_bits spsc_is_empty_iff
        spsc_is_full_iff ring_is_empty_iff ring_is_full_iff)+
  from device.serves [OF assms, of "Read n"] device.serves [OF assms, of "Write ub n"]
  show ?thesis unfolding in_out
    by (auto elim!: spec_step_readE spec_step_writeE)
qed

section \<open>Concrete devices\<close>

text \<open>
  A device of two slots of two bytes in the blocking mode, and the same device in the lock-free
  mode with both indices about to wrap.
\<close>

definition demo_dev :: kbuf_dev where
  "demo_dev = zero_dev\<lparr>slots_ptr := 1, num_buffers := 2, buffer_size := 2,
     slots := [\<lparr>data = 2, bytes = [0, 0], len = 0\<rparr>, \<lparr>data = 3, bytes = [0, 0], len = 0\<rparr>]\<rparr>"

definition demo_spsc :: kbuf_dev where
  "demo_spsc = demo_dev\<lparr>mode := 1, prod_idx := 0xFFFFFFFF, cons_idx := 0xFFFFFFFF\<rparr>"

lemmas demo_simps =
  demo_dev_def demo_spsc_def zero_dev_def dev_ok_def dev_msgs_def ring_ok_def
  spsc_ok_def geom_ok_def slots_ok_def is_power_of_2_def ring_msgs_def spsc_msgs_def msg_def
  window_def

lemmas op_simps =
  read_nonblock write_nonblock reply_of_def kbuf_ring_is_empty_def kbuf_ring_is_full_def
  kbuf_ring_consume_def kbuf_ring_produce_def kbuf_spsc_is_empty_def kbuf_spsc_is_full_def
  kbuf_spsc_consume_def kbuf_spsc_produce_def Let_def

lemma ubytes_2: "ubytes f 2 = [f 0, f 1]"
  by (simp add: numeral_2_eq_2)

lemma demo_ok [simp]: "dev_ok demo_dev" "dev_ok demo_spsc"
  by (simp_all add: demo_simps)

definition demo_calls :: "(uaccess \<times> call) list" where
  "demo_calls = [(good_user, Write (\<lambda>_. 7) 3), (good_user, Read 1),
      (good_user, Write (\<lambda>_. 9) 1), (good_user, Read 4), (bad_user, Read 4)]"

definition demo_trace :: "(call \<times> reply) list" where
  "demo_trace = [(Write (\<lambda>_. 7) 3, Done 2 []), (Read 1, Done 1 [7]), (Write (\<lambda>_. 9) 1, Done 1 []),
      (Read 4, Done 1 [9]), (Read 4, Failed EAGAIN)]"

definition demo_end :: kbuf_dev where
  "demo_end = demo_spsc\<lparr>
     slots := [\<lparr>data = 2, bytes = [9, 0], len = 1\<rparr>, \<lparr>data = 3, bytes = [7, 7], len = 2\<rparr>],
     prod_idx := 1, cons_idx := 1, peak_count := 1, bytes_produced := 3, bytes_consumed := 2,
     msgs_produced := 2, msgs_consumed := 2\<rparr>"

lemma demo_calls_ok [simp]: "\<forall>(u, c) \<in> set demo_calls. uaccess_ok u"
  by (simp add: demo_calls_def)

lemma demo_run: "exec syscall demo_spsc demo_calls = Some (demo_trace, demo_end)"
  unfolding demo_calls_def demo_trace_def demo_end_def
  by (simp add: op_simps demo_simps ubytes_2)

theorem device_fifo_witness:
  "dev_ok demo_spsc \<and> fifo_law (dev_msgs demo_spsc) demo_trace (dev_msgs demo_end)"
  using device_fifo [of demo_spsc demo_calls] by (simp add: demo_run)

theorem device_refines_queue_witness:
  "dev_ok demo_spsc \<and> spec_run 2 2 [] demo_trace []"
  using device_refines_queue [of demo_spsc demo_calls]
  by (simp add: demo_run, simp add: demo_simps demo_end_def)

theorem counters_exact_witness: "counted demo_spsc demo_trace demo_end"
  using counters_exact [of demo_spsc demo_calls] by (simp add: demo_run)

theorem poll_exact_witness:
  "dev_ok demo_spsc \<and> kbuf_poll demo_spsc AND EPOLLIN = 0 \<and> kbuf_poll demo_spsc AND EPOLLOUT \<noteq> 0"
proof -
  have "syscall demo_spsc good_user (Read 2) = Some (Failed EAGAIN, demo_spsc)"
    "syscall demo_spsc good_user (Write (\<lambda>_. 1) 2) = Some (Done 2 [], demo_spsc\<lparr>
      slots := [\<lparr>data = 2, bytes = [0, 0], len = 0\<rparr>, \<lparr>data = 3, bytes = [1, 1], len = 2\<rparr>],
      prod_idx := 0, peak_count := 1, bytes_produced := 2, msgs_produced := 1\<rparr>)"
    by (simp_all add: op_simps demo_simps ubytes_2)
  with poll_exact [of demo_spsc good_user 2 "\<lambda>_. 1"] show ?thesis
    by (simp del: syscall.simps)
qed

text \<open>Another thread's write (read) while the call sleeps.\<close>

definition fed :: sched where
  "fed = calm\<lparr>others := \<lambda>_ d. snd (the (syscall d good_user (Write (\<lambda>_. 7) 1)))\<rparr>"

definition drained :: sched where
  "drained = calm\<lparr>others := \<lambda>_ d. snd (the (syscall d good_user (Read 9)))\<rparr>"

definition demo_full :: kbuf_dev where
  "demo_full = demo_dev\<lparr>ring_count := 2, peak_count := 2,
     slots := [\<lparr>data = 2, bytes = [1, 0], len = 1\<rparr>, \<lparr>data = 3, bytes = [2, 0], len = 1\<rparr>]\<rparr>"

lemma sched_simps [simp]:
  "\<not> lock_intr fed i" "\<not> wait_intr fed i" "\<not> lock_intr drained i" "\<not> wait_intr drained i"
  "others fed i d = snd (the (syscall d good_user (Write (\<lambda>_. 7) 1)))"
  "others drained i d = snd (the (syscall d good_user (Read 9)))"
  by (simp_all add: fed_def drained_def)

lemma demo_fed: "seen_by_reader fed demo_dev 1 = demo_dev\<lparr>
    slots := [\<lparr>data = 2, bytes = [7, 0], len = 1\<rparr>, \<lparr>data = 3, bytes = [0, 0], len = 0\<rparr>],
    write_pos := 1, ring_count := 1, peak_count := 1, bytes_produced := 1, msgs_produced := 1,
    read_sleeps := 1\<rparr>"
  by (simp add: op_simps demo_simps)

lemma demo_drained: "seen_by_writer drained demo_full 1 = demo_full\<lparr>
    read_pos := 1, ring_count := 1, bytes_consumed := 1, msgs_consumed := 1, write_sleeps := 1\<rparr>"
  by (simp add: op_simps demo_simps demo_full_def)

theorem kbuf_read_blocking_returns_witness:
  "kbuf_ring_is_empty demo_dev \<and> (\<exists>d'.
     kbuf_read fed good_user False 5 demo_dev = Some (Some (Inr 1, [7], [WRITE_WQ], d')) \<and>
     ring_ok d' \<and> ring_msgs d' = [])"
proof -
  have "kbuf_ring_is_empty demo_dev" "ring_ok (seen_by_reader fed demo_dev 1)"
    "ring_msgs (seen_by_reader fed demo_dev 1) = [[7]]" "mode demo_dev = 0"
    unfolding demo_fed by (simp_all add: demo_simps kbuf_ring_is_empty_def)
  with kbuf_read_blocking_returns [of demo_dev fed 1 "[7]" "[]" good_user 5]
  show ?thesis by simp
qed


end
