(* ===== verification/Kbuf_Ioctl.thy ===== *)
theory Kbuf_Ioctl
  imports Kbuf_File
begin

text \<open>
  The device ioctls of src/kbuf_ioctl.c that act on the ring: statistics, reset, resize and mode
  switch. Structures cross the user boundary as the bytes of their committed layout
  (include/kbuf.h) on a little-endian machine. A resize allocates the new slots before it takes
  the lock; what other threads do to the device in that window is the parameter
  \<open>meanwhile\<close>.
\<close>

section \<open>Little-endian layout\<close>

primrec le_bytes :: "nat \<Rightarrow> 'a::len word \<Rightarrow> u8 list" where
  "le_bytes 0 w = []"
| "le_bytes (Suc n) w = ucast w # le_bytes n (drop_bit 8 w)"

primrec le_word :: "u8 list \<Rightarrow> 'a::len word" where
  "le_word [] = 0"
| "le_word (b # bs) = ucast b OR push_bit 8 (le_word bs)"

lemma length_le_bytes [simp]: "length (le_bytes n w) = n"
  by (induction n arbitrary: w) simp_all

lemma le_word_le_bytes: "le_word (le_bytes n w) = take_bit (8 * n) w"
proof (induction n arbitrary: w)
  case (Suc n)
  show ?case
    by (rule bit_eqI) (auto simp: Suc bit_simps not_le)
qed simp

lemma le_word_u32 [simp]: "le_word (le_bytes 4 (w :: u32)) = w"
  by (simp add: le_word_le_bytes take_bit_word_eq_self)

lemma le_word_u64 [simp]: "le_word (le_bytes 8 (w :: u64)) = w"
  by (simp add: le_word_le_bytes take_bit_word_eq_self)

section \<open>Structures\<close>

record kbuf_resize =
  rq_num_buffers :: u32
  rq_buffer_size :: u32

record kbuf_stats =
  st_bytes_produced :: u64
  st_bytes_consumed :: u64
  st_msgs_produced :: u64
  st_msgs_consumed :: u64
  st_read_sleeps :: u64
  st_write_sleeps :: u64
  st_num_buffers :: u32
  st_buffer_size :: u32
  st_cur_count :: u32
  st_peak_count :: u32

definition resize_bytes :: "kbuf_resize \<Rightarrow> u8 list" where
  "resize_bytes rq = le_bytes 4 (rq_num_buffers rq) @ le_bytes 4 (rq_buffer_size rq)"

definition resize_of_bytes :: "u8 list \<Rightarrow> kbuf_resize" where
  "resize_of_bytes b = \<lparr>rq_num_buffers = le_word (take 4 b), rq_buffer_size = le_word (take 4 (drop 4 b))\<rparr>"

definition stats_bytes :: "kbuf_stats \<Rightarrow> u8 list" where
  "stats_bytes st =
     le_bytes 8 (st_bytes_produced st) @ le_bytes 8 (st_bytes_consumed st) @
     le_bytes 8 (st_msgs_produced st) @ le_bytes 8 (st_msgs_consumed st) @
     le_bytes 8 (st_read_sleeps st) @ le_bytes 8 (st_write_sleeps st) @
     le_bytes 4 (st_num_buffers st) @ le_bytes 4 (st_buffer_size st) @
     le_bytes 4 (st_cur_count st) @ le_bytes 4 (st_peak_count st)"

definition stats_of_bytes :: "u8 list \<Rightarrow> kbuf_stats" where
  "stats_of_bytes b = \<lparr>
     st_bytes_produced = le_word (take 8 b),
     st_bytes_consumed = le_word (take 8 (drop 8 b)),
     st_msgs_produced = le_word (take 8 (drop 16 b)),
     st_msgs_consumed = le_word (take 8 (drop 24 b)),
     st_read_sleeps = le_word (take 8 (drop 32 b)),
     st_write_sleeps = le_word (take 8 (drop 40 b)),
     st_num_buffers = le_word (take 4 (drop 48 b)),
     st_buffer_size = le_word (take 4 (drop 52 b)),
     st_cur_count = le_word (take 4 (drop 56 b)),
     st_peak_count = le_word (take 4 (drop 60 b))\<rparr>"

lemma resize_roundtrip [simp]: "resize_of_bytes (resize_bytes rq) = rq"
  by (simp add: resize_of_bytes_def resize_bytes_def)

lemma stats_roundtrip [simp]: "stats_of_bytes (stats_bytes st) = st"
  by (simp add: stats_of_bytes_def stats_bytes_def)

section \<open>The commands\<close>

definition kbuf_ioc_getstats :: "uaccess \<Rightarrow> kbuf_dev \<Rightarrow> unit result \<times> u8 list" where
  "kbuf_ioc_getstats u d =
     (let st = \<lparr>
        st_bytes_produced = bytes_produced d, st_bytes_consumed = bytes_consumed d,
        st_msgs_produced = msgs_produced d, st_msgs_consumed = msgs_consumed d,
        st_read_sleeps = read_sleeps d, st_write_sleeps = write_sleeps d,
        st_num_buffers = num_buffers d, st_buffer_size = buffer_size d,
        st_cur_count = kbuf_occupancy d, st_peak_count = peak_count d\<rparr>;
        (out, left) = copy_to_user u (stats_bytes st)
      in if left \<noteq> 0 then (Inl EFAULT, out) else (Inr (), out))"

definition kbuf_ioc_reset :: "kbuf_dev \<Rightarrow> unit result \<times> kbuf_dev" where
  "kbuf_ioc_reset d = (Inr (), d\<lparr>
     bytes_produced := 0, bytes_consumed := 0, msgs_produced := 0, msgs_consumed := 0,
     read_sleeps := 0, write_sleeps := 0, peak_count := ring_count d\<rparr>)"

definition kbuf_ioc_resize :: "uaccess \<Rightarrow> ubuf \<Rightarrow> (kbuf_dev \<Rightarrow> kbuf_dev) \<Rightarrow> kbuf_dev
    \<Rightarrow> (kst, unit result \<times> wq list \<times> kbuf_dev) state" where
  "kbuf_ioc_resize u arg meanwhile d =
     (let (b, left) = copy_from_user u (replicate 8 0) (ubytes arg 8); rq = resize_of_bytes b in
      if left \<noteq> 0 then State_Monad.return (Inl EFAULT, [], d)
      else if rq_num_buffers rq < 1 \<or> rq_num_buffers rq > KBUF_MAX_NUM_BUFFERS
      then State_Monad.return (Inl EINVAL, [], d)
      else if rq_buffer_size rq < 1 \<or> rq_buffer_size rq > KBUF_MAX_BUFFER_SIZE
      then State_Monad.return (Inl EINVAL, [], d)
      else if mode d = KBUF_MODE_SPSC \<and> \<not> is_power_of_2 (rq_num_buffers rq)
      then State_Monad.return (Inl EINVAL, [], d)
      else do {
        new_slots \<leftarrow> kbuf_alloc_slots (rq_num_buffers rq) (rq_buffer_size rq);
        case new_slots of
          None \<Rightarrow> State_Monad.return (Inl ENOMEM, [], d)
        | Some (sp, ss) \<Rightarrow> let d = meanwhile d in
            if kbuf_occupancy d \<noteq> 0 then do {
              kbuf_free_slots sp ss (rq_num_buffers rq);
              State_Monad.return (Inl EBUSY, [], d) }
            else do {
              kbuf_free_slots (slots_ptr d) (slots d) (num_buffers d);
              State_Monad.return (Inr (), [WRITE_WQ], d\<lparr>slots_ptr := sp, slots := ss,
                num_buffers := rq_num_buffers rq, buffer_size := rq_buffer_size rq,
                read_pos := 0, write_pos := 0, ring_count := 0, prod_idx := 0, cons_idx := 0,
                peak_count := 0\<rparr>) } })"

definition kbuf_ioc_smode :: "uaccess \<Rightarrow> ubuf \<Rightarrow> kbuf_dev \<Rightarrow> unit result \<times> kbuf_dev" where
  "kbuf_ioc_smode u arg d =
     (let (b, left) = copy_from_user u (replicate 4 0) (ubytes arg 4);
          m = sint (le_word b :: u32) in
      if left \<noteq> 0 then (Inl EFAULT, d)
      else if m \<noteq> KBUF_MODE_BLOCKING \<and> m \<noteq> KBUF_MODE_SPSC then (Inl EINVAL, d)
      else if kbuf_occupancy d \<noteq> 0 then (Inl EBUSY, d)
      else if m = KBUF_MODE_SPSC \<and> \<not> is_power_of_2 (num_buffers d) then (Inl EINVAL, d)
      else (Inr (), d\<lparr>read_pos := 0, write_pos := 0, ring_count := 0, prod_idx := 0,
        cons_idx := 0, mode := m\<rparr>))"

section \<open>Behaviour\<close>

lemma occupancy_0_iff: "kbuf_occupancy d = 0 \<longleftrightarrow> dev_msgs d = []"
  by (metis length_dev_msgs length_0_conv unat_eq_zero)

lemma one_le_u32: "x \<noteq> 0 \<Longrightarrow> 1 \<le> (x :: u32)"
  by (rule ccontr) (simp add: not_le)

text \<open>The request the caller passed in.\<close>

definition resize_request :: "uaccess \<Rightarrow> ubuf \<Rightarrow> kbuf_resize" where
  "resize_request u arg = resize_of_bytes (fst (copy_from_user u (replicate 8 0) (ubytes arg 8)))"

definition resized :: "kbuf_resize \<Rightarrow> ptr \<Rightarrow> kbuf_slot list \<Rightarrow> kbuf_dev \<Rightarrow> kbuf_dev" where
  "resized rq sp ss d = d\<lparr>slots_ptr := sp, slots := ss,
     num_buffers := rq_num_buffers rq, buffer_size := rq_buffer_size rq,
     read_pos := 0, write_pos := 0, ring_count := 0, prod_idx := 0, cons_idx := 0,
     peak_count := 0\<rparr>"

text \<open>
  The three ways a resize ends: refused before the lock, refused because the ring is not empty,
  or done with freshly allocated slots of a legal geometry.
\<close>

lemma resize_cases:
  assumes "run_state (kbuf_ioc_resize u arg meanwhile d) k = ((r, w, d'), k')"
  obtains (refused) e where "r = Inl e" "e \<in> {EFAULT, EINVAL, ENOMEM}" "w = []" "d' = d"
  | (busy) "r = Inl EBUSY" "w = []" "d' = meanwhile d" "dev_msgs d' \<noteq> []"
  | (resized) rq sp ss k1 where "r = Inr ()" "w = [WRITE_WQ]"
      "rq = resize_request u arg" "dev_msgs (meanwhile d) = []"
      "1 \<le> rq_num_buffers rq" "rq_num_buffers rq \<le> KBUF_MAX_NUM_BUFFERS"
      "1 \<le> rq_buffer_size rq" "rq_buffer_size rq \<le> KBUF_MAX_BUFFER_SIZE"
      "mode d = KBUF_MODE_SPSC \<longrightarrow> is_power_of_2 (rq_num_buffers rq)"
      "run_state (kbuf_alloc_slots (rq_num_buffers rq) (rq_buffer_size rq)) k = (Some (sp, ss), k1)"
      "d' = resized rq sp ss (meanwhile d)"
proof -
  define left where "left = snd (copy_from_user u (replicate 8 0) (ubytes arg 8))"
  define rq where "rq = resize_request u arg"
  define bad where "bad \<longleftrightarrow> left \<noteq> 0 \<or>
    rq_num_buffers rq < 1 \<or> rq_num_buffers rq > KBUF_MAX_NUM_BUFFERS \<or>
    rq_buffer_size rq < 1 \<or> rq_buffer_size rq > KBUF_MAX_BUFFER_SIZE \<or>
    mode d = KBUF_MODE_SPSC \<and> \<not> is_power_of_2 (rq_num_buffers rq)"
  note run = assms [unfolded kbuf_ioc_resize_def split_beta Let_def,
      folded resize_request_def left_def rq_def]
  show thesis
  proof (cases bad)
    case True
    with run have "\<exists>e \<in> {EFAULT, EINVAL}. r = Inl e \<and> w = [] \<and> d' = d"
      unfolding bad_def by (auto simp: State_Monad.return_def split: if_splits)
    then show thesis using refused by auto
  next
    case False
    obtain x k1 where al:
      "run_state (kbuf_alloc_slots (rq_num_buffers rq) (rq_buffer_size rq)) k = (x, k1)" by fastforce
    show thesis
    proof (cases x)
      case None
      with False run al show thesis unfolding bad_def by (intro refused [of ENOMEM]) (auto simp: leD)
    next
      case (Some y)
      obtain sp ss where y: "y = (sp, ss)" by fastforce
      show thesis
      proof (cases "dev_msgs (meanwhile d) = []")
        case True
        with False run al Some y have "r = Inr () \<and> w = [WRITE_WQ] \<and> d' = resized rq sp ss (meanwhile d)"
          unfolding bad_def by (auto simp: resized_def occupancy_0_iff leD split: prod.splits)
        with True False al Some y show thesis unfolding bad_def not_less
          by (intro resized [of rq sp ss k1, OF _ _ rq_def]) (simp_all add: one_le_u32 not_less)
      next
        case ne: False
        with False run al Some y show thesis unfolding bad_def
          by (intro busy) (auto simp: occupancy_0_iff leD split: prod.splits)
      qed
    qed
  qed
qed

text \<open>A legal request on an empty ring succeeds whenever the memory is there.\<close>

lemma resize_succeeds:
  assumes "copy_from_user u (replicate 8 0) (ubytes arg 8) = (resize_bytes rq, 0)"
    and "1 \<le> rq_num_buffers rq" "rq_num_buffers rq \<le> KBUF_MAX_NUM_BUFFERS"
      "1 \<le> rq_buffer_size rq" "rq_buffer_size rq \<le> KBUF_MAX_BUFFER_SIZE"
    and "mode d = KBUF_MODE_SPSC \<longrightarrow> is_power_of_2 (rq_num_buffers rq)"
    and "run_state (kbuf_alloc_slots (rq_num_buffers rq) (rq_buffer_size rq)) k = (Some (sp, ss), k1)"
    and "dev_msgs (meanwhile d) = []"
  shows "\<exists>k'. run_state (kbuf_ioc_resize u arg meanwhile d) k =
    ((Inr (), [WRITE_WQ], resized rq sp ss (meanwhile d)), k')"
proof -
  have "\<not> rq_num_buffers rq < 1" "\<not> rq_num_buffers rq > KBUF_MAX_NUM_BUFFERS"
    "\<not> rq_buffer_size rq < 1" "\<not> rq_buffer_size rq > KBUF_MAX_BUFFER_SIZE"
    using assms(2-5) by (simp_all only: not_less)
  with assms(6-8) show ?thesis
    unfolding kbuf_ioc_resize_def assms(1)
    by (simp add: occupancy_0_iff Let_def resized_def split: prod.split)
qed

lemma legal_geometry:
  assumes "1 \<le> n" "n \<le> KBUF_MAX_NUM_BUFFERS" "1 \<le> sz" "sz \<le> KBUF_MAX_BUFFER_SIZE"
  shows "1 \<le> unat n" "unat n \<le> 256" "1 \<le> unat sz" "unat sz \<le> 65536"
  using assms
  by (simp_all add: KBUF_MAX_NUM_BUFFERS_def KBUF_MAX_BUFFER_SIZE_def word_le_nat_alt)

lemma resized_ok:
  assumes "slots_ok (unat (rq_num_buffers rq)) (unat (rq_buffer_size rq)) ss"
    and "1 \<le> rq_num_buffers rq" "rq_num_buffers rq \<le> KBUF_MAX_NUM_BUFFERS"
      "1 \<le> rq_buffer_size rq" "rq_buffer_size rq \<le> KBUF_MAX_BUFFER_SIZE"
    and "mode d = KBUF_MODE_SPSC \<longrightarrow> is_power_of_2 (rq_num_buffers rq)"
    and "mode d = KBUF_MODE_BLOCKING \<or> mode d = KBUF_MODE_SPSC"
  shows "dev_ok (resized rq sp ss d)" "dev_msgs (resized rq sp ss d) = []"
  using assms(1,6,7) legal_geometry [OF assms(2-5)]
  by (auto simp: resized_def dev_ok_def ring_ok_def spsc_ok_def geom_ok_def dev_msgs_def
      ring_msgs_def spsc_msgs_def)

lemma dev_ok_mode: "dev_ok d \<Longrightarrow> mode d = KBUF_MODE_BLOCKING \<or> mode d = KBUF_MODE_SPSC"
  by (auto simp: dev_ok_def split: if_splits)

lemma resize_ok:
  assumes run: "run_state (kbuf_ioc_resize u arg meanwhile d) k = ((r, w, d'), k')"
    and ok: "dev_ok d" "dev_ok (meanwhile d)" and same: "mode (meanwhile d) = mode d"
  shows "dev_ok d' \<and> mode d' = mode d \<and>
    (case r of
       Inr _ \<Rightarrow> dev_msgs (meanwhile d) = [] \<and> dev_msgs d' = [] \<and> w = [WRITE_WQ] \<and>
         num_buffers d' = rq_num_buffers (resize_request u arg) \<and>
         buffer_size d' = rq_buffer_size (resize_request u arg)
     | Inl e \<Rightarrow> w = [] \<and> (if e = EBUSY then d' = meanwhile d \<and> dev_msgs d' \<noteq> [] else d' = d))"
  using run
proof (cases rule: resize_cases)
  case (resized rq sp ss k1)
  from resized(9) same have "mode (meanwhile d) = KBUF_MODE_SPSC \<longrightarrow> is_power_of_2 (rq_num_buffers rq)"
    by simp
  from resized_ok [OF kbuf_alloc_slots_ok(2) [OF resized(10)] resized(5-8) this dev_ok_mode [OF ok(2)]]
  show ?thesis using resized same by (simp add: resized_def)
qed (use ok same in auto)

text \<open>
  C23: KBUF_IOCRESIZE never loses a message and never breaks the device: whatever readers and
  writers do while the new slots are being allocated, and provided the mode is not switched in
  that window, a resize that succeeds found the ring empty and leaves an empty well-formed ring
  of the requested geometry and wakes the writers; one that is refused leaves the queue as it was,
  with EBUSY only when messages are queued.
\<close>

theorem resize_keeps_messages:
  assumes "run_state (kbuf_ioc_resize u arg meanwhile d) k = ((r, w, d'), k')"
    and "dev_ok d" "dev_ok (meanwhile d)" and "mode (meanwhile d) = mode d"
  shows "dev_ok d' \<and> mode d' = mode d \<and>
    (case r of
       Inr _ \<Rightarrow> dev_msgs (meanwhile d) = [] \<and> dev_msgs d' = [] \<and> w = [WRITE_WQ] \<and>
         num_buffers d' = rq_num_buffers (resize_request u arg) \<and>
         buffer_size d' = rq_buffer_size (resize_request u arg)
     | Inl e \<Rightarrow> w = [] \<and> (if e = EBUSY then d' = meanwhile d \<and> dev_msgs d' \<noteq> [] else d' = d))"
  by (rule resize_ok [OF assms])

text \<open>The kernel memory of a device's slots.\<close>

abbreviation dev_slots_mem :: "kbuf_dev \<Rightarrow> kobj multiset" where
  "dev_slots_mem d \<equiv> slots_mem (slots_ptr d) (slots d)"

lemma resize_swap:
  assumes old: "slots_ok (unat (num_buffers e)) sz (slots e)"
    and new: "slots_ok (unat n) sz' ss"
  shows "ktriple (slots_mem sp ss + dev_slots_mem e)
    (if b then do { kbuf_free_slots sp ss n; State_Monad.return (Inl EBUSY, [], e) }
     else do { kbuf_free_slots (slots_ptr e) (slots e) (num_buffers e);
       State_Monad.return (Inr (), w, resized rq sp ss e) })
    (\<lambda>(r, w, d'). dev_slots_mem d')"
proof (rule ktriple_if)
  show "ktriple (slots_mem sp ss + dev_slots_mem e)
      (do { kbuf_free_slots sp ss n; State_Monad.return (Inl EBUSY, [], e) })
      (\<lambda>(r, w, d'). dev_slots_mem d')"
    by (rule ktriple_step [OF ktriple_kbuf_free_slots [OF new] refl]) (simp add: ktriple_return)
  show "ktriple (slots_mem sp ss + dev_slots_mem e)
      (do { kbuf_free_slots (slots_ptr e) (slots e) (num_buffers e);
        State_Monad.return (Inr (), w, resized rq sp ss e) })
      (\<lambda>(r, w, d'). dev_slots_mem d')"
    by (rule ktriple_step [OF ktriple_kbuf_free_slots [OF old], where F = "slots_mem sp ss"])
      (auto simp: ktriple_return resized_def)
qed

lemma ktriple_run:
  assumes "\<And>k r k'. run_state m k = (r, k') \<Longrightarrow> ktriple (P r) (f r) R" "ktriple P0 m P"
  shows "ktriple P0 (m \<bind> f) R"
proof (rule ktripleI)
  fix k F r k'
  assume h: "held k = Some (P0 + F)" and run: "run_state (m \<bind> f) k = (r, k')"
  obtain r1 k1 where m: "run_state m k = (r1, k1)" by fastforce
  have "held k1 = Some (P r1 + F)" by (rule ktripleD [OF assms(2) h m])
  moreover have "run_state (f r1) k1 = (r, k')" using run m by simp
  ultimately show "held k' = Some (R r + F)" by (rule ktripleD [OF assms(1) [OF m]])
qed

lemma ktriple_resize:
  assumes old: "slots_ok (unat (num_buffers (meanwhile d))) sz (slots (meanwhile d))"
    and same: "dev_slots_mem (meanwhile d) = dev_slots_mem d"
  shows "ktriple (dev_slots_mem d) (kbuf_ioc_resize u arg meanwhile d)
    (\<lambda>(r, w, d'). dev_slots_mem d')"
proof -
  let ?rq = "resize_of_bytes (fst (copy_from_user u (replicate 8 0) (ubytes arg 8)))"
  have "ktriple (dev_slots_mem d)
      (kbuf_alloc_slots (rq_num_buffers ?rq) (rq_buffer_size ?rq) \<bind> (\<lambda>new_slots.
        case new_slots of None \<Rightarrow> State_Monad.return (Inl ENOMEM, [], d)
        | Some (sp, ss) \<Rightarrow> if kbuf_occupancy (meanwhile d) \<noteq> 0
          then do { kbuf_free_slots sp ss (rq_num_buffers ?rq);
            State_Monad.return (Inl EBUSY, [], meanwhile d) }
          else do { kbuf_free_slots (slots_ptr (meanwhile d)) (slots (meanwhile d))
              (num_buffers (meanwhile d));
            State_Monad.return (Inr (), [WRITE_WQ], resized ?rq sp ss (meanwhile d)) }))
      (\<lambda>(r, w, d'). dev_slots_mem d')"
  proof (rule ktriple_run)
    show "ktriple (dev_slots_mem d) (kbuf_alloc_slots (rq_num_buffers ?rq) (rq_buffer_size ?rq))
      (\<lambda>r. (case r of None \<Rightarrow> {#} | Some (sp, ss) \<Rightarrow> slots_mem sp ss) + dev_slots_mem d)"
      by (rule ktriple_conseq [OF ktriple_kbuf_alloc_slots, where F = "dev_slots_mem d"]) simp_all
  next
    fix k r k'
    assume run: "run_state (kbuf_alloc_slots (rq_num_buffers ?rq) (rq_buffer_size ?rq)) k = (r, k')"
    show "ktriple ((case r of None \<Rightarrow> {#} | Some (sp, ss) \<Rightarrow> slots_mem sp ss) + dev_slots_mem d)
      (case r of None \<Rightarrow> State_Monad.return (Inl ENOMEM, [], d)
        | Some (sp, ss) \<Rightarrow> if kbuf_occupancy (meanwhile d) \<noteq> 0
          then do { kbuf_free_slots sp ss (rq_num_buffers ?rq);
            State_Monad.return (Inl EBUSY, [], meanwhile d) }
          else do { kbuf_free_slots (slots_ptr (meanwhile d)) (slots (meanwhile d))
              (num_buffers (meanwhile d));
            State_Monad.return (Inr (), [WRITE_WQ], resized ?rq sp ss (meanwhile d)) })
      (\<lambda>(r, w, d'). dev_slots_mem d')"
    proof (cases r)
      case (Some y)
      obtain sp ss where "y = (sp, ss)" by fastforce
      with Some run have "slots_ok (unat (rq_num_buffers ?rq)) (unat (rq_buffer_size ?rq)) ss"
        by (auto intro: kbuf_alloc_slots_ok(2))
      from resize_swap [OF old this, unfolded same] Some \<open>y = (sp, ss)\<close> show ?thesis
        by (simp only: option.case prod.case)
    qed (simp add: ktriple_return)
  qed
  then show ?thesis
    unfolding kbuf_ioc_resize_def split_beta Let_def resized_def by (simp add: ktriple_return)
qed

lemma slot_mem_update [simp]:
  "i < length ss \<Longrightarrow> data s = data (ss ! i) \<Longrightarrow> slot_mem (ss[i := s]) = slot_mem ss"
proof -
  assume "i < length ss" "data s = data (ss ! i)"
  then have "map (\<lambda>s. Mem (data s)) (ss[i := s]) = map (\<lambda>s. Mem (data s)) ss"
    by (simp add: map_update list_update_same_conv)
  then show ?thesis unfolding slot_mem_def by (metis mset_map)
qed

lemma slots_mem_update [simp]:
  "i < length ss \<Longrightarrow> data s = data (ss ! i) \<Longrightarrow> slots_mem sp (ss[i := s]) = slots_mem sp ss"
  by (simp add: slots_mem_def)

text \<open>Reads and writes never change which buffers a device owns.\<close>

lemma syscall_slots_mem:
  "syscall d u c = Some (r, d') \<Longrightarrow> dev_slots_mem d' = dev_slots_mem d"
  by (cases c)
    (auto simp: read_nonblock write_nonblock finish_read_def finish_write_def reply_of_def
      kbuf_ring_consume_def kbuf_spsc_consume_def kbuf_ring_produce_def kbuf_spsc_produce_def
      Let_def split: if_splits prod.splits)

text \<open>
  KBUF_IOCRESIZE neither leaks nor frees twice, on any path: before and after it, what the
  module owns is exactly the slot array of the device and whatever else it owned.
\<close>

theorem resize_ledger:
  assumes "run_state (kbuf_ioc_resize u arg meanwhile d) k = ((r, w, d'), k')"
    and "dev_ok (meanwhile d)" and "dev_slots_mem (meanwhile d) = dev_slots_mem d"
    and "held k = Some (dev_slots_mem d + F)"
  shows "held k' = Some (dev_slots_mem d' + F)"
proof -
  have "slots_ok (unat (num_buffers (meanwhile d))) (unat (buffer_size (meanwhile d)))
      (slots (meanwhile d))"
    using assms(2) by (auto simp: dev_ok_def ring_ok_def spsc_ok_def geom_ok_def split: if_splits)
  from ktripleD [OF ktriple_resize [of meanwhile d, OF this assms(3)] assms(4,1)] show ?thesis by simp
qed

text \<open>
  KBUF_IOCSMODE keeps the device well formed and loses no message: it succeeds only on an
  empty ring, and enters the lock-free mode only with a power-of-two number of slots.
\<close>

theorem smode_ok:
  assumes "dev_ok d" and "kbuf_ioc_smode u arg d = (r, d')"
  shows "dev_ok d' \<and> dev_msgs d' = dev_msgs d \<and>
    (case r of
       Inl e \<Rightarrow> d' = d \<and> (e = EBUSY \<longrightarrow> dev_msgs d \<noteq> [])
     | Inr _ \<Rightarrow> dev_msgs d = [] \<and> (mode d' = KBUF_MODE_SPSC \<longrightarrow> is_power_of_2 (num_buffers d')) \<and>
         mode d' = sint (le_word (fst (copy_from_user u (replicate 4 0) (ubytes arg 4))) :: u32))"
proof (cases r)
  case (Inl e)
  with assms show ?thesis
    by (auto simp: kbuf_ioc_smode_def Let_def occupancy_0_iff split: if_splits prod.splits)
next
  case (Inr x)
  from assms(1) have "geom_ok d" "unat (peak_count d) \<le> unat (num_buffers d)"
    by (auto simp: dev_ok_def ring_ok_def spsc_ok_def split: if_splits)
  moreover from Inr assms(2) have "dev_msgs d = []"
    by (auto simp: kbuf_ioc_smode_def Let_def occupancy_0_iff split: if_splits prod.splits)
  ultimately show ?thesis using Inr assms(2)
    by (auto simp: kbuf_ioc_smode_def Let_def dev_ok_def ring_ok_def spsc_ok_def geom_ok_def
        dev_msgs_def ring_msgs_def spsc_msgs_def split: if_splits prod.splits)
qed

lemma reset_frame [simp]:
  "dev_msgs (snd (kbuf_ioc_reset d)) = dev_msgs d"
  "mode (snd (kbuf_ioc_reset d)) = mode d"
  "dev_slots_mem (snd (kbuf_ioc_reset d)) = dev_slots_mem d"
  by (simp_all add: kbuf_ioc_reset_def dev_msgs_def ring_msgs_def spsc_msgs_def)

lemma reset_ok: "dev_ok d \<Longrightarrow> dev_ok (snd (kbuf_ioc_reset d))"
  by (auto simp: kbuf_ioc_reset_def dev_ok_def ring_ok_def spsc_ok_def geom_ok_def)

lemma getstats_ok:
  assumes "uaccess_ok u" "kbuf_ioc_getstats u d = (Inr (), out)"
  shows "stats_of_bytes out = \<lparr>
        st_bytes_produced = bytes_produced d, st_bytes_consumed = bytes_consumed d,
        st_msgs_produced = msgs_produced d, st_msgs_consumed = msgs_consumed d,
        st_read_sleeps = read_sleeps d, st_write_sleeps = write_sleeps d,
        st_num_buffers = num_buffers d, st_buffer_size = buffer_size d,
        st_cur_count = kbuf_occupancy d, st_peak_count = peak_count d\<rparr>"
  using assms by (auto simp: kbuf_ioc_getstats_def Let_def dest!: copy_to_user_ok
      split: if_splits prod.splits)

lemma fifo_law_lengths:
  assumes "fifo_law q tr q'"
  shows "length q + length (accepted tr) = length (delivered tr) + length q'"
proof -
  from assms obtain gone where "q @ accepted tr = gone @ q'"
    and "list_all2 (\<lambda>(n, out) m. out = take n m) (delivered tr) gone"
    by (auto simp: fifo_law_def)
  then show ?thesis by (metis length_append list_all2_lengthD)
qed

text \<open>
  C24: the statistics account for the traffic: after KBUF_IOCRESET on an empty device and any
  sequence of non-blocking calls, KBUF_IOCGSTATS reports exactly the messages and bytes accepted
  and delivered since (modulo 2^64), their difference is the number of messages queued, and that
  number never exceeds the number of slots.
\<close>

theorem stats_since_reset:
  assumes "dev_ok d" "dev_msgs d = []" "uaccess_ok u" "\<forall>(u, c) \<in> set cs. uaccess_ok u"
    and run: "exec syscall (snd (kbuf_ioc_reset d)) cs = Some (tr, d')"
    and st: "kbuf_ioc_getstats u d' = (Inr (), out)" "st = stats_of_bytes out"
  shows "st_msgs_produced st = of_nat (length (accepted tr)) \<and>
    st_msgs_consumed st = of_nat (length (delivered tr)) \<and>
    st_bytes_produced st = of_nat (sum_list (map length (accepted tr))) \<and>
    st_bytes_consumed st = of_nat (sum_list (map (\<lambda>(n, out). length out) (delivered tr))) \<and>
    unat (st_cur_count st) = length (dev_msgs d') \<and>
    st_msgs_produced st - st_msgs_consumed st = of_nat (unat (st_cur_count st)) \<and>
    st_cur_count st \<le> st_num_buffers st"
proof -
  let ?d = "snd (kbuf_ioc_reset d)"
  from device.exec_refines [OF reset_ok [OF assms(1)] assms(4)] run have
    q: "spec_run (unat (num_buffers ?d)) (unat (buffer_size ?d)) [] tr (dev_msgs d')" and
    n: "unat (num_buffers d') = unat (num_buffers ?d)"
    using assms(2) by auto
  have len: "length (accepted tr) = length (delivered tr) + length (dev_msgs d')"
    using fifo_law_lengths [OF spec_run_fifo [OF q]] by simp
  have "length (dev_msgs d') \<le> unat (num_buffers d')"
    using spec_run_bounded [OF q] n by simp
  moreover have "counted ?d tr d'" by (rule exec_counted [OF run assms(4)])
  ultimately show ?thesis using len
    unfolding st(2) getstats_ok [OF assms(3) st(1)]
    by (simp add: counted_def kbuf_ioc_reset_def length_dev_msgs word_le_nat_alt)
qed

section \<open>Sequences of calls and commands\<close>

text \<open>What processes do to one device, one at a time.\<close>

datatype cmd = Io uaccess call | Reset | Resize uaccess ubuf | Smode uaccess ubuf

fun cmd_step :: "cmd \<Rightarrow> kbuf_dev \<Rightarrow> (kst, ((call \<times> reply) list \<times> kbuf_dev) option) state" where
  "cmd_step (Io u c) d =
     State_Monad.return (map_option (\<lambda>(r, d'). ([(c, r)], d')) (syscall d u c))"
| "cmd_step Reset d = State_Monad.return (Some ([], snd (kbuf_ioc_reset d)))"
| "cmd_step (Resize u arg) d = do {
     (r, w, d') \<leftarrow> kbuf_ioc_resize u arg (\<lambda>d. d) d; State_Monad.return (Some ([], d')) }"
| "cmd_step (Smode u arg) d = State_Monad.return (Some ([], snd (kbuf_ioc_smode u arg d)))"

primrec cmd_run :: "cmd list \<Rightarrow> kbuf_dev \<Rightarrow> (kst, ((call \<times> reply) list \<times> kbuf_dev) option) state" where
  "cmd_run [] d = State_Monad.return (Some ([], d))"
| "cmd_run (c # cs) d = do {
     x \<leftarrow> cmd_step c d;
     case x of None \<Rightarrow> State_Monad.return None
     | Some (tr, d1) \<Rightarrow> do {
         y \<leftarrow> cmd_run cs d1;
         State_Monad.return (map_option (\<lambda>(tr', d2). (tr @ tr', d2)) y) } }"

fun cmd_ok :: "cmd \<Rightarrow> bool" where
  "cmd_ok (Io u c) = uaccess_ok u"
| "cmd_ok Reset = True"
| "cmd_ok (Resize u arg) = uaccess_ok u"
| "cmd_ok (Smode u arg) = uaccess_ok u"

lemma fifo_law_trans:
  assumes "fifo_law q tr q'" "fifo_law q' tr' q''"
  shows "fifo_law q (tr @ tr') q''"
proof -
  have acc: "accepted (tr @ tr') = accepted tr @ accepted tr'"
    by (induction tr rule: accepted.induct) simp_all
  have del: "delivered (tr @ tr') = delivered tr @ delivered tr'"
    by (induction tr rule: delivered.induct) simp_all
  from assms obtain g g' where
    "q @ accepted tr = g @ q'" "list_all2 (\<lambda>(n, out) m. out = take n m) (delivered tr) g"
    "q' @ accepted tr' = g' @ q''" "list_all2 (\<lambda>(n, out) m. out = take n m) (delivered tr') g'"
    by (auto simp: fifo_law_def)
  then show ?thesis unfolding fifo_law_def acc del
    by (intro exI [where x = "g @ g'"]) (metis append.assoc list_all2_appendI)
qed

lemma cmd_step_ok:
  assumes "dev_ok d" "cmd_ok c" "run_state (cmd_step c d) k = (x, k')"
    and "held k = Some (dev_slots_mem d + F)"
  shows "\<exists>tr d'. x = Some (tr, d') \<and> dev_ok d' \<and> fifo_law (dev_msgs d) tr (dev_msgs d') \<and>
    held k' = Some (dev_slots_mem d' + F)"
proof (cases c)
  case (Io u c')
  with assms device.serves [of d u c'] obtain r d' where
    1: "syscall d u c' = Some (r, d')" "dev_ok d'"
    and "spec_step (unat (num_buffers d)) (unat (buffer_size d)) (dev_msgs d) c' r (dev_msgs d')"
    by auto
  then have "spec_run (unat (num_buffers d)) (unat (buffer_size d)) (dev_msgs d) [(c', r)] (dev_msgs d')"
    by (auto intro: run_cons run_nil)
  with 1 Io assms syscall_slots_mem [OF 1(1)] spec_run_fifo show ?thesis by auto
next
  case Reset
  with assms reset_ok show ?thesis by (auto simp: fifo_law_nil)
next
  case (Smode u arg)
  obtain r d' where e: "kbuf_ioc_smode u arg d = (r, d')" by fastforce
  have "dev_slots_mem d' = dev_slots_mem d"
    using e by (auto simp: kbuf_ioc_smode_def Let_def split: if_splits prod.splits)
  with smode_ok [OF assms(1) e] Smode e assms show ?thesis by (auto simp: fifo_law_nil)
next
  case (Resize u arg)
  obtain r w d' k1 where e: "run_state (kbuf_ioc_resize u arg (\<lambda>d. d) d) k = ((r, w, d'), k1)"
    by (metis surj_pair)
  have h: "held k1 = Some (dev_slots_mem d' + F)"
    by (rule resize_ledger [OF e _ _ assms(4)]) (simp_all add: assms(1))
  have "dev_ok d' \<and> dev_msgs d' = dev_msgs d"
    using resize_ok [OF e assms(1)] assms(1) by (auto split: sum.splits if_splits)
  with Resize e h assms(3) show ?thesis by (auto simp: fifo_law_nil)
qed

lemma cmd_run_ok:
  "dev_ok d \<Longrightarrow> \<forall>c \<in> set cs. cmd_ok c \<Longrightarrow> run_state (cmd_run cs d) k = (x, k') \<Longrightarrow>
   held k = Some (dev_slots_mem d + F) \<Longrightarrow>
   \<exists>tr d'. x = Some (tr, d') \<and> dev_ok d' \<and> fifo_law (dev_msgs d) tr (dev_msgs d') \<and>
     held k' = Some (dev_slots_mem d' + F)"
proof (induction cs arbitrary: d k x k')
  case Nil
  then show ?case by (auto simp: fifo_law_nil)
next
  case (Cons c cs)
  obtain y k1 where 1: "run_state (cmd_step c d) k = (y, k1)" by fastforce
  from cmd_step_ok [OF Cons.prems(1) _ 1 Cons.prems(4)] Cons.prems(2) obtain tr1 d1 where
    y: "y = Some (tr1, d1)" "dev_ok d1" "fifo_law (dev_msgs d) tr1 (dev_msgs d1)"
      "held k1 = Some (dev_slots_mem d1 + F)" by auto
  obtain z k2 where 2: "run_state (cmd_run cs d1) k1 = (z, k2)" by fastforce
  from Cons.IH [OF y(2) _ 2 y(4)] Cons.prems(2) obtain tr2 d2 where
    z: "z = Some (tr2, d2)" "dev_ok d2" "fifo_law (dev_msgs d1) tr2 (dev_msgs d2)"
      "held k2 = Some (dev_slots_mem d2 + F)" by auto
  from Cons.prems(3) 1 y(1) 2 z(1) have "x = Some (tr1 @ tr2, d2)" "k' = k2" by auto
  with z y fifo_law_trans show ?case by blast
qed

text \<open>
  C9: the messages survive reconfiguration: whatever sequence of non-blocking reads and writes,
  resizes, mode switches and resets is run on a device, and whatever the kernel answers to the
  allocations, no access is out of bounds, the device stays well formed, its memory is neither
  leaked nor freed twice, and messages are delivered whole, in order and exactly once.
\<close>

theorem commands_fifo:
  assumes "dev_ok d" "\<forall>c \<in> set cs. cmd_ok c" "held k = Some (dev_slots_mem d + F)"
    and "run_state (cmd_run cs d) k = (x, k')"
  shows "\<exists>tr d'. x = Some (tr, d') \<and> dev_ok d' \<and> fifo_law (dev_msgs d) tr (dev_msgs d') \<and>
    held k' = Some (dev_slots_mem d' + F)"
  by (rule cmd_run_ok [OF assms(1,2,4,3)])

section \<open>Concrete commands\<close>

definition arg_of :: "u8 list \<Rightarrow> ubuf" where
  "arg_of bs = (\<lambda>i. if i < length bs then bs ! i else 0)"

lemma ubytes_arg_of [simp]: "n = length bs \<Longrightarrow> ubytes (arg_of bs) n = bs"
  by (rule nth_equalityI) (simp_all add: arg_of_def)

definition resize_arg :: "u32 \<Rightarrow> u32 \<Rightarrow> ubuf" where
  "resize_arg n sz = arg_of (resize_bytes \<lparr>rq_num_buffers = n, rq_buffer_size = sz\<rparr>)"

definition mode_arg :: "u32 \<Rightarrow> ubuf" where
  "mode_arg m = arg_of (le_bytes 4 m)"

lemma copy_resize_arg [simp]:
  "copy_from_user good_user (replicate 8 0) (ubytes (resize_arg n sz) 8) =
     (resize_bytes \<lparr>rq_num_buffers = n, rq_buffer_size = sz\<rparr>, 0)"
  by (simp add: resize_arg_def resize_bytes_def)

lemma copy_mode_arg [simp]:
  "copy_from_user good_user (replicate 4 0) (ubytes (mode_arg m) 4) = (le_bytes 4 m, 0)"
  by (simp add: mode_arg_def)

lemma resize_request_arg [simp]:
  "resize_request good_user (resize_arg n sz) = \<lparr>rq_num_buffers = n, rq_buffer_size = sz\<rparr>"
  by (simp add: resize_request_def del: good_user_simps)

text \<open>A kernel that grants every allocation, with the slots of the demo device accounted for.\<close>

definition demo_kst :: kst where
  "demo_kst = \<lparr>answers = (\<lambda>i. int i + 10), ticks = 0, calls = [Got (Mem 1), Got (Mem 2), Got (Mem 3)]\<rparr>"

lemma demo_held: "held demo_kst = Some (dev_slots_mem demo_dev + {#})"
  by (simp add: held_def ledger_def demo_kst_def slots_mem_def demo_simps add_mset_commute)

lemma demo_alloc3:
  "run_state (kbuf_alloc_slots 3 1) demo_kst = (Some (10,
     [\<lparr>data = 11, bytes = [12], len = 0\<rparr>, \<lparr>data = 13, bytes = [14], len = 0\<rparr>,
      \<lparr>data = 15, bytes = [16], len = 0\<rparr>]),
     demo_kst\<lparr>ticks := 7, calls := calls demo_kst @ [Got (Mem 10), Got (Mem 11), Got (Mem 13), Got (Mem 15)]\<rparr>)"
  by (simp add: kbuf_alloc_slots_def kmalloc_def ask_ptr_def ask_def ask_bytes_def tell_def
      demo_kst_def State_Monad.bind_def State_Monad.return_def)

lemma demo_alloc1:
  "run_state (kbuf_alloc_slots 1 1) demo_kst = (Some (10, [\<lparr>data = 11, bytes = [12], len = 0\<rparr>]),
     demo_kst\<lparr>ticks := 3, calls := calls demo_kst @ [Got (Mem 10), Got (Mem 11)]\<rparr>)"
  by (simp add: kbuf_alloc_slots_def kmalloc_def ask_ptr_def ask_def ask_bytes_def tell_def
      demo_kst_def State_Monad.bind_def State_Monad.return_def)

lemma demo_resize1: "\<exists>k'. run_state (kbuf_ioc_resize good_user (resize_arg 1 1) (\<lambda>d. d) demo_dev) demo_kst =
    ((Inr (), [WRITE_WQ], resized \<lparr>rq_num_buffers = 1, rq_buffer_size = 1\<rparr> 10
      [\<lparr>data = 11, bytes = [12], len = 0\<rparr>] demo_dev), k')"
  by (rule resize_succeeds [OF copy_resize_arg])
    (simp_all add: KBUF_MAX_NUM_BUFFERS_def KBUF_MAX_BUFFER_SIZE_def demo_alloc1,
      simp_all add: demo_simps)

theorem resize_keeps_messages_witness:
  "\<exists>w d' k'. run_state (kbuf_ioc_resize good_user (resize_arg 1 1) (\<lambda>d. d) demo_dev) demo_kst =
     ((Inr (), w, d'), k') \<and> dev_ok d' \<and> num_buffers d' = 1"
proof -
  obtain w d' k' where run: "run_state
      (kbuf_ioc_resize good_user (resize_arg 1 1) (\<lambda>d. d) demo_dev) demo_kst = ((Inr (), w, d'), k')"
    using demo_resize1 by blast
  from run resize_keeps_messages [OF run] show ?thesis by auto
qed

theorem resize_ledger_witness:
  "\<exists>w d' k'. run_state (kbuf_ioc_resize good_user (resize_arg 1 1) (\<lambda>d. d) demo_dev) demo_kst =
     ((Inr (), w, d'), k') \<and> held k' = Some {#Mem 10, Mem 11#}"
proof -
  obtain k' where run: "run_state
      (kbuf_ioc_resize good_user (resize_arg 1 1) (\<lambda>d. d) demo_dev) demo_kst =
      ((Inr (), [WRITE_WQ], resized \<lparr>rq_num_buffers = 1, rq_buffer_size = 1\<rparr> 10
      [\<lparr>data = 11, bytes = [12], len = 0\<rparr>] demo_dev), k')"
    using demo_resize1 by blast
  from run resize_ledger [OF run _ _ demo_held] show ?thesis
    by (simp add: resized_def slots_mem_def)
qed

theorem smode_ok_witness:
  "kbuf_ioc_smode good_user (mode_arg 1) demo_dev = (Inr (), demo_dev\<lparr>mode := 1\<rparr>) \<and>
   dev_ok (demo_dev\<lparr>mode := 1\<rparr>)"
proof -
  have run: "kbuf_ioc_smode good_user (mode_arg 1) demo_dev = (Inr (), demo_dev\<lparr>mode := 1\<rparr>)"
    unfolding kbuf_ioc_smode_def copy_mode_arg
    by (simp add: kbuf_occupancy_def demo_simps)
  from smode_ok [OF demo_ok(1) run] run show ?thesis by simp
qed

theorem stats_since_reset_witness:
  "\<exists>tr d' out. exec syscall (snd (kbuf_ioc_reset demo_spsc)) demo_calls = Some (tr, d') \<and>
     kbuf_ioc_getstats good_user d' = (Inr (), out) \<and>
     st_msgs_produced (stats_of_bytes out) = of_nat (length (accepted tr)) \<and>
     unat (st_cur_count (stats_of_bytes out)) = length (dev_msgs d')"
proof -
  have r: "snd (kbuf_ioc_reset demo_spsc) = demo_spsc"
    by (simp add: kbuf_ioc_reset_def demo_simps)
  obtain out where g: "kbuf_ioc_getstats good_user demo_end = (Inr (), out)"
    by (simp add: kbuf_ioc_getstats_def Let_def)
  have e: "dev_msgs demo_spsc = []" by (simp add: demo_simps)
  from stats_since_reset [OF demo_ok(2) e uaccess_ok_good demo_calls_ok, unfolded r,
      OF demo_run g refl] g demo_run
  show ?thesis unfolding r by auto
qed

theorem commands_fifo_witness:
  "\<exists>x k'. run_state (cmd_run [Io good_user (Write (\<lambda>_. 5) 1), Resize good_user (resize_arg 1 1),
       Smode good_user (mode_arg 1), Io good_user (Read 1), Reset] demo_dev) demo_kst = (x, k') \<and>
     (\<exists>tr d'. x = Some (tr, d') \<and> dev_ok d' \<and> fifo_law [] tr (dev_msgs d') \<and>
        held k' = Some (dev_slots_mem d'))"
proof -
  obtain x k' where run: "run_state (cmd_run [Io good_user (Write (\<lambda>_. 5) 1),
      Resize good_user (resize_arg 1 1), Smode good_user (mode_arg 1), Io good_user (Read 1), Reset]
      demo_dev) demo_kst = (x, k')" by fastforce
  have e: "dev_msgs demo_dev = []" by (simp add: demo_simps)
  from commands_fifo [OF demo_ok(1) _ demo_held run] run e show ?thesis by (simp del: cmd_run.simps)
qed

end
