(* ===== verification/Kbuf_Races.thy ===== *)
theory Kbuf_Races
  imports Kbuf_Ioctl
begin

text \<open>
  The limits of the guarantees: interleavings of the device operations that the locking of the
  driver admits and that break a device or lose a message, each shown on a concrete run. They
  delimit the hypotheses of the positive theorems: the slot size may not shrink under a sleeping
  writer, the mode may not change in the window of a resize.
\<close>

section \<open>A resize under a sleeping writer\<close>

text \<open>
  While a writer sleeps on the full demo device, other processes drain it and resize it to one slot
  of one byte.
\<close>

definition drain :: "kbuf_dev \<Rightarrow> kbuf_dev" where
  "drain d = (case exec syscall d [(good_user, Read 9), (good_user, Read 9)] of
     None \<Rightarrow> d | Some (tr, d') \<Rightarrow> d')"

definition shrink :: "kbuf_dev \<Rightarrow> kbuf_dev" where
  "shrink d = snd (snd (fst (run_state
     (kbuf_ioc_resize good_user (resize_arg 1 1) (\<lambda>d. d) d) demo_kst)))"

definition shrunk :: sched where
  "shrunk = calm\<lparr>others := \<lambda>_ d. shrink (drain d)\<rparr>"

lemma shrink_empty:
  assumes "mode d = KBUF_MODE_BLOCKING" "dev_msgs d = []"
  shows "shrink d = resized \<lparr>rq_num_buffers = 1, rq_buffer_size = 1\<rparr> 10
      [\<lparr>data = 11, bytes = [12], len = 0\<rparr>] d"
proof -
  have "\<exists>k'. run_state (kbuf_ioc_resize good_user (resize_arg 1 1) (\<lambda>d. d) d) demo_kst =
    ((Inr (), [WRITE_WQ], resized \<lparr>rq_num_buffers = 1, rq_buffer_size = 1\<rparr> 10
      [\<lparr>data = 11, bytes = [12], len = 0\<rparr>] d), k')"
    by (rule resize_succeeds [OF copy_resize_arg])
      (use assms in \<open>simp_all add: KBUF_MAX_NUM_BUFFERS_def KBUF_MAX_BUFFER_SIZE_def demo_alloc1\<close>)
  then show ?thesis by (auto simp: shrink_def)
qed

lemma drain_demo_full:
  "drain (demo_full\<lparr>write_sleeps := 1\<rparr>) = demo_full\<lparr>write_sleeps := 1, read_pos := 0, ring_count := 0,
     bytes_consumed := 2, msgs_consumed := 2\<rparr>"
  by (simp add: drain_def op_simps demo_full_def demo_simps)

text \<open>
  \<open>kbuf_write_blocking\<close> clamps the count to the slot size before it sleeps and not again
  after: a writer that entered with two bytes copies them into the one-byte slot of the resized
  ring, beyond the end of the heap buffer.
\<close>

theorem write_resize_overflow:
  "dev_ok demo_full \<and> kbuf_write shrunk good_user False (\<lambda>_. 7) 2 demo_full = Some None"
proof -
  let ?e = "demo_full\<lparr>write_sleeps := 1, read_pos := 0, ring_count := 0,
     bytes_consumed := 2, msgs_consumed := 2\<rparr>"
  have ok: "dev_ok demo_full" by (simp add: demo_full_def demo_simps)
  have "shrink ?e = resized \<lparr>rq_num_buffers = 1, rq_buffer_size = 1\<rparr> 10
      [\<lparr>data = 11, bytes = [12], len = 0\<rparr>] ?e"
    by (rule shrink_empty) (simp_all add: demo_full_def demo_simps)
  then have e: "others shrunk 0 (demo_full\<lparr>write_sleeps := 1\<rparr>) =
      resized \<lparr>rq_num_buffers = 1, rq_buffer_size = 1\<rparr> 10 [\<lparr>data = 11, bytes = [12], len = 0\<rparr>] ?e"
    by (simp add: shrunk_def drain_demo_full)
  have f: "kbuf_ring_is_full demo_full" "mode demo_full = 0" "buffer_size demo_full = 2"
    "write_sleeps demo_full = 0" "\<not> lock_intr shrunk i" "\<not> wait_intr shrunk i" for i
    by (simp_all add: demo_full_def demo_simps kbuf_ring_is_full_def shrunk_def)
  have "kbuf_write shrunk good_user False (\<lambda>_. 7) 2 demo_full =
      write_blocking_loop shrunk good_user False (\<lambda>_. 7) 2 1 (others shrunk 0 (demo_full\<lparr>write_sleeps := 1\<rparr>))"
    by (simp add: kbuf_write_def kbuf_write_blocking_def f
        write_blocking_loop.simps [of shrunk good_user False _ 2 0 demo_full])
  also have "\<dots> = Some None"
    unfolding e by (subst write_blocking_loop.simps)
      (simp add: resized_def kbuf_ring_is_full_def kbuf_ring_produce_def finish_write_def
        demo_full_def demo_simps)
  finally show ?thesis using ok by simp
qed

section \<open>A mode switch in the window of a resize\<close>

definition switch_to_spsc :: "kbuf_dev \<Rightarrow> kbuf_dev" where
  "switch_to_spsc d = snd (kbuf_ioc_smode good_user (mode_arg 1) d)"

definition raced :: kbuf_dev where
  "raced = resized \<lparr>rq_num_buffers = 3, rq_buffer_size = 1\<rparr> 10
     [\<lparr>data = 11, bytes = [12], len = 0\<rparr>, \<lparr>data = 13, bytes = [14], len = 0\<rparr>,
      \<lparr>data = 15, bytes = [16], len = 0\<rparr>] (demo_dev\<lparr>mode := 1\<rparr>)"

lemma switch_demo: "switch_to_spsc demo_dev = demo_dev\<lparr>mode := 1\<rparr>"
  unfolding switch_to_spsc_def kbuf_ioc_smode_def copy_mode_arg
  by (simp add: kbuf_occupancy_def demo_simps)

text \<open>
  \<open>kbuf_ioc_resize\<close> tests for the lock-free mode before it takes the lock. A mode switch
  between the test and the lock leaves a lock-free ring of three slots, and two messages written
  to it share a slot: the first is lost and the second delivered twice.
\<close>

theorem resize_mode_race:
  "(\<exists>k'. run_state (kbuf_ioc_resize good_user (resize_arg 3 1) switch_to_spsc demo_dev) demo_kst =
      ((Inr (), [WRITE_WQ], raced), k')) \<and>
   dev_ok demo_dev \<and> dev_ok (switch_to_spsc demo_dev) \<and> \<not> dev_ok raced \<and>
   (\<exists>d'. exec syscall raced [(good_user, Write (\<lambda>_. 1) 1), (good_user, Write (\<lambda>_. 2) 1),
        (good_user, Read 1), (good_user, Read 1)] =
      Some ([(Write (\<lambda>_. 1) 1, Done 1 []), (Write (\<lambda>_. 2) 1, Done 1 []),
        (Read 1, Done 1 [2]), (Read 1, Done 1 [2])], d'))"
proof (intro conjI)
  show "\<exists>k'. run_state (kbuf_ioc_resize good_user (resize_arg 3 1) switch_to_spsc demo_dev) demo_kst =
      ((Inr (), [WRITE_WQ], raced), k')"
    unfolding raced_def switch_demo [symmetric]
  proof (rule resize_succeeds [OF copy_resize_arg])
    show "dev_msgs (switch_to_spsc demo_dev) = []" unfolding switch_demo by (simp add: demo_simps)
    show "mode demo_dev = KBUF_MODE_SPSC \<longrightarrow>
        is_power_of_2 (rq_num_buffers \<lparr>rq_num_buffers = 3, rq_buffer_size = 1\<rparr>)"
      by (simp add: demo_simps)
  qed (simp_all add: KBUF_MAX_NUM_BUFFERS_def KBUF_MAX_BUFFER_SIZE_def demo_alloc3)
  show "dev_ok (switch_to_spsc demo_dev)" unfolding switch_demo by (simp add: demo_simps)
  show "\<not> dev_ok raced" by (simp add: raced_def resized_def demo_simps)
  show "\<exists>d'. exec syscall raced [(good_user, Write (\<lambda>_. 1) 1), (good_user, Write (\<lambda>_. 2) 1),
        (good_user, Read 1), (good_user, Read 1)] =
      Some ([(Write (\<lambda>_. 1) 1, Done 1 []), (Write (\<lambda>_. 2) 1, Done 1 []),
        (Read 1, Done 1 [2]), (Read 1, Done 1 [2])], d')"
    by (simp add: raced_def resized_def op_simps demo_simps, simp add: word_le_nat_alt)
qed simp

section \<open>The peak after a reset in the lock-free mode\<close>

text \<open>
  \<open>kbuf_ioc_reset\<close> sets the peak to \<open>dev->count\<close>, which the lock-free mode does not
  use: with a message queued the peak is reported as zero, below the current depth.
\<close>

theorem reset_peak_spsc:
  assumes "dev_ok d" "mode d = KBUF_MODE_SPSC" "dev_msgs d \<noteq> []"
  shows "peak_count (snd (kbuf_ioc_reset d)) = 0 \<and>
    peak_count (snd (kbuf_ioc_reset d)) < kbuf_occupancy (snd (kbuf_ioc_reset d))"
proof -
  have "kbuf_occupancy (snd (kbuf_ioc_reset d)) \<noteq> 0"
    using assms(3) by (simp add: occupancy_0_iff)
  moreover have "peak_count (snd (kbuf_ioc_reset d)) = 0"
    using assms(1,2) by (simp add: kbuf_ioc_reset_def dev_ok_def)
  ultimately show ?thesis by (simp add: word_neq_0_conv)
qed

end
