(* ===== verification/Kbuf_Mmap.thy ===== *)
theory Kbuf_Mmap
  imports Kbuf_Dev
begin

text \<open>
  The buffers of a device that are shared with user space (src/kbuf_mmap.c): their allocation and
  release, the checks of the mmap file operation and the fault handler, whose page arithmetic maps
  the data buffer twice in a row behind the control page. The page size and the kernel's
  \<open>vmalloc_to_page\<close> are parameters.
\<close>

section \<open>Allocation and release\<close>

definition vfree :: "ptr \<Rightarrow> (kst, unit) state" where
  "vfree p = (if p = 0 then State_Monad.return () else tell (Gave (VMem p)))"

text \<open>\<open>vmalloc_user\<close> hands out zeroed memory.\<close>

definition kbuf_mmap_dev_alloc :: "kbuf_dev \<Rightarrow> (kst, unit result \<times> kbuf_dev) state" where
  "kbuf_mmap_dev_alloc d = do {
     c \<leftarrow> ask_ptr VMem;
     let d = d\<lparr>mmap_ctrl := c\<rparr>;
     if c = 0 then State_Monad.return (Inl ENOMEM, d)
     else do {
       p \<leftarrow> ask_ptr VMem;
       let d = d\<lparr>mmap_data := p\<rparr>;
       if p = 0 then do {
         vfree c;
         State_Monad.return (Inl ENOMEM, d\<lparr>mmap_ctrl := 0\<rparr>) }
       else State_Monad.return (Inr (), d\<lparr>
         data_bytes := replicate KBUF_MMAP_CAPACITY 0,
         ctrl_page := \<lparr>head = 0, tail = 0, capacity = of_nat KBUF_MMAP_CAPACITY\<rparr>\<rparr>) } }"

definition kbuf_mmap_dev_free :: "kbuf_dev \<Rightarrow> (kst, kbuf_dev) state" where
  "kbuf_mmap_dev_free d = do {
     vfree (mmap_data d);
     vfree (mmap_ctrl d);
     State_Monad.return (d\<lparr>mmap_data := 0, mmap_ctrl := 0\<rparr>) }"

section \<open>The fault handler\<close>

datatype 'p vm_fault = VM_FAULT_SIGBUS | Page 'p

definition kbuf_vm_fault :: "nat \<Rightarrow> (ptr \<Rightarrow> 'p option) \<Rightarrow> kbuf_dev \<Rightarrow> nat \<Rightarrow> 'p vm_fault" where
  "kbuf_vm_fault PAGE_SIZE vmalloc_to_page d pgoff =
     (let data_pages = KBUF_MMAP_CAPACITY div PAGE_SIZE;
          kaddr = (if pgoff = 0 then mmap_ctrl d
                   else let idx = (pgoff - 1) mod data_pages in mmap_data d + int (idx * PAGE_SIZE)) in
      case vmalloc_to_page kaddr of None \<Rightarrow> VM_FAULT_SIGBUS | Some page \<Rightarrow> Page page)"

section \<open>The mmap file operation\<close>

record vm_area =
  vm_start :: u64
  vm_end :: u64
  vm_pgoff :: u64
  vm_private_data :: "kbuf_dev option"
  vm_dontexpand :: bool
  vm_dontdump :: bool
  vm_ops_set :: bool

definition kbuf_mmap :: "u64 \<Rightarrow> kbuf_dev \<Rightarrow> vm_area \<Rightarrow> unit result \<times> vm_area" where
  "kbuf_mmap PAGE_SIZE d vma =
     (let sz = vm_end vma - vm_start vma;
          expected = PAGE_SIZE + 2 * of_nat KBUF_MMAP_CAPACITY in
      if vm_pgoff vma \<noteq> 0 then (Inl EINVAL, vma)
      else if sz \<noteq> expected then (Inl EINVAL, vma)
      else (Inr (), vma\<lparr>vm_private_data := Some d, vm_dontexpand := True, vm_dontdump := True,
        vm_ops_set := True\<rparr>))"

section \<open>What the mapping shows\<close>

text \<open>
  A user access at byte \<open>off\<close> of the mapping goes to the page the fault handler gives for it;
  a kernel address lies on the page \<open>vmalloc_to_page\<close> gives for its page.
\<close>

definition user_byte :: "nat \<Rightarrow> (ptr \<Rightarrow> 'p option) \<Rightarrow> kbuf_dev \<Rightarrow> nat \<Rightarrow> ('p \<times> nat) option" where
  "user_byte ps page_of d off = (case kbuf_vm_fault ps page_of d (off div ps) of
     VM_FAULT_SIGBUS \<Rightarrow> None | Page pg \<Rightarrow> Some (pg, off mod ps))"

definition kernel_byte :: "nat \<Rightarrow> (ptr \<Rightarrow> 'p option) \<Rightarrow> ptr \<Rightarrow> nat \<Rightarrow> ('p \<times> nat) option" where
  "kernel_byte ps page_of base off =
     map_option (\<lambda>pg. (pg, off mod ps)) (page_of (base + int (off div ps * ps)))"

lemma data_page_index:
  fixes ps cap off :: nat
  assumes "0 < ps" "ps dvd cap" "0 < cap"
  shows "off div ps mod (cap div ps) = off mod cap div ps" "off mod cap mod ps = off mod ps"
proof -
  from assms obtain m where m: "cap = ps * m" by (auto simp: dvd_def)
  then show "off div ps mod (cap div ps) = off mod cap div ps"
    using assms by (simp add: mod_mult2_eq)
  show "off mod cap mod ps = off mod ps" using assms(2) by (rule mod_mod_cancel)
qed

lemma user_byte_data:
  assumes "0 < ps" "ps dvd KBUF_MMAP_CAPACITY"
  shows "user_byte ps page_of d (ps + off) =
    kernel_byte ps page_of (mmap_data d) (off mod KBUF_MMAP_CAPACITY)"
proof -
  have "(0::nat) < KBUF_MMAP_CAPACITY" by (simp add: KBUF_MMAP_CAPACITY_def)
  note idx = data_page_index [OF assms this, of off]
  have "(ps + off) div ps = Suc (off div ps)" "(ps + off) mod ps = off mod ps"
    using assms(1) div_add_self1 [of ps off] by simp_all
  then show ?thesis
    by (simp add: user_byte_def kernel_byte_def kbuf_vm_fault_def Let_def idx split: option.split)
qed

lemma user_byte_ctrl:
  "off < ps \<Longrightarrow> user_byte ps page_of d off = kernel_byte ps page_of (mmap_ctrl d) off"
  by (simp add: user_byte_def kernel_byte_def kbuf_vm_fault_def Let_def split: option.split)

text \<open>
  C11: the magic ring: behind the control page, the mapping shows the data buffer twice in a row.
  Byte \<open>off\<close> of the data part of the mapping is byte \<open>off\<close> modulo the capacity of
  the data buffer, through the same page the kernel uses for it, for every page size that divides
  the capacity; the first page is the control page.
\<close>

theorem magic_ring:
  assumes "0 < ps" "ps dvd KBUF_MMAP_CAPACITY"
  shows "user_byte ps page_of d (ps + off) =
      kernel_byte ps page_of (mmap_data d) (off mod KBUF_MMAP_CAPACITY) \<and>
    (off < ps \<longrightarrow> user_byte ps page_of d off = kernel_byte ps page_of (mmap_ctrl d) off)"
  using user_byte_data [OF assms] user_byte_ctrl by blast

theorem magic_ring_witness:
  "user_byte 4096 Some (zero_dev\<lparr>mmap_ctrl := 8192, mmap_data := 65536\<rparr>) (4096 + 65541) = Some (65536, 5)"
  using magic_ring [of 4096 Some "zero_dev\<lparr>mmap_ctrl := 8192, mmap_data := 65536\<rparr>" 65541]
  by (simp add: KBUF_MMAP_CAPACITY_def kernel_byte_def)

text \<open>
  C25: every page of an accepted mapping is backed by the device: kbuf_mmap accepts only a mapping
  that starts at offset 0 and is exactly one page plus twice the capacity long, and the fault
  handler resolves each page of such a mapping to an address inside the control page or inside the
  data buffer.
\<close>

theorem mmap_faults_inside:
  assumes "kbuf_mmap (of_nat ps) d vma = (Inr (), vma')" "0 < ps" "ps dvd KBUF_MMAP_CAPACITY"
  shows "vm_pgoff vma' = 0 \<and> vm_private_data vma' = Some d \<and> vm_dontexpand vma' \<and>
    unat (vm_end vma' - vm_start vma') = ps + 2 * KBUF_MMAP_CAPACITY \<and>
    (\<exists>a. kbuf_vm_fault ps Some d pgoff = Page a \<and>
      (a = mmap_ctrl d \<or>
       mmap_data d \<le> a \<and> a + int ps \<le> mmap_data d + int KBUF_MMAP_CAPACITY))"
proof -
  from assms(1) have v: "vm_end vma - vm_start vma = of_nat ps + 2 * of_nat KBUF_MMAP_CAPACITY"
    "vm_pgoff vma = 0"
    "vma' = vma\<lparr>vm_private_data := Some d, vm_dontexpand := True, vm_dontdump := True, vm_ops_set := True\<rparr>"
    by (auto simp: kbuf_mmap_def Let_def split: if_splits)
  have cap: "(0::nat) < KBUF_MMAP_CAPACITY" by (simp add: KBUF_MMAP_CAPACITY_def)
  then have "ps \<le> KBUF_MMAP_CAPACITY" using assms(3) by (auto intro: dvd_imp_le)
  then have "ps + 2 * KBUF_MMAP_CAPACITY < 2 ^ 64" by (simp add: KBUF_MMAP_CAPACITY_def)
  then have "unat (of_nat (ps + 2 * KBUF_MMAP_CAPACITY) :: u64) = ps + 2 * KBUF_MMAP_CAPACITY"
    by (simp only: unat_of_nat) simp
  then have sz: "unat (vm_end vma - vm_start vma) = ps + 2 * KBUF_MMAP_CAPACITY"
    by (simp add: v(1))
  let ?n = "KBUF_MMAP_CAPACITY div ps" and ?i = "(pgoff - 1) mod (KBUF_MMAP_CAPACITY div ps)"
  have "0 < ?n" using assms(2) \<open>ps \<le> KBUF_MMAP_CAPACITY\<close> by (simp add: div_greater_zero_iff)
  then have "Suc ?i \<le> ?n" by (simp add: Suc_leI)
  then have "Suc ?i * ps \<le> ?n * ps" by (rule mult_le_mono1)
  then have "?i * ps + ps \<le> KBUF_MMAP_CAPACITY" using assms(3) by simp
  then have "int (?i * ps) + int ps \<le> int KBUF_MMAP_CAPACITY" by linarith
  then show ?thesis using sz v(2)
    by (simp add: v(3) kbuf_vm_fault_def Let_def)
qed

theorem mmap_faults_inside_witness:
  "\<exists>vma'. kbuf_mmap 4096 zero_dev \<lparr>vm_start = 0x10000, vm_end = 0x10000 + 4096 + 131072, vm_pgoff = 0,
      vm_private_data = None, vm_dontexpand = False, vm_dontdump = False, vm_ops_set = False\<rparr> = (Inr (), vma') \<and>
    vm_pgoff vma' = 0 \<and> kbuf_vm_fault 4096 Some zero_dev 32 = Page (15 * 4096)"
  using mmap_faults_inside [of 4096 zero_dev "\<lparr>vm_start = 0x10000, vm_end = 0x10000 + 4096 + 131072,
      vm_pgoff = 0, vm_private_data = None, vm_dontexpand = False, vm_dontdump = False, vm_ops_set = False\<rparr>" _ 32]
  by (simp add: kbuf_mmap_def KBUF_MMAP_CAPACITY_def kbuf_vm_fault_def zero_dev_def)

section \<open>Ledger\<close>

definition mmap_mem :: "kbuf_dev \<Rightarrow> kobj multiset" where
  "mmap_mem d = (if mmap_ctrl d = 0 then {#} else {#VMem (mmap_ctrl d)#}) +
     (if mmap_data d = 0 then {#} else {#VMem (mmap_data d)#})"

definition mmap_ok :: "kbuf_dev \<Rightarrow> bool" where
  "mmap_ok d \<longleftrightarrow> mmap_ctrl d \<noteq> 0 \<and> mmap_data d \<noteq> 0 \<and> length (data_bytes d) = KBUF_MMAP_CAPACITY \<and>
     capacity (ctrl_page d) = of_nat KBUF_MMAP_CAPACITY"

lemma ktriple_vfree: "ktriple (if p = 0 then {#} else {#VMem p#}) (vfree p) (\<lambda>_. {#})"
  by (simp add: vfree_def ktriple_gave ktriple_return)

lemma ktriple_mmap_dev_free: "ktriple (mmap_mem d) (kbuf_mmap_dev_free d) (\<lambda>_. {#})"
  unfolding kbuf_mmap_dev_free_def mmap_mem_def
  by (rule ktriple_step [OF ktriple_vfree, where F = "if mmap_ctrl d = 0 then {#} else {#VMem (mmap_ctrl d)#}"],
      simp, rule ktriple_step [OF ktriple_vfree, where F = "{#}"]) (simp_all add: ktriple_return)

lemma ktriple_mmap_dev_alloc:
  "mmap_mem d = {#} \<Longrightarrow> ktriple {#} (kbuf_mmap_dev_alloc d) (\<lambda>(r, d'). if isl r then {#} else mmap_mem d')"
  unfolding kbuf_mmap_dev_alloc_def Let_def
  apply (rule ktriple_bind [OF ktriple_ask_ptr], rule ktriple_if, simp add: ktriple_return)
  subgoal for c
    by (rule ktriple_step [OF ktriple_ask_ptr, where F = "{#VMem c#}"], simp, rule ktriple_if,
      rule ktriple_step [OF ktriple_vfree [of c], where F = "{#}"])
      (simp_all add: ktriple_return mmap_mem_def add_mset_commute)
  done

lemma mmap_dev_alloc_result:
  assumes "run_state (kbuf_mmap_dev_alloc d) k = ((r, d'), k')"
  shows "d' = d\<lparr>mmap_ctrl := mmap_ctrl d', mmap_data := mmap_data d', data_bytes := data_bytes d',
      ctrl_page := ctrl_page d'\<rparr> \<and>
    (case r of Inr _ \<Rightarrow> mmap_ok d' | Inl e \<Rightarrow> e = ENOMEM \<and> mmap_ctrl d' = 0)"
  using assms
  by (auto simp: kbuf_mmap_dev_alloc_def Let_def mmap_ok_def split: if_splits prod.splits)

end
