(* ===== verification/Kbuf_Libkbuf.thy ===== *)
theory Kbuf_Libkbuf
  imports Kbuf_Mmap
begin

text \<open>
  The user-space library include/libkbuf.h: a single producer and a single consumer exchange a
  stream of bytes through the mapping of a device. The indices are free-running 64-bit words, the
  data is copied through the double mapping: every byte goes where the driver's fault handler
  resolves its address, and an access outside the mapping is \<open>None\<close>.
\<close>

section \<open>Accesses through the mapping\<close>

text \<open>Pages are identified by their kernel address.\<close>

definition data_at :: "nat \<Rightarrow> kbuf_dev \<Rightarrow> nat \<Rightarrow> nat option" where
  "data_at ps d off =
     (if off < ps \<or> ps + 2 * KBUF_MMAP_CAPACITY \<le> off then None
      else map_option (\<lambda>(a, i). nat (a - mmap_data d) + i) (user_byte ps Some d off))"

primrec memcpy_to :: "nat \<Rightarrow> kbuf_dev \<Rightarrow> nat \<Rightarrow> u8 list \<Rightarrow> kbuf_dev option" where
  "memcpy_to ps d off [] = Some d"
| "memcpy_to ps d off (v # vs) = (case data_at ps d off of
     None \<Rightarrow> None
   | Some i \<Rightarrow> if i < length (data_bytes d)
       then memcpy_to ps (d\<lparr>data_bytes := (data_bytes d)[i := v]\<rparr>) (Suc off) vs else None)"

primrec memcpy_from :: "nat \<Rightarrow> kbuf_dev \<Rightarrow> nat \<Rightarrow> nat \<Rightarrow> u8 list option" where
  "memcpy_from ps d off 0 = Some []"
| "memcpy_from ps d off (Suc n) = (case data_at ps d off of
     None \<Rightarrow> None
   | Some i \<Rightarrow> if i < length (data_bytes d)
       then map_option (\<lambda>vs. data_bytes d ! i # vs) (memcpy_from ps d (Suc off) n) else None)"

section \<open>The library\<close>

record kbuf_map =
  km_base :: ptr
  km_ctrl :: ptr
  km_data :: ptr
  km_cap :: u64
  km_maplen :: u64

text \<open>The system call \<open>mmap\<close> is a parameter: the address for a length, or a failure.\<close>

definition kbuf_map_open :: "u64 \<Rightarrow> (u64 \<Rightarrow> ptr option) \<Rightarrow> kbuf_map \<Rightarrow> int \<times> kbuf_map" where
  "kbuf_map_open pg mmap m =
     (let cap = of_nat KBUF_MMAP_CAPACITY; len = pg + 2 * cap in
      case mmap len of
        None \<Rightarrow> (- 1, m)
      | Some base \<Rightarrow> (0, m\<lparr>km_base := base, km_ctrl := base, km_data := base + int (unat pg),
          km_cap := cap, km_maplen := len\<rparr>))"

text \<open>Closing: the range unmapped, if any, and the map left behind.\<close>

definition kbuf_map_close :: "kbuf_map \<Rightarrow> (ptr \<times> u64) option \<times> kbuf_map" where
  "kbuf_map_close m =
     (if km_base m \<noteq> 0 then Some (km_base m, km_maplen m) else None, m\<lparr>km_base := 0\<rparr>)"

definition kbuf_map_reset :: "kbuf_dev \<Rightarrow> kbuf_dev" where
  "kbuf_map_reset d = d\<lparr>ctrl_page := (ctrl_page d)\<lparr>head := 0, tail := 0\<rparr>\<rparr>"

definition kbuf_map_write :: "nat \<Rightarrow> kbuf_map \<Rightarrow> kbuf_dev \<Rightarrow> ubuf \<Rightarrow> u64 \<Rightarrow> (u64 \<times> kbuf_dev) option" where
  "kbuf_map_write ps m d buf n =
     (let h = head (ctrl_page d); t = tail (ctrl_page d);
          space = km_cap m - (h - t);
          n = (if n > space then space else n) in
      if n = 0 then Some (0, d)
      else let off = h AND (km_cap m - 1) in
        case memcpy_to ps d (nat (km_data m - km_base m) + unat off) (ubytes buf (unat n)) of
          None \<Rightarrow> None
        | Some d \<Rightarrow> Some (n, d\<lparr>ctrl_page := (ctrl_page d)\<lparr>head := h + n\<rparr>\<rparr>))"

definition kbuf_map_read :: "nat \<Rightarrow> kbuf_map \<Rightarrow> kbuf_dev \<Rightarrow> u64 \<Rightarrow> (u64 \<times> u8 list \<times> kbuf_dev) option" where
  "kbuf_map_read ps m d n =
     (let t = tail (ctrl_page d); h = head (ctrl_page d);
          avail = h - t;
          n = (if n > avail then avail else n) in
      if n = 0 then Some (0, [], d)
      else let off = t AND (km_cap m - 1) in
        case memcpy_from ps d (nat (km_data m - km_base m) + unat off) (unat n) of
          None \<Rightarrow> None
        | Some out \<Rightarrow> Some (n, out, d\<lparr>ctrl_page := (ctrl_page d)\<lparr>tail := t + n\<rparr>\<rparr>))"

section \<open>Copies are circular writes and reads\<close>

primrec fill :: "'a list \<Rightarrow> nat \<Rightarrow> 'a list \<Rightarrow> 'a list" where
  "fill xs off [] = xs"
| "fill xs off (v # vs) = fill (xs[off mod length xs := v]) (Suc off) vs"

lemma length_fill [simp]: "length (fill xs off vs) = length xs"
  by (induction vs arbitrary: xs off) simp_all

lemma fill_mod: "fill xs (off mod length xs) vs = fill xs off vs"
proof (induction vs arbitrary: xs off)
  case (Cons v vs)
  let ?xs = "xs[off mod length xs := v]"
  have "fill ?xs (Suc (off mod length xs)) vs = fill ?xs (Suc (off mod length xs) mod length ?xs) vs"
    by (rule Cons.IH [symmetric])
  also have "\<dots> = fill ?xs (Suc off mod length ?xs) vs" by (simp add: mod_Suc_eq)
  also have "\<dots> = fill ?xs (Suc off) vs" by (rule Cons.IH)
  finally show ?case by simp
qed simp

lemma window_fill:
  "k + length vs \<le> length xs \<Longrightarrow> window (fill xs (s + k) vs) s (k + length vs) = window xs s k @ vs"
proof (induction vs arbitrary: xs k)
  case (Cons v vs)
  let ?xs = "xs[(s + k) mod length xs := v]"
  have "window (fill ?xs (s + Suc k) vs) s (Suc k + length vs) = window ?xs s (Suc k) @ vs"
    using Cons.prems by (intro Cons.IH) simp
  also have "window ?xs s (Suc k) = window xs s k @ [v]"
    using Cons.prems by (intro window_update_snoc) simp
  finally show ?case by simp
qed simp

lemma data_at_data:
  assumes "0 < ps" "ps dvd KBUF_MMAP_CAPACITY" "off < 2 * KBUF_MMAP_CAPACITY"
  shows "data_at ps d (ps + off) = Some (off mod KBUF_MMAP_CAPACITY)"
proof -
  let ?x = "off mod KBUF_MMAP_CAPACITY"
  have "?x div ps * ps + ?x mod ps = ?x" by simp
  with assms(3) show ?thesis
    by (simp add: data_at_def user_byte_data [OF assms(1,2)] kernel_byte_def del: of_nat_mult)
qed

lemma memcpy_to_fill:
  assumes "0 < ps" "ps dvd KBUF_MMAP_CAPACITY"
  shows "length (data_bytes d) = KBUF_MMAP_CAPACITY \<Longrightarrow> off + length vs \<le> 2 * KBUF_MMAP_CAPACITY \<Longrightarrow>
    memcpy_to ps d (ps + off) vs = Some (d\<lparr>data_bytes := fill (data_bytes d) off vs\<rparr>)"
proof (induction vs arbitrary: d off)
  case (Cons v vs)
  have "off mod KBUF_MMAP_CAPACITY < KBUF_MMAP_CAPACITY" by (simp add: KBUF_MMAP_CAPACITY_def)
  with Cons.IH [of "d\<lparr>data_bytes := (data_bytes d)[off mod KBUF_MMAP_CAPACITY := v]\<rparr>" "Suc off"]
    Cons.prems show ?case by (simp add: data_at_data [OF assms])
qed simp

lemma memcpy_from_window:
  assumes "0 < ps" "ps dvd KBUF_MMAP_CAPACITY" "length (data_bytes d) = KBUF_MMAP_CAPACITY"
  shows "off + n \<le> 2 * KBUF_MMAP_CAPACITY \<Longrightarrow>
    memcpy_from ps d (ps + off) n = Some (window (data_bytes d) off n)"
proof (induction n arbitrary: off)
  case (Suc n)
  have "off mod KBUF_MMAP_CAPACITY < KBUF_MMAP_CAPACITY" by (simp add: KBUF_MMAP_CAPACITY_def)
  with Suc.IH [of "Suc off"] Suc.prems show ?case
    by (simp add: data_at_data [OF assms(1,2)] assms(3) window_Suc)
qed simp

section \<open>Invariant and abstraction\<close>

definition map_ok :: "nat \<Rightarrow> kbuf_map \<Rightarrow> kbuf_dev \<Rightarrow> bool" where
  "map_ok ps m d \<longleftrightarrow> 0 < ps \<and> ps dvd KBUF_MMAP_CAPACITY \<and>
     km_data m = km_base m + int ps \<and> km_cap m = of_nat KBUF_MMAP_CAPACITY \<and>
     length (data_bytes d) = KBUF_MMAP_CAPACITY \<and>
     unat (head (ctrl_page d) - tail (ctrl_page d)) \<le> KBUF_MMAP_CAPACITY"

text \<open>The bytes in flight.\<close>

definition map_bytes :: "kbuf_dev \<Rightarrow> u8 list" where
  "map_bytes d = window (data_bytes d) (unat (tail (ctrl_page d)))
     (unat (head (ctrl_page d) - tail (ctrl_page d)))"

lemma length_map_bytes [simp]:
  "length (map_bytes d) = unat (head (ctrl_page d) - tail (ctrl_page d))"
  by (simp add: map_bytes_def)

lemma cap_pow2: "KBUF_MMAP_CAPACITY = 2 ^ 16"
  by (simp add: KBUF_MMAP_CAPACITY_def)

lemma cap_dvd_2p64: "KBUF_MMAP_CAPACITY dvd 2 ^ 64"
  unfolding cap_pow2 by (rule le_imp_power_dvd) simp

lemma unat_cap: "unat (of_nat KBUF_MMAP_CAPACITY :: u64) = KBUF_MMAP_CAPACITY"
  by (simp add: KBUF_MMAP_CAPACITY_def)

text \<open>A byte index keeps its place in the ring across the wrap-around at \<open>2^64\<close>.\<close>

lemma unat_mask_cap: "unat ((x :: u64) AND (of_nat KBUF_MMAP_CAPACITY - 1)) = unat x mod KBUF_MMAP_CAPACITY"
proof -
  have "(of_nat KBUF_MMAP_CAPACITY :: u64) - 1 = mask 16"
    by (simp add: KBUF_MMAP_CAPACITY_def mask_eq_exp_minus_1)
  then have "x AND (of_nat KBUF_MMAP_CAPACITY - 1) = take_bit 16 x"
    by (simp only: take_bit_eq_mask)
  then have "unat (x AND (of_nat KBUF_MMAP_CAPACITY - 1)) = take_bit 16 (unat x)"
    by (simp only: unsigned_take_bit_eq)
  also have "\<dots> = unat x mod 2 ^ 16" by (rule take_bit_eq_mod)
  finally show ?thesis by (simp only: cap_pow2)
qed

lemma unat_add_mod_cap:
  "unat (x + y :: u64) mod KBUF_MMAP_CAPACITY = (unat x + unat y) mod KBUF_MMAP_CAPACITY"
  using cap_dvd_2p64 by (simp add: unat_word_ariths mod_mod_cancel)

lemma window_cap_cong:
  assumes "length xs = KBUF_MMAP_CAPACITY" "s mod KBUF_MMAP_CAPACITY = s' mod KBUF_MMAP_CAPACITY"
  shows "window xs s k = window xs s' k"
  by (metis assms window_start_mod)

lemma fill_cap_cong:
  assumes "length xs = KBUF_MMAP_CAPACITY" "s mod KBUF_MMAP_CAPACITY = s' mod KBUF_MMAP_CAPACITY"
  shows "fill xs s vs = fill xs s' vs"
  by (metis assms fill_mod)

lemma unat_add_exact: "unat (x :: u64) + unat y < 2 ^ 64 \<Longrightarrow> unat (x + y) = unat x + unat y"
  by (simp add: unat_word_ariths)

lemma unat_sub_exact: "y \<le> x \<Longrightarrow> unat (x - y :: u64) = unat x - unat y"
  by (rule unat_sub)

text \<open>
  Writing: as many bytes as fit are appended, none of them outside the mapping, and the count is
  returned.
\<close>

text \<open>
  kbuf_map_write copies as many bytes as fit into the ring and returns their number; they are
  appended to the bytes in flight, whatever the position of the indices in the ring or in the
  64-bit range, and no byte is written outside the mapping.
\<close>

theorem map_write_appends:
  assumes ok: "map_ok ps m d"
    and k_def: "k = min (unat n) (KBUF_MMAP_CAPACITY - length (map_bytes d))"
  shows "\<exists>d'. kbuf_map_write ps m d buf n = Some (of_nat k, d') \<and> map_ok ps m d' \<and>
    map_bytes d' = map_bytes d @ ubytes buf k"
proof -
  let ?h = "head (ctrl_page d)" and ?t = "tail (ctrl_page d)" and ?C = KBUF_MMAP_CAPACITY
  let ?used = "unat (?h - ?t)"
  have ps: "0 < ps" "ps dvd ?C" and len: "length (data_bytes d) = ?C" and used: "?used \<le> ?C"
    and geo: "km_data m = km_base m + int ps" "km_cap m = of_nat ?C"
    using ok by (auto simp: map_ok_def)
  define space :: u64 where "space = of_nat ?C - (?h - ?t)"
  have space: "unat space = ?C - ?used"
    unfolding space_def using used by (subst unat_sub_exact) (simp_all add: word_le_nat_alt unat_cap)
  define n' where "n' = (if n > space then space else n)"
  note def = kbuf_map_write_def [of ps m d buf n, unfolded Let_def geo(2), folded space_def,
      folded n'_def]
  have n': "unat n' = k"
    by (simp add: n'_def k_def space word_less_nat_alt min_def)
  have k: "?used + k \<le> ?C" using used by (simp add: k_def)
  show ?thesis
  proof (cases "n' = 0")
    case True
    then have "k = 0" using n' by simp
    with True show ?thesis using ok
      by (simp add: def)
  next
    case False
    let ?xs = "fill (data_bytes d) (unat ?h mod ?C) (ubytes buf k)"
    have "unat ?h mod ?C < ?C" by (simp add: KBUF_MMAP_CAPACITY_def)
    with k have cp: "memcpy_to ps d (ps + unat ?h mod ?C) (ubytes buf k) = Some (d\<lparr>data_bytes := ?xs\<rparr>)"
      by (intro memcpy_to_fill [OF ps len]) simp
    have "(unat ?h mod ?C) mod ?C = (unat ?t + ?used) mod ?C"
      using unat_add_mod_cap [of ?t "?h - ?t"] by simp
    then have "?xs = fill (data_bytes d) (unat ?t + ?used) (ubytes buf k)"
      by (rule fill_cap_cong [OF len])
    then have win: "window ?xs (unat ?t) (?used + k) = map_bytes d @ ubytes buf k"
      using window_fill [of ?used "ubytes buf k" "data_bytes d" "unat ?t"] k len
      by (simp add: map_bytes_def)
    have "?h + n' - ?t = (?h - ?t) + n'" by simp
    then have new: "unat (?h + n' - ?t) = ?used + k"
      using k n' by (simp only:) (subst unat_add_exact, simp_all add: KBUF_MMAP_CAPACITY_def)
    have nk: "of_nat k = n'" using n' by auto
    have "kbuf_map_write ps m d buf n = Some (n', d\<lparr>data_bytes := ?xs,
        ctrl_page := (ctrl_page d)\<lparr>head := ?h + n'\<rparr>\<rparr>)"
      using False cp n'
      by (simp add: def geo(1) unat_mask_cap)
    then show ?thesis using win new ok k len
      by (auto simp: nk map_ok_def map_bytes_def)
  qed
qed

text \<open>Reading: as many of the oldest bytes as there are and as were asked for.\<close>

text \<open>
  kbuf_map_read returns the oldest bytes in flight, as many as there are and as were asked
  for, and removes exactly those.
\<close>

theorem map_read_takes:
  assumes ok: "map_ok ps m d" and k_def: "k = min (unat n) (length (map_bytes d))"
  shows "\<exists>d'. kbuf_map_read ps m d n = Some (of_nat k, take k (map_bytes d), d') \<and> map_ok ps m d' \<and>
    map_bytes d' = drop k (map_bytes d)"
proof -
  let ?h = "head (ctrl_page d)" and ?t = "tail (ctrl_page d)" and ?C = KBUF_MMAP_CAPACITY
  let ?used = "unat (?h - ?t)"
  have ps: "0 < ps" "ps dvd ?C" and len: "length (data_bytes d) = ?C" and used: "?used \<le> ?C"
    and geo: "km_data m = km_base m + int ps" "km_cap m = of_nat ?C"
    using ok by (auto simp: map_ok_def)
  define n' where "n' = (if n > ?h - ?t then ?h - ?t else n)"
  note def = kbuf_map_read_def [of ps m d n, unfolded Let_def geo(2), folded n'_def]
  have n': "unat n' = k"
    by (simp add: n'_def k_def word_less_nat_alt min_def)
  have k: "k \<le> ?used" by (simp add: k_def)
  show ?thesis
  proof (cases "n' = 0")
    case True
    then have "k = 0" using n' by simp
    with True show ?thesis using ok by (simp add: def)
  next
    case False
    have "unat ?t mod ?C < ?C" by (simp add: KBUF_MMAP_CAPACITY_def)
    with k used have cp: "memcpy_from ps d (ps + unat ?t mod ?C) k =
        Some (window (data_bytes d) (unat ?t mod ?C) k)"
      by (intro memcpy_from_window [OF ps len]) simp
    have "window (data_bytes d) (unat ?t mod ?C) k = window (data_bytes d) (unat ?t) k"
      by (rule window_cap_cong [OF len]) simp
    then have out: "window (data_bytes d) (unat ?t mod ?C) k = take k (map_bytes d)"
      using k by (simp add: map_bytes_def window_take)
    have eq: "?h - (?t + n') = (?h - ?t) - n'" by simp
    have new: "unat (?h - (?t + n')) = ?used - k"
      unfolding eq using k n' by (subst unat_sub_exact) (simp_all add: word_le_nat_alt)
    have "unat (?t + n') mod ?C = (unat ?t + k) mod ?C"
      using unat_add_mod_cap [of ?t n'] n' by simp
    then have "window (data_bytes d) (unat (?t + n')) (?used - k) =
        window (data_bytes d) (unat ?t + k) (?used - k)"
      by (rule window_cap_cong [OF len])
    then have win: "window (data_bytes d) (unat (?t + n')) (?used - k) = drop k (map_bytes d)"
      using k by (simp add: map_bytes_def window_drop)
    have nk: "of_nat k = n'" using n' by auto
    have "kbuf_map_read ps m d n = Some (n', take k (map_bytes d),
        d\<lparr>ctrl_page := (ctrl_page d)\<lparr>tail := ?t + n'\<rparr>\<rparr>)"
      using False cp n' by (simp add: def geo(1) unat_mask_cap out)
    then show ?thesis using win new ok used len
      by (auto simp: nk map_ok_def map_bytes_def)
  qed
qed

section \<open>Properties\<close>

datatype map_call = MWrite ubuf u64 | MRead u64

text \<open>A sequence of calls: the bytes the writes accepted and the bytes the reads returned.\<close>

fun map_exec :: "nat \<Rightarrow> kbuf_map \<Rightarrow> kbuf_dev \<Rightarrow> map_call list \<Rightarrow> (u8 list \<times> u8 list \<times> kbuf_dev) option" where
  "map_exec ps m d [] = Some ([], [], d)"
| "map_exec ps m d (MWrite buf n # cs) = (case kbuf_map_write ps m d buf n of
     None \<Rightarrow> None
   | Some (k, d1) \<Rightarrow> map_option (\<lambda>(w, r, d2). (ubytes buf (unat k) @ w, r, d2)) (map_exec ps m d1 cs))"
| "map_exec ps m d (MRead n # cs) = (case kbuf_map_read ps m d n of
     None \<Rightarrow> None
   | Some (k, out, d1) \<Rightarrow> map_option (\<lambda>(w, r, d2). (w, out @ r, d2)) (map_exec ps m d1 cs))"


text \<open>
  C26: opening fits the driver: the length kbuf_map_open asks for is the one the driver's mmap
  operation accepts, and on a device whose buffers have just been allocated the opened map is
  ready and empty.
\<close>

theorem map_open_ready:
  assumes "kbuf_map_open (of_nat ps) mm m = (0, m')" "0 < ps" "ps dvd KBUF_MMAP_CAPACITY"
    and "run_state (kbuf_mmap_dev_alloc d0) k = ((Inr (), d), k')"
    and "vm_pgoff vma = 0" "vm_end vma - vm_start vma = km_maplen m'"
  shows "fst (kbuf_mmap (of_nat ps) d vma) = Inr () \<and> map_ok ps m' d \<and> map_bytes d = []"
proof -
  have "ps \<le> KBUF_MMAP_CAPACITY" using assms(3) by (rule dvd_imp_le) (simp add: KBUF_MMAP_CAPACITY_def)
  then have ps: "unat (of_nat ps :: u64) = ps"
    by (simp only: unat_of_nat) (simp add: KBUF_MMAP_CAPACITY_def)
  have m': "km_maplen m' = of_nat ps + 2 * of_nat KBUF_MMAP_CAPACITY"
    "km_data m' = km_base m' + int ps" "km_cap m' = of_nat KBUF_MMAP_CAPACITY"
    using assms(1) unfolding kbuf_map_open_def Let_def
    by (auto simp: ps simp del: unsigned_of_nat split: option.splits)
  from assms(4) have d: "data_bytes d = replicate KBUF_MMAP_CAPACITY 0"
    "head (ctrl_page d) = 0" "tail (ctrl_page d) = 0"
    by (auto simp: kbuf_mmap_dev_alloc_def Let_def split: if_splits prod.splits)
  have sz: "vm_end vma - vm_start vma = of_nat ps + 2 * of_nat KBUF_MMAP_CAPACITY"
    using assms(6) m'(1) by (simp only:)
  have "fst (kbuf_mmap (of_nat ps) d vma) = Inr ()"
    unfolding kbuf_mmap_def Let_def sz using assms(5) by simp
  then show ?thesis using assms(2,3) m'(2,3) d by (simp add: map_ok_def map_bytes_def)
qed

section \<open>A concrete mapping\<close>

text \<open>Both indices are one below the wrap-around, at the last byte of the ring.\<close>

definition demo_map :: kbuf_map where
  "demo_map = \<lparr>km_base = 0x100000, km_ctrl = 0x100000, km_data = 0x101000,
     km_cap = of_nat KBUF_MMAP_CAPACITY, km_maplen = 4096 + 2 * of_nat KBUF_MMAP_CAPACITY\<rparr>"

definition demo_shared :: kbuf_dev where
  "demo_shared = zero_dev\<lparr>mmap_ctrl := 4096, mmap_data := 65536,
     data_bytes := replicate KBUF_MMAP_CAPACITY 0,
     ctrl_page := \<lparr>head = - 1, tail = - 1, capacity = of_nat KBUF_MMAP_CAPACITY\<rparr>\<rparr>"

lemma demo_map_ok: "map_ok 4096 demo_map demo_shared"
  unfolding map_ok_def demo_map_def demo_shared_def by (simp add: KBUF_MMAP_CAPACITY_def)

lemma demo_map_bytes: "map_bytes demo_shared = []"
  by (simp add: map_bytes_def demo_shared_def)

theorem map_write_appends_witness:
  "\<exists>d'. kbuf_map_write 4096 demo_map demo_shared (\<lambda>_. 5) 3 = Some (3, d') \<and>
    map_bytes d' = [5, 5, 5]"
proof -
  have "min (unat (3 :: u64)) (KBUF_MMAP_CAPACITY - length (map_bytes demo_shared)) = 3"
    unfolding demo_map_bytes by (simp add: KBUF_MMAP_CAPACITY_def)
  moreover have "ubytes (\<lambda>_. 5) 3 = [5, 5, 5]" by (simp add: numeral_3_eq_3)
  ultimately show ?thesis
    using map_write_appends [OF demo_map_ok refl, of "\<lambda>_. 5" 3] demo_map_bytes by auto
qed

text \<open>The same mapping with three bytes in flight across the end of the ring.\<close>

definition demo_flight :: kbuf_dev where
  "demo_flight = demo_shared\<lparr>
     data_bytes := [6, 7] @ replicate (KBUF_MMAP_CAPACITY - 3) 0 @ [5],
     ctrl_page := \<lparr>head = 2, tail = - 1, capacity = of_nat KBUF_MMAP_CAPACITY\<rparr>\<rparr>"

lemma demo_flight_ok: "map_ok 4096 demo_map demo_flight"
  unfolding map_ok_def demo_map_def demo_flight_def demo_shared_def
  by (simp add: KBUF_MMAP_CAPACITY_def)

theorem map_read_takes_witness:
  "\<exists>d'. kbuf_map_read 4096 demo_map demo_flight 2 = Some (2, take 2 (map_bytes demo_flight), d') \<and>
    map_bytes d' = drop 2 (map_bytes demo_flight)"
proof -
  have "length (map_bytes demo_flight) = 3" by (simp add: demo_flight_def)
  then have "min (unat (2 :: u64)) (length (map_bytes demo_flight)) = 2" by simp
  then show ?thesis using map_read_takes [OF demo_flight_ok refl, of 2] by auto
qed


theorem map_open_ready_witness:
  "\<exists>m' d k'. kbuf_map_open 4096 (\<lambda>_. Some 0x100000) demo_map = (0, m') \<and>
     run_state (kbuf_mmap_dev_alloc zero_dev) \<lparr>answers = (\<lambda>_. 4096), ticks = 0, calls = []\<rparr> =
       ((Inr (), d), k') \<and>
     map_ok 4096 m' d \<and> map_bytes d = []"
proof -
  obtain m' where m': "kbuf_map_open (of_nat 4096) (\<lambda>_. Some 0x100000) demo_map = (0, m')"
    by (simp add: kbuf_map_open_def Let_def)
  obtain d k' where d: "run_state (kbuf_mmap_dev_alloc zero_dev)
      \<lparr>answers = (\<lambda>_. 4096), ticks = 0, calls = []\<rparr> = ((Inr (), d), k')"
    by (simp add: kbuf_mmap_dev_alloc_def Let_def ask_ptr_def ask_def tell_def State_Monad.bind_def)
  have "map_ok 4096 m' d \<and> map_bytes d = []"
    using map_open_ready [OF m' _ _ d, of "\<lparr>vm_start = 0, vm_end = km_maplen m', vm_pgoff = 0,
      vm_private_data = None, vm_dontexpand = False, vm_dontdump = False, vm_ops_set = False\<rparr>"]
    by (simp add: KBUF_MMAP_CAPACITY_def)
  with m' d show ?thesis by auto
qed

end
