(* ===== verification/Kbuf_Ctl.thy ===== *)
theory Kbuf_Ctl
  imports Kbuf_Ioctl Kbuf_Mmap
begin

text \<open>
  The control device of src/kbuf_ctl.c: creation and destruction of devices at run time, with the
  reference counting that keeps a destroyed device alive while it is open or exported, and the
  open and release file operations of src/kbuf_main.c that look devices up and pin them. The
  dynamic devices are heap objects: an access to one that has been freed is \<open>None\<close>. The
  ledger of kernel objects records what every path acquires and gives back.
\<close>

section \<open>The state of the driver\<close>

text \<open>
  A dynamic device: the structure, its reference count, and whether its device node (and with it
  the \<open>struct device\<close> that \<open>dev->dev\<close> points to) still exists.
\<close>

record dyn_obj =
  obj :: kbuf_dev
  refs :: nat
  node_live :: bool

text \<open>What a file or a dma-buf refers to: a device of the static array or a dynamic one.\<close>

datatype devref = Static nat | Dyn ptr

text \<open>
  \<open>open_files\<close> and \<open>exported\<close> are the references the kernel holds on behalf of
  processes: one per open file and per live dma-buf. \<open>stale_names\<close> counts the times the
  driver read the name of a device whose \<open>struct device\<close> was gone.
\<close>

record drv =
  base_devno :: int
  ndevices :: nat
  devices :: "kbuf_dev list"
  heap :: "ptr \<rightharpoonup> dyn_obj"
  dyn_list :: "ptr list"
  open_files :: "devref list"
  exported :: "(ptr \<times> devref) list"
  stale_names :: nat

section \<open>Reference counting\<close>

definition ida_free :: "int \<Rightarrow> (kst, unit) state" where
  "ida_free off = tell (Gave (Ida_Id off))"

definition kbuf_dev_release :: "ptr \<Rightarrow> kbuf_dev \<Rightarrow> (kst, unit) state" where
  "kbuf_dev_release p d = do {
     d \<leftarrow> kbuf_mmap_dev_free d;
     kbuf_free_slots (slots_ptr d) (slots d) (num_buffers d);
     ida_free (minor_off d);
     kfree p }"

definition kref_get :: "ptr \<Rightarrow> drv \<Rightarrow> drv option" where
  "kref_get p g = (case heap g p of
     None \<Rightarrow> None
   | Some x \<Rightarrow> Some (g\<lparr>heap := (heap g)(p \<mapsto> x\<lparr>refs := refs x + 1\<rparr>)\<rparr>))"

definition kref_put :: "ptr \<Rightarrow> drv \<Rightarrow> (kst, drv option) state" where
  "kref_put p g = (case heap g p of
     None \<Rightarrow> State_Monad.return None
   | Some x \<Rightarrow>
       if refs x = 0 then State_Monad.return None
       else if refs x = 1 then do {
         kbuf_dev_release p (obj x);
         State_Monad.return (Some (g\<lparr>heap := (heap g)(p := None)\<rparr>)) }
       else State_Monad.return (Some (g\<lparr>heap := (heap g)(p \<mapsto> x\<lparr>refs := refs x - 1\<rparr>)\<rparr>)))"

text \<open>Reading \<open>dev_name(dev->dev)\<close>.\<close>

definition dev_name :: "devref \<Rightarrow> drv \<Rightarrow> drv" where
  "dev_name f g = (case f of
     Static i \<Rightarrow> g
   | Dyn p \<Rightarrow> (case heap g p of
       Some x \<Rightarrow> if node_live x then g else g\<lparr>stale_names := stale_names g + 1\<rparr>
     | None \<Rightarrow> g\<lparr>stale_names := stale_names g + 1\<rparr>))"

section \<open>Open and release\<close>

text \<open>
  The list walk shared by lookup and destroy: the first device with the given minor offset. The
  devices on the list are heap objects, so a dangling entry is \<open>None\<close>.
\<close>

fun dyn_find :: "(ptr \<rightharpoonup> dyn_obj) \<Rightarrow> int \<Rightarrow> ptr list \<Rightarrow> ptr option option" where
  "dyn_find h off [] = Some None"
| "dyn_find h off (p # ps) = (case h p of
     None \<Rightarrow> None
   | Some x \<Rightarrow> if minor_off (obj x) = off then Some (Some p) else dyn_find h off ps)"

definition kbuf_dyn_get :: "int \<Rightarrow> drv \<Rightarrow> (ptr option \<times> drv) option" where
  "kbuf_dyn_get off g = (case dyn_find (heap g) off (dyn_list g) of
     None \<Rightarrow> None
   | Some None \<Rightarrow> Some (None, g)
   | Some (Some p) \<Rightarrow> map_option (\<lambda>g. (Some p, g)) (kref_get p g))"

definition kbuf_open :: "nat \<Rightarrow> drv \<Rightarrow> (devref result \<times> drv) option" where
  "kbuf_open minor g =
     (if minor < ndevices g then Some (Inr (Static minor), dev_name (Static minor) g)
      else case kbuf_dyn_get (int minor - int (ndevices g)) g of
        None \<Rightarrow> None
      | Some (None, g) \<Rightarrow> Some (Inl ENODEV, g)
      | Some (Some p, g) \<Rightarrow> Some (Inr (Dyn p), dev_name (Dyn p) g))"

text \<open>
  \<open>if (dev->dynamic) kref_put(...)\<close> and \<open>if (dev->dynamic) kref_get(...)\<close>: a
  device of the static array is not counted.
\<close>

definition dev_put :: "devref \<Rightarrow> drv \<Rightarrow> (kst, drv option) state" where
  "dev_put f g = (case f of
     Static i \<Rightarrow> State_Monad.return
       (if i < length (devices g) \<and> \<not> dynamic (devices g ! i) then Some g else None)
   | Dyn p \<Rightarrow> (case heap g p of
       None \<Rightarrow> State_Monad.return None
     | Some x \<Rightarrow> if dynamic (obj x) then kref_put p g else State_Monad.return (Some g)))"

definition dev_get :: "devref \<Rightarrow> drv \<Rightarrow> drv option" where
  "dev_get f g = (case f of
     Static i \<Rightarrow> if i < length (devices g) \<and> \<not> dynamic (devices g ! i) then Some g else None
   | Dyn p \<Rightarrow> (case heap g p of
       None \<Rightarrow> None
     | Some x \<Rightarrow> if dynamic (obj x) then kref_get p g else Some g))"

definition kbuf_release :: "devref \<Rightarrow> drv \<Rightarrow> (kst, drv option) state" where
  "kbuf_release f g = (let g = dev_name f g in dev_put f g)"

section \<open>Creation\<close>

text \<open>The unwind labels of \<open>kbuf_dyn_create\<close>.\<close>

definition err_ida :: "int \<Rightarrow> (kst, unit) state" where
  "err_ida off = ida_free off"

definition err_free :: "ptr \<Rightarrow> int \<Rightarrow> (kst, unit) state" where
  "err_free p off = do { kfree p; err_ida off }"

definition err_slots :: "kbuf_dev \<Rightarrow> ptr \<Rightarrow> int \<Rightarrow> (kst, unit) state" where
  "err_slots d p off = do { kbuf_free_slots (slots_ptr d) (slots d) (num_buffers d); err_free p off }"

definition err_mmap :: "kbuf_dev \<Rightarrow> ptr \<Rightarrow> int \<Rightarrow> (kst, unit) state" where
  "err_mmap d p off = do { d \<leftarrow> kbuf_mmap_dev_free d; err_slots d p off }"

definition cdev_del :: "kbuf_dev \<Rightarrow> (kst, unit) state" where
  "cdev_del d = do { tell (Gave (Cdev_Map (devno d))); tell (Gave (Cdev_Obj (cdevp d))) }"

definition ENOSPC_nr :: int where "ENOSPC_nr = 28"

text \<open>
  The part of \<open>kbuf_dyn_create\<close> after the buffers are allocated: the cdev, the device node
  and the insertion into the list. The device node pointer is an error pointer when negative.
\<close>

definition dyn_register :: "ptr \<Rightarrow> kbuf_dev \<Rightarrow> int \<Rightarrow> drv \<Rightarrow> (kst, int result \<times> drv) state" where
  "dyn_register p d off g = do {
     cp \<leftarrow> ask_ptr Cdev_Obj;
     if cp = 0 then do { err_mmap d p off; State_Monad.return (Inl ENOMEM, g) }
     else do {
       let d = d\<lparr>cdevp := cp\<rparr>;
       ret \<leftarrow> ask_err (\<lambda>_. Cdev_Map (devno d));
       if ret < 0 then do {
         tell (Gave (Cdev_Obj cp));
         err_mmap d p off;
         State_Monad.return (Inl (Kerr ret), g) }
       else do {
         ret \<leftarrow> ask_err (\<lambda>_. Dev_Node (devno d));
         if ret < 0 then do {
           cdev_del d;
           err_mmap d p off;
           State_Monad.return (Inl (Kerr ret), g) }
         else State_Monad.return (Inr off, g\<lparr>
           heap := (heap g)(p \<mapsto> \<lparr>obj = d, refs = 1, node_live = True\<rparr>),
           dyn_list := dyn_list g @ [p]\<rparr>) } } }"

definition new_dyn_dev :: "drv \<Rightarrow> int \<Rightarrow> kbuf_dev" where
  "new_dyn_dev g off = zero_dev\<lparr>dynamic := True, minor_off := off,
     num_buffers := KBUF_DEFAULT_NUM_BUFFERS, buffer_size := KBUF_DEFAULT_BUFFER_SIZE,
     mode := KBUF_MODE_BLOCKING, devno := base_devno g + int (ndevices g) + off\<rparr>"

definition kbuf_dyn_create :: "drv \<Rightarrow> (kst, int result \<times> drv) state" where
  "kbuf_dyn_create g = do {
     off \<leftarrow> ask_err Ida_Id;
     if off < 0
     then State_Monad.return (Inl (if off = - ENOSPC_nr then ENOSPC else Kerr off), g)
     else do {
       p \<leftarrow> ask_ptr Mem;
       if p = 0 then do { err_ida off; State_Monad.return (Inl ENOMEM, g) }
       else do {
         let d = new_dyn_dev g off;
         r \<leftarrow> kbuf_alloc_slots (num_buffers d) (buffer_size d);
         case r of
           None \<Rightarrow> do { err_free p off; State_Monad.return (Inl ENOMEM, g) }
         | Some (sp, ss) \<Rightarrow> do {
             let d = d\<lparr>slots_ptr := sp, slots := ss\<rparr>;
             (ret, d) \<leftarrow> kbuf_mmap_dev_alloc d;
             case ret of
               Inl e \<Rightarrow> do { err_slots d p off; State_Monad.return (Inl e, g) }
             | Inr _ \<Rightarrow> dyn_register p d off g } } } }"

section \<open>Destruction\<close>

definition kbuf_dyn_teardown :: "ptr \<Rightarrow> drv \<Rightarrow> (kst, drv option) state" where
  "kbuf_dyn_teardown p g = (case heap g p of
     None \<Rightarrow> State_Monad.return None
   | Some x \<Rightarrow> do {
       tell (Gave (Dev_Node (devno (obj x))));
       cdev_del (obj x);
       kref_put p (g\<lparr>heap := (heap g)(p \<mapsto> x\<lparr>node_live := False\<rparr>)\<rparr>) })"

definition kbuf_dyn_destroy :: "int \<Rightarrow> drv \<Rightarrow> (kst, (unit result \<times> drv) option) state" where
  "kbuf_dyn_destroy i g = (case dyn_find (heap g) i (dyn_list g) of
     None \<Rightarrow> State_Monad.return None
   | Some None \<Rightarrow> State_Monad.return (Some (Inl ENOENT, g))
   | Some (Some p) \<Rightarrow> do {
       x \<leftarrow> kbuf_dyn_teardown p (g\<lparr>dyn_list := remove1 p (dyn_list g)\<rparr>);
       State_Monad.return (map_option (\<lambda>g. (Inr (), g)) x) })"

datatype ctl_cmd = KBUF_CTL_CREATE | KBUF_CTL_DESTROY | CTL_OTHER

definition kbuf_ctl_ioctl :: "uaccess \<Rightarrow> ctl_cmd \<Rightarrow> ubuf \<Rightarrow> drv
    \<Rightarrow> (kst, (unit result \<times> u8 list \<times> drv) option) state" where
  "kbuf_ctl_ioctl u cmd arg g = (case cmd of
     KBUF_CTL_CREATE \<Rightarrow> do {
       (ret, g) \<leftarrow> kbuf_dyn_create g;
       case ret of
         Inl e \<Rightarrow> State_Monad.return (Some (Inl e, [], g))
       | Inr i \<Rightarrow>
           let (out, left) = copy_to_user u (le_bytes 4 (word_of_int i :: u32)) in
           if left \<noteq> 0 then do {
             x \<leftarrow> kbuf_dyn_destroy i g;
             State_Monad.return (map_option (\<lambda>(r, g). (Inl EFAULT, out, g)) x) }
           else State_Monad.return (Some (Inr (), out, g)) }
   | KBUF_CTL_DESTROY \<Rightarrow>
       let (b, left) = copy_from_user u (replicate 4 0) (ubytes arg 4) in
       if left \<noteq> 0 then State_Monad.return (Some (Inl EFAULT, [], g))
       else do {
         x \<leftarrow> kbuf_dyn_destroy (sint (le_word b :: u32)) g;
         State_Monad.return (map_option (\<lambda>(r, g). (r, [], g)) x) }
   | CTL_OTHER \<Rightarrow> State_Monad.return (Some (Inl ENOTTY, [], g)))"

section \<open>The control device itself\<close>

definition kbuf_ctl_register :: "(kst, int) state" where
  "kbuf_ctl_register = ask_err (\<lambda>_. Misc_Dev)"

text \<open>
  The loop of \<open>kbuf_ctl_unregister\<close>: take the first device off the list, tear it down,
  until the list is empty; no other thread adds to the list once the control node is gone.
\<close>

primrec dyn_teardown_all :: "ptr list \<Rightarrow> drv \<Rightarrow> (kst, drv option) state" where
  "dyn_teardown_all [] g = State_Monad.return (Some g)"
| "dyn_teardown_all (p # ps) g = do {
     x \<leftarrow> kbuf_dyn_teardown p (g\<lparr>dyn_list := ps\<rparr>);
     case x of None \<Rightarrow> State_Monad.return None | Some g \<Rightarrow> dyn_teardown_all ps g }"

definition kbuf_ctl_unregister :: "drv \<Rightarrow> (kst, drv option) state" where
  "kbuf_ctl_unregister g = do { tell (Gave Misc_Dev); dyn_teardown_all (dyn_list g) g }"

section \<open>What the dynamic devices own\<close>

definition buffers_mem :: "kbuf_dev \<Rightarrow> kobj multiset" where
  "buffers_mem d = dev_slots_mem d + mmap_mem d"

definition node_mem :: "kbuf_dev \<Rightarrow> kobj multiset" where
  "node_mem d = {#Dev_Node (devno d), Cdev_Map (devno d), Cdev_Obj (cdevp d)#}"

definition obj_mem :: "ptr \<Rightarrow> dyn_obj \<Rightarrow> kobj multiset" where
  "obj_mem p x = {#Mem p, Ida_Id (minor_off (obj x))#} + buffers_mem (obj x) +
     (if node_live x then node_mem (obj x) else {#})"

definition dyn_mem :: "drv \<Rightarrow> kobj multiset" where
  "dyn_mem g = (\<Sum>p \<in> dom (heap g). obj_mem p (the (heap g p)))"

text \<open>A device whose buffers can be released: the slot array has its recorded geometry.\<close>

definition freeable :: "kbuf_dev \<Rightarrow> bool" where
  "freeable d \<longleftrightarrow> (\<exists>sz. slots_ok (unat (num_buffers d)) sz (slots d))"

lemma freeable_mmap [simp]:
  "freeable (d\<lparr>mmap_ctrl := c, mmap_data := p, data_bytes := b, ctrl_page := e\<rparr>) = freeable d"
  "freeable (d\<lparr>mmap_data := p, mmap_ctrl := c\<rparr>) = freeable d"
  "freeable (d\<lparr>cdevp := q\<rparr>) = freeable d"
  by (simp_all add: freeable_def)

lemma ktriple_ida_free: "ktriple {#Ida_Id off#} (ida_free off) (\<lambda>_. {#})"
  unfolding ida_free_def by (rule ktriple_gave)

lemma ktriple_free_slots:
  "freeable d \<Longrightarrow> ktriple (dev_slots_mem d) (kbuf_free_slots (slots_ptr d) (slots d) (num_buffers d)) (\<lambda>_. {#})"
  by (auto simp: freeable_def intro: ktriple_kbuf_free_slots)

lemma ktriple_err_free:
  "p \<noteq> 0 \<Longrightarrow> ktriple {#Mem p, Ida_Id off#} (err_free p off) (\<lambda>_. {#})"
  unfolding err_free_def err_ida_def
  by (rule ktriple_step [OF ktriple_kfree, where F = "{#Ida_Id off#}"])
    (simp_all add: ktriple_ida_free)

lemma ktriple_err_slots:
  "p \<noteq> 0 \<Longrightarrow> freeable d \<Longrightarrow>
   ktriple (dev_slots_mem d + {#Mem p, Ida_Id off#}) (err_slots d p off) (\<lambda>_. {#})"
  unfolding err_slots_def
  by (rule ktriple_step [OF ktriple_free_slots refl]) (simp_all add: ktriple_err_free)

lemma ktriple_err_mmap:
  assumes "p \<noteq> 0" "freeable d"
  shows "ktriple (buffers_mem d + {#Mem p, Ida_Id off#}) (err_mmap d p off) (\<lambda>_. {#})"
proof -
  have "ktriple (buffers_mem d + {#Mem p, Ida_Id off#}) (err_mmap d p off) (\<lambda>_. {#}) =
    ktriple (buffers_mem d + {#Mem p, Ida_Id off#})
      (do { _ \<leftarrow> kbuf_mmap_dev_free d; err_slots d p off }) (\<lambda>_. {#})"
    by (simp add: err_mmap_def kbuf_mmap_dev_free_def err_slots_def)
  also have "\<dots>"
    by (rule ktriple_step [OF ktriple_mmap_dev_free, where F = "dev_slots_mem d + {#Mem p, Ida_Id off#}"])
      (use ktriple_err_slots [OF assms, of off] in \<open>simp_all add: buffers_mem_def\<close>)
  finally show ?thesis .
qed

lemma buffers_mem_cdevp [simp]: "buffers_mem (d\<lparr>cdevp := q\<rparr>) = buffers_mem d"
  by (simp add: buffers_mem_def mmap_mem_def)

lemma ktriple_cdev_del:
  "ktriple {#Cdev_Map (devno d), Cdev_Obj (cdevp d)#} (cdev_del d) (\<lambda>_. {#})"
  unfolding cdev_del_def
  by (rule ktriple_step [OF ktriple_gave, where F = "{#Cdev_Obj (cdevp d)#}"])
    (simp_all add: ktriple_gave)

text \<open>The device a successful creation adds.\<close>

definition newest_mem :: "drv \<Rightarrow> kobj multiset" where
  "newest_mem g = (let p = last (dyn_list g) in obj_mem p (the (heap g p)))"

abbreviation create_post :: "int result \<times> drv \<Rightarrow> kobj multiset" where
  "create_post \<equiv> \<lambda>(r, g'). if isl r then {#} else newest_mem g'"

lemma ktriple_unwind:
  assumes "ktriple P m (\<lambda>_. {#})"
  shows "ktriple P (do { m; State_Monad.return (Inl e, g) }) create_post"
  by (rule ktriple_bind [OF assms]) (simp add: ktriple_return)

lemma ktriple_dyn_register:
  assumes "p \<noteq> 0" "freeable d" "minor_off d = off"
  shows "ktriple (buffers_mem d + {#Mem p, Ida_Id off#}) (dyn_register p d off g) create_post"
proof -
  let ?H = "buffers_mem d + {#Mem p, Ida_Id off#}"
  have um: "ktriple ?H (do { err_mmap (d\<lparr>cdevp := q\<rparr>) p off; State_Monad.return (Inl e, g) }) create_post"
    for q e
    using ktriple_err_mmap [of p "d\<lparr>cdevp := q\<rparr>" off] assms
    by (intro ktriple_unwind) simp
  have um0: "ktriple ?H (do { err_mmap d p off; State_Monad.return (Inl e, g) }) create_post" for e
    using assms by (intro ktriple_unwind ktriple_err_mmap)
  have node: "ktriple (?H + {#Cdev_Obj cp, Cdev_Map (devno d)#}) (do {
      ret \<leftarrow> ask_err (\<lambda>_. Dev_Node (devno d));
      if ret < 0 then do {
        cdev_del (d\<lparr>cdevp := cp\<rparr>);
        err_mmap (d\<lparr>cdevp := cp\<rparr>) p off;
        State_Monad.return (Inl (Kerr ret), g) }
      else State_Monad.return (Inr off, g\<lparr>
        heap := (heap g)(p \<mapsto> \<lparr>obj = d\<lparr>cdevp := cp\<rparr>, refs = 1, node_live = True\<rparr>),
        dyn_list := dyn_list g @ [p]\<rparr>) }) create_post" for cp
  proof (rule ktriple_step [OF ktriple_ask_err, where F = "?H + {#Cdev_Obj cp, Cdev_Map (devno d)#}"], simp,
      rule ktriple_if, goal_cases)
    case (1 ret)
    then show ?case
      by (intro ktriple_step [OF ktriple_cdev_del [of "d\<lparr>cdevp := cp\<rparr>"], where F = ?H])
        (use um in \<open>simp_all add: add_mset_commute\<close>)
  next
    case (2 ret)
    then show ?case
      by (auto intro!: ktriple_return simp: newest_mem_def obj_mem_def node_mem_def assms(3) Let_def
          add_mset_commute)
  qed
  show ?thesis
    unfolding dyn_register_def
  proof (rule ktriple_step [OF ktriple_ask_ptr, where F = ?H], simp, rule ktriple_if, goal_cases)
    case (1 cp)
    then show ?case using um0 by simp
  next
    case (2 cp)
    show ?case unfolding Let_def
    proof (rule ktriple_step [OF ktriple_ask_err, where F = "?H + {#Cdev_Obj cp#}"], goal_cases)
      case 1
      show ?case using 2 by simp
    next
      case (2 ret)
      show ?case
      proof (rule ktriple_if, goal_cases)
        case 1
        then show ?case
          by (intro ktriple_step [OF ktriple_gave [of "Cdev_Obj cp"], where F = ?H])
            (use um in \<open>simp_all add: add_mset_commute\<close>)
      next
        case ret: 2
        then show ?case using node [of cp] by (simp add: add_mset_commute)
      qed
    qed
  qed
qed

lemma mmap_dev_alloc_frame:
  assumes "run_state (kbuf_mmap_dev_alloc d) k = ((r, d'), k')"
  shows "freeable d' = freeable d" "dev_slots_mem d' = dev_slots_mem d" "minor_off d' = minor_off d"
    "devno d' = devno d" "dynamic d' = dynamic d" "dev_ok d' = dev_ok d" "dev_msgs d' = dev_msgs d"
    "r = Inr () \<Longrightarrow> mmap_ok d'"
proof -
  from mmap_dev_alloc_result [OF assms] obtain c p b e where
    d': "d' = d\<lparr>mmap_ctrl := c, mmap_data := p, data_bytes := b, ctrl_page := e\<rparr>"
    and r: "case r of Inr _ \<Rightarrow> mmap_ok d' | Inl e \<Rightarrow> e = ENOMEM \<and> mmap_ctrl d' = 0"
    by metis
  show "freeable d' = freeable d" "dev_slots_mem d' = dev_slots_mem d" "minor_off d' = minor_off d"
    "devno d' = devno d" "dynamic d' = dynamic d" "dev_ok d' = dev_ok d" "dev_msgs d' = dev_msgs d"
    by (simp_all add: d' dev_ok_def ring_ok_def spsc_ok_def geom_ok_def dev_msgs_def ring_msgs_def
        spsc_msgs_def)
  show "r = Inr () \<Longrightarrow> mmap_ok d'" using r by simp
qed

lemma ktriple_create_mmap:
  assumes "p \<noteq> 0" "freeable d" "minor_off d = off" "mmap_mem d = {#}"
  shows "ktriple (dev_slots_mem d + {#Mem p, Ida_Id off#}) (do {
      (ret, d) \<leftarrow> kbuf_mmap_dev_alloc d;
      case ret of
        Inl e \<Rightarrow> do { err_slots d p off; State_Monad.return (Inl e, g) }
      | Inr _ \<Rightarrow> dyn_register p d off g }) create_post"
proof (rule ktriple_run)
  show "ktriple (dev_slots_mem d + {#Mem p, Ida_Id off#}) (kbuf_mmap_dev_alloc d)
      (\<lambda>(r, d'). (if isl r then {#} else mmap_mem d') + (dev_slots_mem d + {#Mem p, Ida_Id off#}))"
    by (rule ktriple_conseq [OF ktriple_mmap_dev_alloc [OF assms(4)]]) (auto split: prod.split)
next
  fix k x k'
  assume run: "run_state (kbuf_mmap_dev_alloc d) k = (x, k')"
  obtain r d' where x: "x = (r, d')" by fastforce
  note fr = mmap_dev_alloc_frame [OF run [unfolded x]]
  show "ktriple ((\<lambda>(r, d'). (if isl r then {#} else mmap_mem d') +
        (dev_slots_mem d + {#Mem p, Ida_Id off#})) x)
      (case x of (ret, d) \<Rightarrow> (case ret of
        Inl e \<Rightarrow> do { err_slots d p off; State_Monad.return (Inl e, g) }
      | Inr _ \<Rightarrow> dyn_register p d off g)) create_post"
  proof (cases r)
    case (Inl e)
    then show ?thesis
      using ktriple_unwind [OF ktriple_err_slots [of p d' off]] assms fr by (simp add: x)
  next
    case (Inr _)
    then show ?thesis
      using ktriple_dyn_register [of p d' off g] assms fr by (simp add: x buffers_mem_def ac_simps)
  qed
qed

lemma ktriple_dyn_create: "ktriple {#} (kbuf_dyn_create g) create_post"
  unfolding kbuf_dyn_create_def
proof (rule ktriple_bind [OF ktriple_ask_err], rule ktriple_if, goal_cases)
  case (1 off)
  then show ?case by (simp add: ktriple_return)
next
  case (2 off)
  let ?d = "new_dyn_dev g off"
  show ?case
  proof (rule ktriple_step [OF ktriple_ask_ptr, where F = "{#Ida_Id off#}"], use 2 in simp,
      rule ktriple_if, goal_cases)
    case (1 p)
    then show ?case
      using ktriple_unwind [OF ktriple_ida_free [of off], of ENOMEM g] by (simp add: err_ida_def)
  next
    case (2 p)
    then have p: "p \<noteq> 0" by simp
    show ?case unfolding Let_def
    proof (rule ktriple_run [where P = "\<lambda>r. (case r of None \<Rightarrow> {#} | Some (sp, ss) \<Rightarrow> slots_mem sp ss) +
        {#Mem p, Ida_Id off#}"], goal_cases)
      case 2
      show ?case
        by (rule ktriple_conseq [OF ktriple_kbuf_alloc_slots, where F = "{#Mem p, Ida_Id off#}"])
          (use p in simp_all)
    next
      case (1 k r k')
      show ?case
      proof (cases r)
        case None
        then show ?thesis using ktriple_unwind [OF ktriple_err_free [OF p, of off]] by simp
      next
        case (Some y)
        obtain sp ss where y: "y = (sp, ss)" by fastforce
        from kbuf_alloc_slots_ok(2) [OF 1 [unfolded Some y]]
        have "freeable (?d\<lparr>slots_ptr := sp, slots := ss\<rparr>)" by (auto simp: freeable_def)
        then show ?thesis
          using ktriple_create_mmap [OF p, of "?d\<lparr>slots_ptr := sp, slots := ss\<rparr>" off g]
          by (simp add: Some y new_dyn_dev_def mmap_mem_def zero_dev_def)
      qed
    qed
  qed
qed

section \<open>Results\<close>

definition added :: "ptr \<Rightarrow> kbuf_dev \<Rightarrow> drv \<Rightarrow> drv" where
  "added p d g = g\<lparr>heap := (heap g)(p \<mapsto> \<lparr>obj = d, refs = 1, node_live = True\<rparr>),
     dyn_list := dyn_list g @ [p]\<rparr>"

lemma dyn_register_result:
  assumes "run_state (dyn_register p d off g) k = ((r, g'), k')"
  shows "(\<exists>e. r = Inl e) \<and> g' = g \<or> (\<exists>cp. r = Inr off \<and> g' = added p (d\<lparr>cdevp := cp\<rparr>) g)"
  using assms
  by (auto simp: dyn_register_def added_def Let_def split: if_splits prod.splits)

lemma new_dyn_dev_ok:
  assumes "slots_ok (unat KBUF_DEFAULT_NUM_BUFFERS) (unat KBUF_DEFAULT_BUFFER_SIZE) ss"
  shows "dev_ok (new_dyn_dev g off\<lparr>slots_ptr := sp, slots := ss\<rparr>)"
    "dev_msgs (new_dyn_dev g off\<lparr>slots_ptr := sp, slots := ss\<rparr>) = []"
  using assms
  by (simp_all add: new_dyn_dev_def zero_dev_def dev_ok_def ring_ok_def geom_ok_def dev_msgs_def
      ring_msgs_def KBUF_DEFAULT_NUM_BUFFERS_def KBUF_DEFAULT_BUFFER_SIZE_def)

text \<open>A device as creation hands it over.\<close>

definition fresh_dev :: "int \<Rightarrow> kbuf_dev \<Rightarrow> bool" where
  "fresh_dev off d \<longleftrightarrow> dev_ok d \<and> dev_msgs d = [] \<and> mmap_ok d \<and> dynamic d \<and> minor_off d = off"

lemma fresh_dev_cdevp [simp]: "fresh_dev off (d\<lparr>cdevp := q\<rparr>) = fresh_dev off d"
  by (simp add: fresh_dev_def dev_ok_def ring_ok_def spsc_ok_def geom_ok_def dev_msgs_def
      ring_msgs_def spsc_msgs_def mmap_ok_def)

lemma dyn_create_result:
  assumes "run_state (kbuf_dyn_create g) k = ((r, g'), k')"
  shows "(\<exists>e. r = Inl e) \<and> g' = g \<or>
    (\<exists>p d off. r = Inr off \<and> 0 \<le> off \<and> p \<noteq> 0 \<and> fresh_dev off d \<and> g' = added p d g)"
proof -
  obtain off k1 where 1: "run_state (ask_err Ida_Id) k = (off, k1)" by fastforce
  obtain p k2 where 2: "run_state (ask_ptr Mem) k1 = (p, k2)" by fastforce
  let ?d = "new_dyn_dev g off"
  obtain sl k3 where 3: "run_state (kbuf_alloc_slots (num_buffers ?d) (buffer_size ?d)) k2 = (sl, k3)"
    by fastforce
  show ?thesis
  proof (cases "off < 0 \<or> p = 0 \<or> sl = None")
    case True
    then show ?thesis using assms 1 2 3
      by (auto simp: kbuf_dyn_create_def Let_def split: if_splits prod.splits)
  next
    case False
    then obtain sp ss where sl: "sl = Some (sp, ss)" by auto
    let ?e = "?d\<lparr>slots_ptr := sp, slots := ss\<rparr>"
    obtain ret d k4 where 4: "run_state (kbuf_mmap_dev_alloc ?e) k3 = ((ret, d), k4)"
      by (metis surj_pair)
    note fr = mmap_dev_alloc_frame [OF 4]
    have ok: "dev_ok ?e" "dev_msgs ?e = []"
      using new_dyn_dev_ok [where g = g and off = off and sp = sp and ss = ss] kbuf_alloc_slots_ok(2) [OF 3 [unfolded sl]]
      by (simp_all add: new_dyn_dev_def)
    show ?thesis
    proof (cases ret)
      case (Inl e)
      then show ?thesis using assms False 1 2 3 4 sl
        by (auto simp: kbuf_dyn_create_def Let_def split: prod.splits)
    next
      case (Inr u)
      then have fd: "fresh_dev off d"
        using fr ok by (simp add: fresh_dev_def) (simp add: new_dyn_dev_def)
      have "run_state (dyn_register p d off g) k4 = ((r, g'), k')"
        using assms False 1 2 3 4 sl Inr by (simp add: kbuf_dyn_create_def Let_def)
      moreover have "0 \<le> off" using False by simp
      ultimately show ?thesis using dyn_register_result fd False
        by (metis fresh_dev_cdevp)
    qed
  qed
qed

section \<open>Dropping references\<close>

abbreviation heap_mem :: "(ptr \<rightharpoonup> dyn_obj) \<Rightarrow> kobj multiset" where
  "heap_mem h \<equiv> (\<Sum>p \<in> dom h. obj_mem p (the (h p)))"

lemma heap_mem_remove:
  assumes "finite (dom h)" "h p = Some x"
  shows "heap_mem h = obj_mem p x + heap_mem (h(p := None))"
proof -
  have "p \<in> dom h" using assms(2) by blast
  then have "heap_mem h = obj_mem p (the (h p)) + (\<Sum>q \<in> dom h - {p}. obj_mem q (the (h q)))"
    by (rule sum.remove [OF assms(1)])
  also have "(\<Sum>q \<in> dom h - {p}. obj_mem q (the (h q))) = heap_mem (h(p := None))"
    by (rule sum.cong) auto
  finally show ?thesis using assms(2) by simp
qed

lemma heap_mem_upd:
  assumes "finite (dom h)"
  shows "heap_mem (h(p \<mapsto> x)) = obj_mem p x + heap_mem (h(p := None))"
  using heap_mem_remove [of "h(p \<mapsto> x)" p x] assms by (simp del: sum.insert)

lemma heap_mem_insert:
  "finite (dom h) \<Longrightarrow> h p = None \<Longrightarrow> heap_mem (h(p \<mapsto> x)) = obj_mem p x + heap_mem h"
  using heap_mem_upd [of h p x] by (simp add: fun_upd_idem del: sum.insert)

text \<open>The state after a reference is dropped.\<close>

definition ref_dropped :: "ptr \<Rightarrow> drv \<Rightarrow> drv" where
  "ref_dropped p g = g\<lparr>heap := (case heap g p of
     None \<Rightarrow> heap g
   | Some x \<Rightarrow> if refs x = 1 then (heap g)(p := None)
       else (heap g)(p \<mapsto> x\<lparr>refs := refs x - 1\<rparr>))\<rparr>"

lemma ref_dropped_frame [simp]:
  "dyn_list (ref_dropped p g) = dyn_list g" "open_files (ref_dropped p g) = open_files g"
  "exported (ref_dropped p g) = exported g" "devices (ref_dropped p g) = devices g"
  "ndevices (ref_dropped p g) = ndevices g" "base_devno (ref_dropped p g) = base_devno g"
  "stale_names (ref_dropped p g) = stale_names g"
  by (simp_all add: ref_dropped_def)

lemma kref_put_result:
  "heap g p = Some x \<Longrightarrow> refs x \<noteq> 0 \<Longrightarrow> fst (run_state (kref_put p g) k) = Some (ref_dropped p g)"
  by (simp add: kref_put_def ref_dropped_def split: prod.split)

lemma ktriple_dev_release:
  assumes "p \<noteq> 0" "freeable d"
  shows "ktriple (buffers_mem d + {#Mem p, Ida_Id (minor_off d)#}) (kbuf_dev_release p d) (\<lambda>_. {#})"
proof -
  have "ktriple (buffers_mem d + {#Mem p, Ida_Id (minor_off d)#}) (do {
      kbuf_mmap_dev_free d; kbuf_free_slots (slots_ptr d) (slots d) (num_buffers d);
      ida_free (minor_off d); kfree p }) (\<lambda>_. {#})"
    by (rule ktriple_step [OF ktriple_mmap_dev_free,
          where F = "dev_slots_mem d + {#Mem p, Ida_Id (minor_off d)#}"],
        simp add: buffers_mem_def,
        rule ktriple_step [OF ktriple_free_slots [OF assms(2)], where F = "{#Mem p, Ida_Id (minor_off d)#}"],
        simp, rule ktriple_step [OF ktriple_ida_free, where F = "{#Mem p#}"])
      (simp_all add: ktriple_kfree assms add_mset_commute)
  then show ?thesis
    by (simp add: kbuf_dev_release_def kbuf_mmap_dev_free_def)
qed

text \<open>
  Dropping a reference frees exactly what the device owns when it was the last one; the device
  node must be gone by then.
\<close>

lemma ktriple_kref_put:
  assumes "finite (dom (heap g))" "heap g p = Some x" "p \<noteq> 0" "refs x \<noteq> 0" "freeable (obj x)"
    and "refs x = 1 \<Longrightarrow> \<not> node_live x"
  shows "ktriple (dyn_mem g) (kref_put p g) (\<lambda>_. dyn_mem (ref_dropped p g))"
proof (cases "refs x = 1")
  case True
  let ?R = "heap_mem ((heap g)(p := None))"
  have own: "dyn_mem g = (buffers_mem (obj x) + {#Mem p, Ida_Id (minor_off (obj x))#}) + ?R"
    using heap_mem_remove [OF assms(1,2)] assms(6) [OF True] by (simp add: dyn_mem_def obj_mem_def)
  have "ktriple (dyn_mem g) (do { kbuf_dev_release p (obj x);
      State_Monad.return (Some (g\<lparr>heap := (heap g)(p := None)\<rparr>)) }) (\<lambda>_. ?R)"
    by (rule ktriple_step [OF ktriple_dev_release [OF assms(3,5)] own]) (simp add: ktriple_return)
  with True assms(2) show ?thesis by (simp add: kref_put_def ref_dropped_def dyn_mem_def)
next
  case False
  then have "dyn_mem (ref_dropped p g) = dyn_mem g"
    using heap_mem_remove [OF assms(1,2)] heap_mem_upd [OF assms(1), of p "x\<lparr>refs := refs x - 1\<rparr>"]
    by (simp add: dyn_mem_def ref_dropped_def assms(2) obj_mem_def del: sum.insert)
  with False assms(2,4) show ?thesis by (simp add: kref_put_def ktriple_return)
qed

definition node_dropped :: "ptr \<Rightarrow> drv \<Rightarrow> drv" where
  "node_dropped p g = g\<lparr>heap := (case heap g p of
     None \<Rightarrow> heap g | Some x \<Rightarrow> (heap g)(p \<mapsto> x\<lparr>node_live := False\<rparr>))\<rparr>"

lemma teardown_result:
  "heap g p = Some x \<Longrightarrow> refs x \<noteq> 0 \<Longrightarrow>
   fst (run_state (kbuf_dyn_teardown p g) k) = Some (ref_dropped p (node_dropped p g))"
  using kref_put_result [of "node_dropped p g" p "x\<lparr>node_live := False\<rparr>"]
  by (simp add: kbuf_dyn_teardown_def node_dropped_def split: prod.split)

lemma ktriple_teardown:
  assumes "finite (dom (heap g))" "heap g p = Some x" "p \<noteq> 0" "refs x \<noteq> 0" "freeable (obj x)"
    and "node_live x"
  shows "ktriple (dyn_mem g) (kbuf_dyn_teardown p g) (\<lambda>_. dyn_mem (ref_dropped p (node_dropped p g)))"
proof -
  let ?x = "x\<lparr>node_live := False\<rparr>" and ?d = "obj x" and ?g = "node_dropped p g"
  have g: "?g = g\<lparr>heap := (heap g)(p \<mapsto> ?x)\<rparr>" by (simp add: node_dropped_def assms(2))
  have own: "dyn_mem g = {#Dev_Node (devno ?d)#} + ({#Cdev_Map (devno ?d), Cdev_Obj (cdevp ?d)#} + dyn_mem ?g)"
    using heap_mem_remove [OF assms(1,2)] heap_mem_upd [OF assms(1), of p ?x] assms(6)
    by (simp add: dyn_mem_def g obj_mem_def node_mem_def add_mset_commute del: sum.insert)
  have put: "ktriple (dyn_mem ?g) (kref_put p ?g) (\<lambda>_. dyn_mem (ref_dropped p ?g))"
    by (rule ktriple_kref_put [where x = ?x]) (use assms in \<open>simp_all add: g\<close>)
  have "ktriple (dyn_mem g) (do { tell (Gave (Dev_Node (devno ?d))); cdev_del ?d; kref_put p ?g })
      (\<lambda>_. dyn_mem (ref_dropped p ?g))"
    by (rule ktriple_step [OF ktriple_gave own], simp, rule ktriple_step [OF ktriple_cdev_del [of ?d],
          where F = "dyn_mem ?g"])
      (use put in \<open>simp_all add: add_mset_commute\<close>)
  then show ?thesis by (simp add: kbuf_dyn_teardown_def assms(2) g)
qed

end
