(* ===== verification/Kbuf_Dmabuf.thy ===== *)
theory Kbuf_Dmabuf
  imports Kbuf_Ctl
begin

text \<open>
  The dma-buf exporter and importer of src/kbuf_dmabuf.c and the two ioctls that reach them
  (src/kbuf_ioctl.c): the scatter list of a device's data ring, the reference an exported buffer
  holds on its device, and the in-kernel importer self-test with its unwind labels. The dma-buf
  core, the DMA mapping layer and \<open>vmalloc_to_page\<close> are parameters: their answers, and the
  ledger of what they hand out.
\<close>

section \<open>Requests that return zero or an error\<close>

definition ask_zero :: "kobj \<Rightarrow> (kst, int) state" where
  "ask_zero x = do {
     r \<leftarrow> ask;
     if r = 0 then do { tell (Got x); State_Monad.return r } else State_Monad.return r }"

lemma ktriple_ask_zero: "ktriple {#} (ask_zero x) (\<lambda>r. if r = 0 then {#x#} else {#})"
  unfolding ask_zero_def
  by (rule ktriple_bind [OF ktriple_ask], rule ktriple_if, rule ktriple_bind [OF ktriple_got])
    (auto intro: ktriple_return)

section \<open>The scatter list\<close>

text \<open>An entry: the page, the length and the offset in the page.\<close>

type_synonym 'p sg_entry = "'p option \<times> nat \<times> nat"

primrec sg_fill :: "nat \<Rightarrow> (ptr \<Rightarrow> 'p option) \<Rightarrow> kbuf_dev \<Rightarrow> nat \<Rightarrow> nat \<Rightarrow> 'p sg_entry list" where
  "sg_fill PAGE_SIZE vmalloc_to_page d i 0 = []"
| "sg_fill PAGE_SIZE vmalloc_to_page d i (Suc n) =
     (vmalloc_to_page (mmap_data d + int (i * PAGE_SIZE)), PAGE_SIZE, 0)
       # sg_fill PAGE_SIZE vmalloc_to_page d (Suc i) n"

definition kbuf_dmabuf_map :: "nat \<Rightarrow> (ptr \<Rightarrow> 'p option) \<Rightarrow> kbuf_dev
    \<Rightarrow> (kst, (ptr \<times> 'p sg_entry list) result) state" where
  "kbuf_dmabuf_map PAGE_SIZE vmalloc_to_page d = do {
     sgt \<leftarrow> ask_ptr Mem;
     if sgt = 0 then State_Monad.return (Inl ENOMEM)
     else do {
       ret \<leftarrow> ask_zero (Sg_Table sgt);
       if ret \<noteq> 0 then do { kfree sgt; State_Monad.return (Inl (Kerr ret)) }
       else do {
         let sgl = sg_fill PAGE_SIZE vmalloc_to_page d 0 (KBUF_MMAP_CAPACITY div PAGE_SIZE);
         ret \<leftarrow> ask_zero (Dma_Mapping sgt);
         if ret \<noteq> 0 then do {
           tell (Gave (Sg_Table sgt));
           kfree sgt;
           State_Monad.return (Inl (Kerr ret)) }
         else State_Monad.return (Inr (sgt, sgl)) } } }"

definition kbuf_dmabuf_unmap :: "ptr \<Rightarrow> (kst, unit) state" where
  "kbuf_dmabuf_unmap sgt = do {
     tell (Gave (Dma_Mapping sgt));
     tell (Gave (Sg_Table sgt));
     kfree sgt }"

definition kbuf_dmabuf_vmap :: "kbuf_dev \<Rightarrow> ptr" where
  "kbuf_dmabuf_vmap d = mmap_data d"

definition kbuf_dmabuf_mmap :: "(ptr \<Rightarrow> u64 \<Rightarrow> unit result) \<Rightarrow> kbuf_dev \<Rightarrow> vm_area \<Rightarrow> unit result" where
  "kbuf_dmabuf_mmap remap_vmalloc_range d vma =
     (if vm_end vma - vm_start vma > of_nat KBUF_MMAP_CAPACITY then Inl EINVAL
      else remap_vmalloc_range (mmap_data d) (vm_pgoff vma))"

definition kbuf_dmabuf_begin_cpu :: int where "kbuf_dmabuf_begin_cpu = 0"
definition kbuf_dmabuf_end_cpu :: int where "kbuf_dmabuf_end_cpu = 0"

section \<open>Export\<close>

definition kbuf_dmabuf_release :: "devref \<Rightarrow> drv \<Rightarrow> (kst, drv option) state" where
  "kbuf_dmabuf_release f g = dev_put f g"

text \<open>The last reference to an exported buffer goes: the core calls the release operation.\<close>

definition dma_buf_put_last :: "ptr \<Rightarrow> devref \<Rightarrow> drv \<Rightarrow> (kst, drv option) state" where
  "dma_buf_put_last b f g = do { tell (Gave (Dmabuf_Ref b)); kbuf_dmabuf_release f g }"

definition kbuf_dmabuf_export :: "devref \<Rightarrow> drv
    \<Rightarrow> (kst, ((int \<times> ptr) result \<times> drv) option) state" where
  "kbuf_dmabuf_export f g = (let g = dev_name f g in
     case dev_get f g of
       None \<Rightarrow> State_Monad.return None
     | Some g \<Rightarrow> do {
         b \<leftarrow> ask_err Dmabuf_Ref;
         if b < 0 then do {
           x \<leftarrow> dev_put f g;
           State_Monad.return (map_option (\<lambda>g. (Inl (Kerr b), g)) x) }
         else do {
           fd \<leftarrow> ask;
           if fd < 0 then do {
             x \<leftarrow> dma_buf_put_last b f g;
             State_Monad.return (map_option (\<lambda>g. (Inl (Kerr fd), g)) x) }
           else State_Monad.return (Some (Inr (fd, b), g\<lparr>exported := (b, f) # exported g\<rparr>)) } })"

text \<open>Closing the file of an exported buffer.\<close>

definition dmabuf_close :: "ptr \<Rightarrow> devref \<Rightarrow> drv \<Rightarrow> (kst, drv option) state" where
  "dmabuf_close b f g = dma_buf_put_last b f (g\<lparr>exported := remove1 (b, f) (exported g)\<rparr>)"

definition kbuf_ioc_export :: "uaccess \<Rightarrow> devref \<Rightarrow> drv
    \<Rightarrow> (kst, (unit result \<times> u8 list \<times> drv) option) state" where
  "kbuf_ioc_export u f g = do {
     x \<leftarrow> kbuf_dmabuf_export f g;
     case x of
       None \<Rightarrow> State_Monad.return None
     | Some (Inl e, g) \<Rightarrow> State_Monad.return (Some (Inl e, [], g))
     | Some (Inr (fd, b), g) \<Rightarrow>
         let (out, left) = copy_to_user u (le_bytes 4 (word_of_int fd :: u32)) in
         if left \<noteq> 0 then do {
           y \<leftarrow> dmabuf_close b f g;
           State_Monad.return (map_option (\<lambda>g. (Inl EFAULT, out, g)) y) }
         else State_Monad.return (Some (Inr (), out, g)) }"

section \<open>The importer self-test\<close>

text \<open>The unwind labels, and the echo of the first 32-bit word into the second.\<close>

definition import_put :: "ptr \<Rightarrow> (kst, unit) state" where
  "import_put dmabuf = tell (Gave (Dmabuf_Ref dmabuf))"

definition import_detach :: "ptr \<Rightarrow> ptr \<Rightarrow> (kst, unit) state" where
  "import_detach dmabuf attach = do { tell (Gave (Dmabuf_Attach attach)); import_put dmabuf }"

definition import_unmap :: "ptr \<Rightarrow> ptr \<Rightarrow> ptr \<Rightarrow> (kst, unit) state" where
  "import_unmap dmabuf attach sgt = do { tell (Gave (Dmabuf_Map sgt)); import_detach dmabuf attach }"

definition echo_word :: "u8 list \<Rightarrow> u8 list option" where
  "echo_word buf = (if length buf < 8 then None else Some (take 4 buf @ take 4 buf @ drop 8 buf))"

text \<open>\<open>buf\<close> is the memory the imported buffer shows at its kernel address.\<close>

definition kbuf_dmabuf_import_selftest :: "u8 list
    \<Rightarrow> (kst, (unit result \<times> u8 list) option) state" where
  "kbuf_dmabuf_import_selftest buf = do {
     dmabuf \<leftarrow> ask_err Dmabuf_Ref;
     if dmabuf < 0 then State_Monad.return (Some (Inl (Kerr dmabuf), buf))
     else do {
       attach \<leftarrow> ask_err Dmabuf_Attach;
       if attach < 0 then do {
         import_put dmabuf;
         State_Monad.return (Some (Inl (Kerr attach), buf)) }
       else do {
         sgt \<leftarrow> ask_err Dmabuf_Map;
         if sgt < 0 then do {
           import_detach dmabuf attach;
           State_Monad.return (Some (Inl (Kerr sgt), buf)) }
         else do {
           nents \<leftarrow> ask;
           if nents < 1 then do {
             import_unmap dmabuf attach sgt;
             State_Monad.return (Some (Inl EIO, buf)) }
           else do {
             ret \<leftarrow> ask_zero (Dmabuf_Vmap dmabuf);
             if ret \<noteq> 0 then do {
               import_unmap dmabuf attach sgt;
               State_Monad.return (Some (Inl (Kerr ret), buf)) }
             else do {
               tell (Gave (Dmabuf_Vmap dmabuf));
               import_unmap dmabuf attach sgt;
               State_Monad.return (map_option (\<lambda>buf. (Inr (), buf)) (echo_word buf)) } } } } } }"

definition kbuf_ioc_import :: "uaccess \<Rightarrow> ubuf \<Rightarrow> (int \<Rightarrow> u8 list)
    \<Rightarrow> (kst, (unit result \<times> u8 list) option) state" where
  "kbuf_ioc_import u arg bufs =
     (let (b, left) = copy_from_user u (replicate 4 0) (ubytes arg 4); fd = sint (le_word b :: u32) in
      if left \<noteq> 0 then State_Monad.return (Some (Inl EFAULT, bufs fd))
      else kbuf_dmabuf_import_selftest (bufs fd))"

section \<open>The synthetic importing device\<close>

definition kbuf_dmabuf_init :: "(kst, ptr result) state" where
  "kbuf_dmabuf_init = do {
     pdev \<leftarrow> ask_err Platform_Dev;
     if pdev < 0 then State_Monad.return (Inl (Kerr pdev))
     else do {
       ret \<leftarrow> ask;
       if ret \<noteq> 0 then do {
         tell (Gave (Platform_Dev pdev));
         State_Monad.return (Inl (Kerr ret)) }
       else State_Monad.return (Inr pdev) } }"

definition kbuf_dmabuf_exit :: "ptr \<Rightarrow> (kst, unit) state" where
  "kbuf_dmabuf_exit pdev = tell (Gave (Platform_Dev pdev))"

section \<open>Properties of the scatter list\<close>

lemma length_sg_fill [simp]: "length (sg_fill ps page_of d i n) = n"
  by (induction n arbitrary: i) simp_all

lemma nth_sg_fill:
  "j < n \<Longrightarrow> sg_fill ps page_of d i n ! j = (page_of (mmap_data d + int ((i + j) * ps)), ps, 0)"
proof (induction n arbitrary: i j)
  case (Suc n)
  then show ?case by (cases j) (simp_all add: algebra_simps)
qed simp

text \<open>Byte \<open>off\<close> of what a scatter list describes, all its entries being whole pages.\<close>

definition sg_byte :: "nat \<Rightarrow> 'p sg_entry list \<Rightarrow> nat \<Rightarrow> ('p \<times> nat) option" where
  "sg_byte ps sgl off = map_option (\<lambda>pg. (pg, snd (snd (sgl ! (off div ps))) + off mod ps))
     (fst (sgl ! (off div ps)))"

lemma ktriple_dmabuf_unmap:
  "sgt \<noteq> 0 \<Longrightarrow> ktriple {#Mem sgt, Sg_Table sgt, Dma_Mapping sgt#} (kbuf_dmabuf_unmap sgt) (\<lambda>_. {#})"
  unfolding kbuf_dmabuf_unmap_def
  by (rule ktriple_step [OF ktriple_gave, where F = "{#Mem sgt, Sg_Table sgt#}"], simp,
      rule ktriple_step [OF ktriple_gave, where F = "{#Mem sgt#}"])
    (simp_all add: ktriple_kfree)

abbreviation sgt_mem :: "(ptr \<times> 'p sg_entry list) result \<Rightarrow> kobj multiset" where
  "sgt_mem r \<equiv> (case r of Inl _ \<Rightarrow> {#} | Inr (sgt, _) \<Rightarrow> {#Mem sgt, Sg_Table sgt, Dma_Mapping sgt#})"

lemma ktriple_dmabuf_map: "ktriple {#} (kbuf_dmabuf_map ps page_of d) sgt_mem"
  unfolding kbuf_dmabuf_map_def Let_def
proof (rule ktriple_bind [OF ktriple_ask_ptr], rule ktriple_if, goal_cases)
  case (2 sgt)
  show ?case
  proof (rule ktriple_step [OF ktriple_ask_zero, where F = "{#Mem sgt#}"], use 2 in simp,
      rule ktriple_if, goal_cases)
    case (1 ret)
    with 2 show ?case by (auto intro!: ktriple_bind [OF ktriple_kfree] ktriple_return)
  next
    case (2 ret)
    show ?case
    proof (rule ktriple_step [OF ktriple_ask_zero, where F = "{#Mem sgt, Sg_Table sgt#}"], use 2 in simp,
        rule ktriple_if, goal_cases)
      case (1 ret)
      with \<open>sgt \<noteq> 0\<close> show ?case
        by (intro ktriple_step [OF ktriple_gave, where F = "{#Mem sgt#}"])
          (auto intro!: ktriple_bind [OF ktriple_kfree] ktriple_return)
    qed (simp add: ktriple_return add_mset_commute)
  qed
qed (simp add: ktriple_return)

lemma dmabuf_map_result:
  "run_state (kbuf_dmabuf_map ps page_of d) k = (Inr (sgt, sgl), k') \<Longrightarrow>
   sgt \<noteq> 0 \<and> sgl = sg_fill ps page_of d 0 (KBUF_MMAP_CAPACITY div ps)"
  by (auto simp: kbuf_dmabuf_map_def Let_def split: if_splits prod.splits)

text \<open>
  C27: the scatter list an importer gets describes exactly the data ring: its entries cover the
  capacity, and byte \<open>off\<close> of it is byte \<open>off\<close> of the ring, on the page the kernel
  and every mmap of the device use for it.
\<close>

theorem dmabuf_map_covers:
  assumes "run_state (kbuf_dmabuf_map ps page_of d) k = (Inr (sgt, sgl), k')"
    and "0 < ps" "ps dvd KBUF_MMAP_CAPACITY" "off < KBUF_MMAP_CAPACITY"
  shows "length sgl * ps = KBUF_MMAP_CAPACITY \<and>
    sg_byte ps sgl off = kernel_byte ps page_of (mmap_data d) off \<and>
    sg_byte ps sgl off = user_byte ps page_of d (ps + off)"
proof -
  have sgl: "sgl = sg_fill ps page_of d 0 (KBUF_MMAP_CAPACITY div ps)"
    using dmabuf_map_result [OF assms(1)] by simp
  have "off div ps < KBUF_MMAP_CAPACITY div ps"
    using assms(2-4) by (simp add: less_mult_imp_div_less dvd_div_mult_self)
  then have "sg_byte ps sgl off = kernel_byte ps page_of (mmap_data d) off"
    by (simp add: sgl sg_byte_def nth_sg_fill kernel_byte_def)
  moreover have "user_byte ps page_of d (ps + off) = kernel_byte ps page_of (mmap_data d) off"
    using user_byte_data [OF assms(2,3), of page_of d off] assms(4) by simp
  ultimately show ?thesis using assms(3) by (simp add: sgl)
qed

text \<open>
  C28: mapping an exported buffer for an importer and unmapping it again is balanced: a failed
  mapping leaves nothing allocated, whichever step failed, and unmapping gives back exactly what
  a successful mapping took.
\<close>

theorem dmabuf_map_balanced:
  assumes "run_state (kbuf_dmabuf_map ps page_of d) k = (r, k')" "held k = Some F"
  shows "case r of
      Inl e \<Rightarrow> held k' = Some F
    | Inr (sgt, sgl) \<Rightarrow> held k' = Some ({#Mem sgt, Sg_Table sgt, Dma_Mapping sgt#} + F) \<and>
        held (snd (run_state (kbuf_dmabuf_unmap sgt) k')) = Some F"
proof (cases r)
  case (Inl e)
  then show ?thesis using ktripleD [OF ktriple_dmabuf_map _ assms(1)] assms(2) by simp
next
  case (Inr y)
  obtain sgt sgl where y: "y = (sgt, sgl)" by fastforce
  have h: "held k' = Some ({#Mem sgt, Sg_Table sgt, Dma_Mapping sgt#} + F)"
    using ktripleD [OF ktriple_dmabuf_map _ assms(1)] assms(2) Inr y by simp
  have "sgt \<noteq> 0" using dmabuf_map_result assms(1) Inr y by blast
  moreover obtain v k2 where "run_state (kbuf_dmabuf_unmap sgt) k' = (v, k2)" by (metis surj_pair)
  ultimately show ?thesis
    using ktripleD [OF ktriple_dmabuf_unmap h] h by (simp add: Inr y)
qed

section \<open>Properties of the importer\<close>

lemma ktriple_import_unmap:
  "ktriple {#Dmabuf_Map s, Dmabuf_Attach a, Dmabuf_Ref b#} (import_unmap b a s) (\<lambda>_. {#})"
  unfolding import_unmap_def import_detach_def import_put_def
  by (rule ktriple_step [OF ktriple_gave, where F = "{#Dmabuf_Attach a, Dmabuf_Ref b#}"], simp,
      rule ktriple_step [OF ktriple_gave, where F = "{#Dmabuf_Ref b#}"])
    (simp_all add: ktriple_gave)

lemma ktriple_import_detach:
  "ktriple {#Dmabuf_Attach a, Dmabuf_Ref b#} (import_detach b a) (\<lambda>_. {#})"
  unfolding import_detach_def import_put_def
  by (rule ktriple_step [OF ktriple_gave, where F = "{#Dmabuf_Ref b#}"]) (simp_all add: ktriple_gave)

lemma ktriple_done: "ktriple P m (\<lambda>_. {#}) \<Longrightarrow> ktriple P (do { m; State_Monad.return x }) (\<lambda>_. {#})"
  by (rule ktriple_bind, assumption, rule ktriple_return, simp)

lemma ktriple_import_selftest: "ktriple {#} (kbuf_dmabuf_import_selftest buf) (\<lambda>_. {#})"
  unfolding kbuf_dmabuf_import_selftest_def
proof (rule ktriple_bind [OF ktriple_ask_err], rule ktriple_if, goal_cases)
  case (2 b)
  show ?case
  proof (rule ktriple_step [OF ktriple_ask_err, where F = "{#Dmabuf_Ref b#}"], use 2 in simp,
      rule ktriple_if, goal_cases)
    case (1 a)
    then show ?case
      using ktriple_done [OF ktriple_gave [of "Dmabuf_Ref b"]] by (simp add: import_put_def)
  next
    case (2 a)
    show ?case
    proof (rule ktriple_step [OF ktriple_ask_err, where F = "{#Dmabuf_Attach a, Dmabuf_Ref b#}"],
        use 2 in simp, rule ktriple_if, goal_cases)
      case (1 s)
      then show ?case using ktriple_done [OF ktriple_import_detach [of a b]] by simp
    next
      case (2 s)
      let ?H = "{#Dmabuf_Map s, Dmabuf_Attach a, Dmabuf_Ref b#}"
      note un = ktriple_done [OF ktriple_import_unmap [of s a b]]
      show ?case
      proof (rule ktriple_step [OF ktriple_ask, where F = ?H], use 2 in simp, rule ktriple_if, goal_cases)
        case (2 n)
        show ?case
        proof (rule ktriple_step [OF ktriple_ask_zero, where F = ?H], simp, rule ktriple_if, goal_cases)
          case (2 ret)
          then show ?case
            by (intro ktriple_step [OF ktriple_gave, where F = ?H]) (use un in simp_all)
        qed (use un in simp)
      qed (use un in simp)
    qed
  qed
qed (simp add: ktriple_return)

lemma import_result:
  assumes "run_state (kbuf_dmabuf_import_selftest buf) k = (x, k')" "8 \<le> length buf"
  shows "(\<exists>e. x = Some (Inl e, buf)) \<or> x = Some (Inr (), take 4 buf @ take 4 buf @ drop 8 buf)"
  using assms
  by (auto simp: kbuf_dmabuf_import_selftest_def echo_word_def split: if_splits prod.splits)

text \<open>
  C29: the importer self-test is balanced and does what it says: whatever step fails, it gives back
  everything it acquired and leaves the buffer alone; when it succeeds, the buffer is unchanged
  but for its second 32-bit word, which now equals the first.
\<close>

theorem import_selftest_echo:
  assumes "run_state (kbuf_dmabuf_import_selftest buf) k = (x, k')" "held k = Some F" "8 \<le> length buf"
  shows "held k' = Some F \<and> (\<exists>r buf'. x = Some (r, buf') \<and>
    (case r of
       Inl _ \<Rightarrow> buf' = buf
     | Inr _ \<Rightarrow> take 4 buf' = take 4 buf \<and> take 4 (drop 4 buf') = take 4 buf \<and>
         drop 8 buf' = drop 8 buf \<and> length buf' = length buf))"
proof
  show "held k' = Some F"
    using ktripleD [OF ktriple_import_selftest _ assms(1)] assms(2) by simp
  from import_result [OF assms(1,3)] show "\<exists>r buf'. x = Some (r, buf') \<and>
    (case r of
       Inl _ \<Rightarrow> buf' = buf
     | Inr _ \<Rightarrow> take 4 buf' = take 4 buf \<and> take 4 (drop 4 buf') = take 4 buf \<and>
         drop 8 buf' = drop 8 buf \<and> length buf' = length buf)"
  proof (elim disjE exE)
    fix e assume "x = Some (Inl e, buf)"
    then show ?thesis by simp
  next
    assume "x = Some (Inr (), take 4 buf @ take 4 buf @ drop 8 buf)"
    with assms(3) show ?thesis by simp
  qed
qed

lemma ktriple_dmabuf_init:
  "ktriple {#} kbuf_dmabuf_init (\<lambda>r. case r of Inl _ \<Rightarrow> {#} | Inr pdev \<Rightarrow> {#Platform_Dev pdev#})"
  unfolding kbuf_dmabuf_init_def
proof (rule ktriple_bind [OF ktriple_ask_err], rule ktriple_if, goal_cases)
  case (2 p)
  show ?case
  proof (rule ktriple_step [OF ktriple_ask, where F = "{#Platform_Dev p#}"], use 2 in simp,
      rule ktriple_if, goal_cases)
    case (1 r)
    show ?case
      by (simp, rule ktriple_bind [OF ktriple_gave], rule ktriple_return, simp)
  qed (simp add: ktriple_return)
qed (simp add: ktriple_return)

section \<open>Concrete runs\<close>

definition yes_kst :: kst where
  "yes_kst = \<lparr>answers = (\<lambda>i. if i = 0 then 7 else 0), ticks = 0, calls = []\<rparr>"

lemma yes_map: "\<exists>k'. run_state (kbuf_dmabuf_map 4096 Some (zero_dev\<lparr>mmap_data := 65536\<rparr>)) yes_kst =
    (Inr (7, sg_fill 4096 Some (zero_dev\<lparr>mmap_data := 65536\<rparr>) 0 (KBUF_MMAP_CAPACITY div 4096)), k')"
  by (simp add: kbuf_dmabuf_map_def ask_ptr_def ask_zero_def ask_def tell_def yes_kst_def
      State_Monad.bind_def State_Monad.return_def)

theorem dmabuf_map_covers_witness:
  "\<exists>sgl k'. run_state (kbuf_dmabuf_map 4096 Some (zero_dev\<lparr>mmap_data := 65536\<rparr>)) yes_kst = (Inr (7, sgl), k') \<and>
     length sgl * 4096 = KBUF_MMAP_CAPACITY \<and> sg_byte 4096 sgl 5000 = Some (65536 + 4096, 904)"
proof -
  obtain sgl k' where run: "run_state (kbuf_dmabuf_map 4096 Some (zero_dev\<lparr>mmap_data := 65536\<rparr>)) yes_kst =
      (Inr (7, sgl), k')" using yes_map by blast
  from run dmabuf_map_covers [OF run, of 5000] show ?thesis
    by (simp add: KBUF_MMAP_CAPACITY_def kernel_byte_def)
qed

theorem dmabuf_map_balanced_witness:
  "\<exists>sgl k'. run_state (kbuf_dmabuf_map 4096 Some (zero_dev\<lparr>mmap_data := 65536\<rparr>)) yes_kst = (Inr (7, sgl), k') \<and>
     held k' = Some {#Mem 7, Sg_Table 7, Dma_Mapping 7#} \<and>
     held (snd (run_state (kbuf_dmabuf_unmap 7) k')) = Some {#}"
proof -
  obtain sgl k' where run: "run_state (kbuf_dmabuf_map 4096 Some (zero_dev\<lparr>mmap_data := 65536\<rparr>)) yes_kst =
      (Inr (7, sgl), k')" using yes_map by blast
  have "held yes_kst = Some {#}" by (simp add: held_def ledger_def yes_kst_def)
  from run dmabuf_map_balanced [OF run this] show ?thesis by simp
qed

theorem import_selftest_echo_witness:
  "\<exists>k'. run_state (kbuf_dmabuf_import_selftest [1, 2, 3, 4, 5, 6, 7, 8, 9])
      \<lparr>answers = (\<lambda>i. if i = 4 then 0 else 1), ticks = 0, calls = []\<rparr> =
      (Some (Inr (), [1, 2, 3, 4, 1, 2, 3, 4, 9]), k') \<and> held k' = Some {#}"
proof -
  have h: "held \<lparr>answers = (\<lambda>i. if i = 4 then 0 else 1), ticks = 0, calls = []\<rparr> = Some {#}"
    by (simp add: held_def ledger_def)
  obtain k' where run: "run_state (kbuf_dmabuf_import_selftest [1, 2, 3, 4, 5, 6, 7, 8, 9])
      \<lparr>answers = (\<lambda>i. if i = 4 then 0 else 1), ticks = 0, calls = []\<rparr> =
      (Some (Inr (), [1, 2, 3, 4, 1, 2, 3, 4, 9]), k')"
    by (simp add: kbuf_dmabuf_import_selftest_def ask_err_def ask_zero_def ask_def tell_def echo_word_def
        import_unmap_def import_detach_def import_put_def State_Monad.bind_def State_Monad.return_def)
  from run import_selftest_echo [OF run h] show ?thesis by simp
qed

end
