(* ===== verification/Kbuf_System.thy ===== *)
theory Kbuf_System
  imports Kbuf_Dmabuf
begin

text \<open>
  The driver as a whole, while the module is loaded: processes open and close devices, read, write
  and reconfigure them, create and destroy dynamic ones, export buffers and drop them, in any
  order. The invariant relates every reference count to the references that exist and the ledger
  to the devices that are alive; it is kept by every event, so no event touches freed memory and
  none leaks or frees twice.
\<close>

section \<open>Events\<close>

datatype event =
    Ctl uaccess ctl_cmd ubuf
  | Open nat
  | Close devref
  | Cmd devref cmd
  | Export uaccess devref
  | Dmabuf_Close ptr devref

definition get_dev :: "devref \<Rightarrow> drv \<Rightarrow> kbuf_dev option" where
  "get_dev f g = (case f of
     Static i \<Rightarrow> if i < length (devices g) then Some (devices g ! i) else None
   | Dyn p \<Rightarrow> map_option obj (heap g p))"

definition set_dev :: "devref \<Rightarrow> kbuf_dev \<Rightarrow> drv \<Rightarrow> drv" where
  "set_dev f d g = (case f of
     Static i \<Rightarrow> g\<lparr>devices := (devices g)[i := d]\<rparr>
   | Dyn p \<Rightarrow> g\<lparr>heap := (case heap g p of
       None \<Rightarrow> heap g | Some x \<Rightarrow> (heap g)(p \<mapsto> x\<lparr>obj := d\<rparr>))\<rparr>)"

text \<open>An event that the kernel would not deliver (closing a file that is not open) does nothing.\<close>

fun sys_step :: "event \<Rightarrow> drv \<Rightarrow> (kst, drv option) state" where
  "sys_step (Ctl u c arg) g = do {
     x \<leftarrow> kbuf_ctl_ioctl u c arg g;
     State_Monad.return (map_option (\<lambda>(r, out, g). g) x) }"
| "sys_step (Open minor) g = State_Monad.return (case kbuf_open minor g of
     None \<Rightarrow> None
   | Some (Inl e, g) \<Rightarrow> Some g
   | Some (Inr f, g) \<Rightarrow> Some (g\<lparr>open_files := f # open_files g\<rparr>))"
| "sys_step (Close f) g =
     (if f \<in> set (open_files g)
      then kbuf_release f (g\<lparr>open_files := remove1 f (open_files g)\<rparr>)
      else State_Monad.return (Some g))"
| "sys_step (Cmd f c) g =
     (if f \<in> set (open_files g)
      then case get_dev f g of
          None \<Rightarrow> State_Monad.return None
        | Some d \<Rightarrow> do {
            x \<leftarrow> cmd_step c d;
            State_Monad.return (map_option (\<lambda>(tr, d'). set_dev f d' g) x) }
      else State_Monad.return (Some g))"
| "sys_step (Export u f) g =
     (if f \<in> set (open_files g)
      then do {
        x \<leftarrow> kbuf_ioc_export u f g;
        State_Monad.return (map_option (\<lambda>(r, out, g). g) x) }
      else State_Monad.return (Some g))"
| "sys_step (Dmabuf_Close b f) g =
     (if (b, f) \<in> set (exported g) then dmabuf_close b f g else State_Monad.return (Some g))"

primrec sys_run :: "event list \<Rightarrow> drv \<Rightarrow> (kst, drv option) state" where
  "sys_run [] g = State_Monad.return (Some g)"
| "sys_run (e # es) g = do {
     x \<leftarrow> sys_step e g;
     case x of None \<Rightarrow> State_Monad.return None | Some g \<Rightarrow> sys_run es g }"

section \<open>The invariant\<close>

text \<open>
  The references on a dynamic device besides its registration: the open files, the exported
  buffers, and the references \<open>X\<close> an operation in progress holds.
\<close>

definition owed :: "drv \<Rightarrow> ptr multiset \<Rightarrow> ptr \<Rightarrow> nat" where
  "owed g X p = count_list (open_files g) (Dyn p) + count_list (map snd (exported g)) (Dyn p) +
     count X p"

definition obj_ok :: "bool \<Rightarrow> nat \<Rightarrow> ptr \<Rightarrow> dyn_obj \<Rightarrow> bool" where
  "obj_ok listed n p x \<longleftrightarrow> p \<noteq> 0 \<and> dynamic (obj x) \<and> dev_ok (obj x) \<and> node_live x = listed \<and>
     refs x = (if listed then 1 else 0) + n \<and> refs x \<noteq> 0"

definition minor_free :: "(ptr \<rightharpoonup> dyn_obj) \<Rightarrow> ptr \<Rightarrow> dyn_obj \<Rightarrow> bool" where
  "minor_free h p x \<longleftrightarrow> (\<forall>q y. q \<noteq> p \<longrightarrow> h q = Some y \<longrightarrow> minor_off (obj y) \<noteq> minor_off (obj x))"

definition statics_ok :: "drv \<Rightarrow> bool" where
  "statics_ok g \<longleftrightarrow> ndevices g = length (devices g) \<and>
     (\<forall>d \<in> set (devices g). dev_ok d \<and> \<not> dynamic d) \<and>
     (\<forall>i. Static i \<in> set (open_files g) \<union> snd ` set (exported g) \<longrightarrow> i < length (devices g))"

definition sys_inv :: "drv \<Rightarrow> ptr multiset \<Rightarrow> bool" where
  "sys_inv g X \<longleftrightarrow> statics_ok g \<and> finite (dom (heap g)) \<and> distinct (dyn_list g) \<and>
     (\<forall>p. case heap g p of
        None \<Rightarrow> owed g X p = 0 \<and> p \<notin> set (dyn_list g)
      | Some x \<Rightarrow> obj_ok (p \<in> set (dyn_list g)) (owed g X p) p x \<and> minor_free (heap g) p x)"

text \<open>What a device of the static array owns besides its share of the array.\<close>

definition static_mem :: "kbuf_dev \<Rightarrow> kobj multiset" where
  "static_mem d = buffers_mem d + {#Cdev_Map (devno d), Dev_Node (devno d)#}"

definition sys_mem :: "drv \<Rightarrow> kobj multiset" where
  "sys_mem g = dyn_mem g + (\<Sum>d \<leftarrow> devices g. static_mem d) +
     mset (map (\<lambda>(b, f). Dmabuf_Ref b) (exported g))"

lemma sys_invD:
  assumes "sys_inv g X"
  shows "statics_ok g" "finite (dom (heap g))" "distinct (dyn_list g)"
    "heap g p = Some x \<Longrightarrow> obj_ok (p \<in> set (dyn_list g)) (owed g X p) p x"
    "heap g p = Some x \<Longrightarrow> minor_free (heap g) p x"
    "heap g p = None \<Longrightarrow> owed g X p = 0 \<and> p \<notin> set (dyn_list g)"
proof -
  show "statics_ok g" "finite (dom (heap g))" "distinct (dyn_list g)"
    using assms by (simp_all add: sys_inv_def)
  have "case heap g p of
        None \<Rightarrow> owed g X p = 0 \<and> p \<notin> set (dyn_list g)
      | Some x \<Rightarrow> obj_ok (p \<in> set (dyn_list g)) (owed g X p) p x \<and> minor_free (heap g) p x"
    using assms by (simp add: sys_inv_def)
  then show "heap g p = Some x \<Longrightarrow> obj_ok (p \<in> set (dyn_list g)) (owed g X p) p x"
    "heap g p = Some x \<Longrightarrow> minor_free (heap g) p x"
    "heap g p = None \<Longrightarrow> owed g X p = 0 \<and> p \<notin> set (dyn_list g)"
    by simp_all
qed

text \<open>Whatever is referenced or listed is alive.\<close>

lemma referenced_alive:
  assumes "sys_inv g X"
    and "Dyn p \<in> set (open_files g) \<or> Dyn p \<in> snd ` set (exported g) \<or> p \<in># X \<or> p \<in> set (dyn_list g)"
  obtains x where "heap g p = Some x" "obj_ok (p \<in> set (dyn_list g)) (owed g X p) p x"
proof -
  have "owed g X p \<noteq> 0 \<or> p \<in> set (dyn_list g)"
    using assms(2) by (auto simp: owed_def count_list_0_iff image_iff)
  with sys_invD(6) [OF assms(1), of p] obtain x where "heap g p = Some x" by (cases "heap g p") auto
  with sys_invD(4) [OF assms(1)] that show thesis by blast
qed

text \<open>A change that concerns one device keeps the invariant if that device is right afterwards.\<close>

lemma sys_inv_change:
  assumes inv: "sys_inv g X" and st: "statics_ok g'" and dist: "distinct (dyn_list g')"
    and others: "\<And>q. q \<noteq> p \<Longrightarrow> heap g' q = heap g q \<and> owed g' X' q = owed g X q \<and>
      (q \<in> set (dyn_list g') \<longleftrightarrow> q \<in> set (dyn_list g))"
    and at: "case heap g' p of
        None \<Rightarrow> owed g' X' p = 0 \<and> p \<notin> set (dyn_list g')
      | Some x \<Rightarrow> obj_ok (p \<in> set (dyn_list g')) (owed g' X' p) p x \<and> minor_free (heap g) p x"
  shows "sys_inv g' X'"
proof -
  have "dom (heap g') \<subseteq> insert p (dom (heap g))" using others by (force simp: domIff)
  then have fin: "finite (dom (heap g'))"
    using sys_invD(2) [OF inv] by (meson finite_insert finite_subset)
  have mf: "minor_free (heap g') p x" if "minor_free (heap g) p x" for x
    using that others by (auto simp: minor_free_def)
  moreover have "case heap g' q of
        None \<Rightarrow> owed g' X' q = 0 \<and> q \<notin> set (dyn_list g')
      | Some x \<Rightarrow> obj_ok (q \<in> set (dyn_list g')) (owed g' X' q) q x \<and> minor_free (heap g') q x" for q
  proof (cases "q = p")
    case True
    then show ?thesis using at mf by (auto split: option.splits)
  next
    case False
    show ?thesis
    proof (cases "heap g q")
      case None
      then show ?thesis using sys_invD(6) [OF inv None] others [OF False] by simp
    next
      case (Some x)
      have "minor_off (obj y) \<noteq> minor_off (obj x)" if "r \<noteq> q" "heap g' r = Some y" for r y
      proof (cases "r = p")
        case True
        with at that(2) Some False show ?thesis by (fastforce simp: minor_free_def)
      next
        case False
        with others that sys_invD(5) [OF inv Some] show ?thesis by (simp add: minor_free_def)
      qed
      with Some sys_invD(4) [OF inv Some] others [OF False] show ?thesis by (simp add: minor_free_def)
    qed
  qed
  ultimately show ?thesis using fin st dist unfolding sys_inv_def by blast
qed

lemma dev_ok_freeable: "dev_ok d \<Longrightarrow> freeable d"
  by (auto simp: dev_ok_def ring_ok_def spsc_ok_def geom_ok_def freeable_def split: if_splits)

section \<open>Taking and dropping references\<close>

lemma inv_kref_get:
  assumes "sys_inv g X" "heap g p = Some x"
  shows "kref_get p g = Some (g\<lparr>heap := (heap g)(p \<mapsto> x\<lparr>refs := refs x + 1\<rparr>)\<rparr>)"
    "sys_inv (g\<lparr>heap := (heap g)(p \<mapsto> x\<lparr>refs := refs x + 1\<rparr>)\<rparr>) (add_mset p X)"
    "dyn_mem (g\<lparr>heap := (heap g)(p \<mapsto> x\<lparr>refs := refs x + 1\<rparr>)\<rparr>) = dyn_mem g"
proof -
  let ?g = "g\<lparr>heap := (heap g)(p \<mapsto> x\<lparr>refs := refs x + 1\<rparr>)\<rparr>"
  show "kref_get p g = Some ?g" by (simp add: kref_get_def assms(2))
  show "sys_inv ?g (add_mset p X)"
    using sys_invD [OF assms(1)] sys_invD(4,5) [OF assms(1,2)]
    by (intro sys_inv_change [where p = p, OF assms(1)])
      (simp_all add: statics_ok_def owed_def obj_ok_def minor_free_def)
  show "dyn_mem ?g = dyn_mem g"
    using heap_mem_remove [OF sys_invD(2) [OF assms(1)] assms(2)]
      heap_mem_upd [OF sys_invD(2) [OF assms(1)], of p "x\<lparr>refs := refs x + 1\<rparr>"]
    by (simp add: dyn_mem_def obj_mem_def del: sum.insert)
qed

lemma inv_ref_dropped:
  assumes "sys_inv g (add_mset p X)"
  shows "sys_inv (ref_dropped p g) X"
proof -
  from referenced_alive [OF assms, of p] obtain x where
    x: "heap g p = Some x" "obj_ok (p \<in> set (dyn_list g)) (owed g (add_mset p X) p) p x" by auto
  note mf = sys_invD(5) [OF assms x(1)]
  show ?thesis
  proof (rule sys_inv_change [where p = p, OF assms])
    show "statics_ok (ref_dropped p g)" using sys_invD(1) [OF assms] by (simp add: statics_ok_def)
    show "distinct (dyn_list (ref_dropped p g))" using sys_invD(3) [OF assms] by simp
    show "case heap (ref_dropped p g) p of
        None \<Rightarrow> owed (ref_dropped p g) X p = 0 \<and> p \<notin> set (dyn_list (ref_dropped p g))
      | Some x \<Rightarrow> obj_ok (p \<in> set (dyn_list (ref_dropped p g))) (owed (ref_dropped p g) X p) p x \<and>
          minor_free (heap g) p x"
      using x mf by (auto simp: ref_dropped_def obj_ok_def owed_def minor_free_def)
  qed (use x in \<open>auto simp: ref_dropped_def owed_def\<close>)
qed

lemma inv_kref_put:
  assumes "sys_inv g (add_mset p X)"
  shows "fst (run_state (kref_put p g) k) = Some (ref_dropped p g)"
    "ktriple (dyn_mem g) (kref_put p g) (\<lambda>_. dyn_mem (ref_dropped p g))"
proof -
  from referenced_alive [OF assms, of p] obtain x where
    x: "heap g p = Some x" "obj_ok (p \<in> set (dyn_list g)) (owed g (add_mset p X) p) p x" by auto
  then show "fst (run_state (kref_put p g) k) = Some (ref_dropped p g)"
    by (auto intro: kref_put_result simp: obj_ok_def)
  show "ktriple (dyn_mem g) (kref_put p g) (\<lambda>_. dyn_mem (ref_dropped p g))"
    using x sys_invD(2) [OF assms]
    by (intro ktriple_kref_put [where x = x]) (auto simp: obj_ok_def owed_def dev_ok_freeable)
qed

text \<open>References move between the environment, the registration and an operation in progress.\<close>

lemma sys_inv_move:
  assumes "sys_inv g X" "statics_ok g'" "heap g' = heap g" "dyn_list g' = dyn_list g"
    and "\<And>q. owed g' X' q = owed g X q"
  shows "sys_inv g' X'"
  using assms(1,2) unfolding sys_inv_def assms(3-5) by blast

lemma count_list_pos: "a \<in> set xs \<Longrightarrow> 0 < count_list xs a"
  using count_list_0_iff [of xs a] by (metis gr0I)

lemma count_list_remove1:
  "a \<in> set xs \<Longrightarrow> count_list xs b = count_list (remove1 a xs) b + (if a = b then 1 else 0)"
  by (induction xs) auto

lemma count_snd_remove1:
  "(b, f) \<in> set xs \<Longrightarrow>
   count_list (map snd xs) h = count_list (map snd (remove1 (b, f) xs)) h + (if f = h then 1 else 0)"
  by (induction xs) auto

lemma inv_add_file:
  assumes "sys_inv g (add_mset p X)"
  shows "sys_inv (g\<lparr>open_files := Dyn p # open_files g\<rparr>) X"
  using sys_invD(1) [OF assms]
  by (intro sys_inv_move [OF assms]) (auto simp: statics_ok_def owed_def)

lemma inv_remove_file:
  assumes "sys_inv g X" "Dyn p \<in> set (open_files g)"
  shows "sys_inv (g\<lparr>open_files := remove1 (Dyn p) (open_files g)\<rparr>) (add_mset p X)"
proof (rule sys_inv_move [OF assms(1)])
  show "statics_ok (g\<lparr>open_files := remove1 (Dyn p) (open_files g)\<rparr>)"
    using sys_invD(1) [OF assms(1)] by (auto simp: statics_ok_def dest: notin_set_remove1)
next
  fix q show "owed (g\<lparr>open_files := remove1 (Dyn p) (open_files g)\<rparr>) (add_mset p X) q = owed g X q"
    using count_list_remove1 [OF assms(2), of "Dyn q"] by (simp add: owed_def)
qed simp_all

lemma inv_add_export:
  assumes "sys_inv g (add_mset p X)"
  shows "sys_inv (g\<lparr>exported := (b, Dyn p) # exported g\<rparr>) X"
  using sys_invD(1) [OF assms]
  by (intro sys_inv_move [OF assms]) (auto simp: statics_ok_def owed_def)

lemma inv_remove_export:
  assumes "sys_inv g X" "(b, Dyn p) \<in> set (exported g)"
  shows "sys_inv (g\<lparr>exported := remove1 (b, Dyn p) (exported g)\<rparr>) (add_mset p X)"
proof (rule sys_inv_move [OF assms(1)])
  show "statics_ok (g\<lparr>exported := remove1 (b, Dyn p) (exported g)\<rparr>)"
    using sys_invD(1) [OF assms(1)] set_remove1_subset [of "(b, Dyn p)" "exported g"]
    by (auto simp: statics_ok_def)
next
  fix q show "owed (g\<lparr>exported := remove1 (b, Dyn p) (exported g)\<rparr>) (add_mset p X) q = owed g X q"
    using count_snd_remove1 [OF assms(2), of "Dyn q"] by (simp add: owed_def)
qed simp_all

lemma inv_unregister:
  assumes "sys_inv g X" "p \<in> set (dyn_list g)"
  shows "sys_inv (node_dropped p (g\<lparr>dyn_list := remove1 p (dyn_list g)\<rparr>)) (add_mset p X)"
proof -
  from referenced_alive [OF assms(1), of p] assms(2) obtain x where
    x: "heap g p = Some x" "obj_ok True (owed g X p) p x" by auto
  show ?thesis
    using sys_invD(1-3) [OF assms(1)] x sys_invD(5) [OF assms(1) x(1)]
    by (intro sys_inv_change [where p = p, OF assms(1)])
      (auto simp: statics_ok_def owed_def node_dropped_def obj_ok_def minor_free_def)
qed

lemma dev_name_inv [simp]: "sys_inv (dev_name f g) X = sys_inv g X"
  by (auto simp: dev_name_def sys_inv_def statics_ok_def owed_def split: devref.split option.split)

lemma dev_name_mem [simp]:
  "dyn_mem (dev_name f g) = dyn_mem g" "heap (dev_name f g) = heap g"
  "open_files (dev_name f g) = open_files g" "exported (dev_name f g) = exported g"
  "devices (dev_name f g) = devices g" "dyn_list (dev_name f g) = dyn_list g"
  "ndevices (dev_name f g) = ndevices g"
  by (auto simp: dev_name_def dyn_mem_def split: devref.split option.split)

section \<open>Files and exported buffers\<close>

definition pin :: "devref \<Rightarrow> ptr multiset \<Rightarrow> ptr multiset" where
  "pin f X = (case f of Static i \<Rightarrow> X | Dyn p \<Rightarrow> add_mset p X)"

definition valid_ref :: "devref \<Rightarrow> drv \<Rightarrow> bool" where
  "valid_ref f g = (case f of Static i \<Rightarrow> i < length (devices g) | Dyn p \<Rightarrow> True)"

lemma pin_simps [simp]: "pin (Static i) X = X" "pin (Dyn p) X = add_mset p X"
  by (simp_all add: pin_def)

lemma valid_ref_simps [simp]: "valid_ref (Static i) g = (i < length (devices g))" "valid_ref (Dyn p) g"
  by (simp_all add: valid_ref_def)

lemma valid_ref_frame [simp]:
  "valid_ref f (g\<lparr>open_files := fs\<rparr>) = valid_ref f g" "valid_ref f (g\<lparr>exported := es\<rparr>) = valid_ref f g"
  "valid_ref f (dev_name h g) = valid_ref f g"
  by (cases f; simp)+

lemma inv_open:
  assumes "sys_inv g (pin f X)" "valid_ref f g"
  shows "sys_inv (g\<lparr>open_files := f # open_files g\<rparr>) X"
proof (cases f)
  case (Static i)
  with assms sys_invD(1) [OF assms(1)] show ?thesis
    by (intro sys_inv_move [OF assms(1)]) (auto simp: statics_ok_def owed_def)
qed (use assms inv_add_file in simp)

lemma inv_close:
  assumes "sys_inv g X" "f \<in> set (open_files g)"
  shows "sys_inv (g\<lparr>open_files := remove1 f (open_files g)\<rparr>) (pin f X)" "valid_ref f g"
proof -
  show "valid_ref f g" using sys_invD(1) [OF assms(1)] assms(2) by (cases f) (auto simp: statics_ok_def)
  show "sys_inv (g\<lparr>open_files := remove1 f (open_files g)\<rparr>) (pin f X)"
  proof (cases f)
    case (Static i)
    have "owed (g\<lparr>open_files := remove1 f (open_files g)\<rparr>) (pin f X) q = owed g X q" for q
      using count_list_remove1 [OF assms(2), of "Dyn q"] Static by (simp add: owed_def)
    moreover have "statics_ok (g\<lparr>open_files := remove1 f (open_files g)\<rparr>)"
      using sys_invD(1) [OF assms(1)] by (auto simp: statics_ok_def dest: notin_set_remove1)
    ultimately show ?thesis by (intro sys_inv_move [OF assms(1)]) simp_all
  qed (use assms inv_remove_file in simp)
qed

lemma inv_export:
  assumes "sys_inv g (pin f X)" "valid_ref f g"
  shows "sys_inv (g\<lparr>exported := (b, f) # exported g\<rparr>) X"
proof (cases f)
  case (Static i)
  with assms sys_invD(1) [OF assms(1)] show ?thesis
    by (intro sys_inv_move [OF assms(1)]) (auto simp: statics_ok_def owed_def)
qed (use assms inv_add_export in simp)

lemma inv_unexport:
  assumes "sys_inv g X" "(b, f) \<in> set (exported g)"
  shows "sys_inv (g\<lparr>exported := remove1 (b, f) (exported g)\<rparr>) (pin f X)" "valid_ref f g"
proof -
  show "valid_ref f g"
    using sys_invD(1) [OF assms(1)] assms(2) by (cases f) (force simp: statics_ok_def)+
  show "sys_inv (g\<lparr>exported := remove1 (b, f) (exported g)\<rparr>) (pin f X)"
  proof (cases f)
    case (Static i)
    have "owed (g\<lparr>exported := remove1 (b, f) (exported g)\<rparr>) (pin f X) q = owed g X q" for q
      using count_snd_remove1 [OF assms(2), of "Dyn q"] Static by (simp add: owed_def)
    moreover have "statics_ok (g\<lparr>exported := remove1 (b, f) (exported g)\<rparr>)"
      using sys_invD(1) [OF assms(1)] set_remove1_subset [of "(b, f)" "exported g"]
      by (auto simp: statics_ok_def)
    ultimately show ?thesis by (intro sys_inv_move [OF assms(1)]) simp_all
  qed (use assms inv_remove_export in simp)
qed

definition unpinned :: "devref \<Rightarrow> drv \<Rightarrow> drv" where
  "unpinned f g = (case f of Static i \<Rightarrow> g | Dyn p \<Rightarrow> ref_dropped p g)"

lemma unpinned_frame [simp]:
  "dyn_list (unpinned f g) = dyn_list g" "open_files (unpinned f g) = open_files g"
  "exported (unpinned f g) = exported g" "devices (unpinned f g) = devices g"
  by (cases f; simp add: unpinned_def)+

lemma dev_put_ok:
  assumes inv: "sys_inv g (pin f X)" and f: "valid_ref f g"
  shows "fst (run_state (dev_put f g) k) = Some (unpinned f g)"
    "ktriple (dyn_mem g) (dev_put f g) (\<lambda>_. dyn_mem (unpinned f g))" "sys_inv (unpinned f g) X"
proof -
  have st: "\<not> dynamic (devices g ! i)" if "i < length (devices g)" for i
    using sys_invD(1) [OF inv] that by (simp add: statics_ok_def)
  have alive: "\<exists>x. heap g p = Some x \<and> dynamic (obj x)" if "f = Dyn p" for p
    using referenced_alive [OF inv, of p] that by (auto simp: obj_ok_def)
  show "fst (run_state (dev_put f g) k) = Some (unpinned f g)"
    using st f alive inv inv_kref_put(1)
    by (cases f) (auto simp: dev_put_def unpinned_def)
  show "ktriple (dyn_mem g) (dev_put f g) (\<lambda>_. dyn_mem (unpinned f g))"
    using st f alive inv inv_kref_put(2)
    by (cases f) (auto simp: dev_put_def unpinned_def intro: ktriple_return)
  show "sys_inv (unpinned f g) X"
    using inv inv_ref_dropped by (cases f) (auto simp: unpinned_def)
qed

definition pinned :: "devref \<Rightarrow> drv \<Rightarrow> drv" where
  "pinned f g = (case f of Static i \<Rightarrow> g
   | Dyn p \<Rightarrow> (case heap g p of None \<Rightarrow> g
     | Some x \<Rightarrow> g\<lparr>heap := (heap g)(p \<mapsto> x\<lparr>refs := refs x + 1\<rparr>)\<rparr>))"

lemma pinned_frame [simp]:
  "dyn_list (pinned f g) = dyn_list g" "open_files (pinned f g) = open_files g"
  "exported (pinned f g) = exported g" "devices (pinned f g) = devices g"
  by (simp_all add: pinned_def split: devref.split option.split)

lemma dev_get_ok:
  assumes inv: "sys_inv g X" and f: "f \<in> set (open_files g)"
  shows "dev_get f g = Some (pinned f g)" "sys_inv (pinned f g) (pin f X)"
    "dyn_mem (pinned f g) = dyn_mem g"
proof -
  have st: "i < length (devices g) \<and> \<not> dynamic (devices g ! i)" if "f = Static i" for i
    using sys_invD(1) [OF inv] f that by (simp add: statics_ok_def)
  have alive: "\<exists>x. heap g p = Some x \<and> dynamic (obj x)" if "f = Dyn p" for p
    using referenced_alive [OF inv, of p] that f by (auto simp: obj_ok_def)
  show "dev_get f g = Some (pinned f g)" "sys_inv (pinned f g) (pin f X)"
    "dyn_mem (pinned f g) = dyn_mem g"
    using st alive inv_kref_get [OF inv] inv
    by (cases f; force simp: dev_get_def pinned_def)+
qed

section \<open>Every event keeps the invariant\<close>

text \<open>The invariant with the ledger: the module owns what its state says it does, and \<open>F\<close>.\<close>

definition sys_ok :: "drv \<Rightarrow> kst \<Rightarrow> kobj multiset \<Rightarrow> bool" where
  "sys_ok g k F \<longleftrightarrow> sys_inv g {#} \<and> held k = Some (sys_mem g + F)"

definition rest_mem :: "drv \<Rightarrow> kobj multiset" where
  "rest_mem g = (\<Sum>d \<leftarrow> devices g. static_mem d) + mset (map (\<lambda>(b, f). Dmabuf_Ref b) (exported g))"

lemma sys_mem_split: "sys_mem g = dyn_mem g + rest_mem g"
  by (simp add: sys_mem_def rest_mem_def ac_simps)

lemma rest_mem_cong:
  "devices g' = devices g \<Longrightarrow> exported g' = exported g \<Longrightarrow> rest_mem g' = rest_mem g"
  by (simp add: rest_mem_def)

lemma dyn_mem_cong [simp]:
  "dyn_mem (g\<lparr>open_files := fs\<rparr>) = dyn_mem g" "dyn_mem (g\<lparr>exported := es\<rparr>) = dyn_mem g"
  "dyn_mem (g\<lparr>dyn_list := ps\<rparr>) = dyn_mem g" "dyn_mem (g\<lparr>devices := ds\<rparr>) = dyn_mem g"
  by (simp_all add: dyn_mem_def)

lemma dev_put_held:
  assumes "sys_inv g (pin f {#})" "valid_ref f g" "held k = Some (sys_mem g + F)"
    and "run_state (dev_put f g) k = (x, k')"
  shows "x = Some (unpinned f g) \<and> sys_ok (unpinned f g) k' F"
proof -
  have h: "held k = Some (dyn_mem g + (rest_mem g + F))" using assms(3) by (simp add: sys_mem_split ac_simps)
  from dev_put_ok [OF assms(1,2)] ktripleD [OF _ h assms(4)] assms(4) rest_mem_cong [of "unpinned f g" g]
  show ?thesis by (auto simp: sys_ok_def sys_mem_split ac_simps dest: arg_cong [where f = fst])
qed

lemma close_ok:
  assumes "sys_ok g k F" "run_state (sys_step (Close f) g) k = (x, k')"
  shows "\<exists>g'. x = Some g' \<and> sys_ok g' k' F"
proof (cases "f \<in> set (open_files g)")
  case True
  let ?g = "dev_name f (g\<lparr>open_files := remove1 f (open_files g)\<rparr>)"
  have inv: "sys_inv ?g (pin f {#})" "valid_ref f ?g"
    using inv_close [OF _ True, of "{#}"] assms(1) by (simp_all add: sys_ok_def)
  have "held k = Some (sys_mem ?g + F)"
    using assms(1) rest_mem_cong [of ?g g] by (simp add: sys_ok_def sys_mem_split)
  with dev_put_held [OF inv this, of x k'] assms(2) True show ?thesis
    by (auto simp: kbuf_release_def)
qed (use assms in auto)

lemma dmabuf_put_ok:
  assumes inv: "sys_inv g (pin f {#})" "valid_ref f g" and h: "held k = Some (add_mset (Dmabuf_Ref b) (sys_mem g) + F)"
    and run: "run_state (dma_buf_put_last b f g) k = (x, k')"
  shows "x = Some (unpinned f g) \<and> sys_ok (unpinned f g) k' F"
proof -
  obtain u k1 where 1: "run_state (tell (Gave (Dmabuf_Ref b))) k = (u, k1)" by (metis surj_pair)
  have "held k1 = Some (sys_mem g + F)"
    using ktripleD [OF ktriple_gave _ 1, of "sys_mem g + F"] h by simp
  from dev_put_held [OF inv this, of x k'] run 1 show ?thesis
    by (simp add: dma_buf_put_last_def kbuf_dmabuf_release_def)
qed

lemma dmabuf_close_held:
  assumes "sys_ok g k F" "(b, f) \<in> set (exported g)" "run_state (dmabuf_close b f g) k = (x, k')"
  shows "\<exists>g'. x = Some g' \<and> sys_ok g' k' F"
proof -
  let ?g = "g\<lparr>exported := remove1 (b, f) (exported g)\<rparr>"
  have inv: "sys_inv ?g (pin f {#})" "valid_ref f ?g"
    using inv_unexport [OF _ assms(2), of "{#}"] assms(1) by (simp_all add: sys_ok_def)
  have "mset (exported g) = add_mset (b, f) (mset (remove1 (b, f) (exported g)))"
    using assms(2) by simp
  from arg_cong [OF this, of "image_mset (\<lambda>(b, f). Dmabuf_Ref b)"]
  have "sys_mem g = add_mset (Dmabuf_Ref b) (sys_mem ?g)" by (simp add: sys_mem_def)
  then have "held k = Some (add_mset (Dmabuf_Ref b) (sys_mem ?g) + F)"
    using assms(1) by (simp add: sys_ok_def)
  from dmabuf_put_ok [OF inv this] assms(3) show ?thesis by (simp add: dmabuf_close_def)
qed

lemma dmabuf_close_ok:
  assumes "sys_ok g k F" "run_state (sys_step (Dmabuf_Close b f) g) k = (x, k')"
  shows "\<exists>g'. x = Some g' \<and> sys_ok g' k' F"
  using assms dmabuf_close_held by (cases "(b, f) \<in> set (exported g)") auto

text \<open>Reads, writes and reconfiguration leave the identity of a device and its mapping alone.\<close>

definition same_node :: "kbuf_dev \<Rightarrow> kbuf_dev \<Rightarrow> bool" where
  "same_node d d' \<longleftrightarrow> minor_off d' = minor_off d \<and> devno d' = devno d \<and> cdevp d' = cdevp d \<and>
     dynamic d' = dynamic d \<and> mmap_ctrl d' = mmap_ctrl d \<and> mmap_data d' = mmap_data d"

lemma ring_same_node:
  "kbuf_ring_consume u d n = Some (r, out, d') \<Longrightarrow> same_node d d'"
  "kbuf_ring_produce u d ub n = Some (r', d') \<Longrightarrow> same_node d d'"
  by (auto simp: kbuf_ring_consume_def kbuf_ring_produce_def same_node_def Let_def split: if_splits prod.splits)

lemma spsc_same_node:
  "kbuf_spsc_consume u d n = Some (r, out, d') \<Longrightarrow> same_node d d'"
  "kbuf_spsc_produce u d ub n = Some (r', d') \<Longrightarrow> same_node d d'"
  by (auto simp: kbuf_spsc_consume_def kbuf_spsc_produce_def same_node_def Let_def split: if_splits prod.splits)

lemma same_node_refl [simp]: "same_node d d" by (simp add: same_node_def)

lemma syscall_same_node: "syscall d u c = Some (r, d') \<Longrightarrow> same_node d d'"
  by (cases c)
    (auto simp: read_nonblock write_nonblock finish_read_def finish_write_def reply_of_def
      dest!: ring_same_node spsc_same_node split: if_splits prod.splits)
lemma cmd_same_node:
  assumes "run_state (cmd_step c d) k = (Some (tr, d'), k')"
  shows "same_node d d'"
proof (cases c)
  case (Io u c')
  with assms show ?thesis by (auto dest: syscall_same_node)
next
  case Reset
  with assms show ?thesis by (auto simp: kbuf_ioc_reset_def same_node_def)
next
  case (Smode u arg)
  with assms show ?thesis
    by (auto simp: kbuf_ioc_smode_def Let_def same_node_def split: if_splits prod.splits)
next
  case (Resize u arg)
  obtain r w d1 k1 where e: "run_state (kbuf_ioc_resize u arg (\<lambda>d. d) d) k = ((r, w, d1), k1)"
    by (metis surj_pair)
  with Resize assms have "d1 = d'" by simp
  with resize_cases [OF e] show ?thesis by cases (auto simp: same_node_def resized_def)
qed

lemma sum_list_update_mset:
  fixes f :: "'a \<Rightarrow> 'b multiset"
  assumes "i < length ds"
  shows "\<exists>R. (\<Sum>d \<leftarrow> ds. f d) = f (ds ! i) + R \<and> (\<forall>d'. (\<Sum>d \<leftarrow> ds[i := d']. f d) = f d' + R)"
proof -
  have ds: "ds = take i ds @ ds ! i # drop (Suc i) ds" by (rule id_take_nth_drop [OF assms])
  have "(\<Sum>d \<leftarrow> ds. f d) = f (ds ! i) + (sum_list (map f (take i ds)) + sum_list (map f (drop (Suc i) ds)))"
    by (subst ds) (simp add: ac_simps)
  moreover have "(\<Sum>d \<leftarrow> ds[i := d']. f d) =
      f d' + (sum_list (map f (take i ds)) + sum_list (map f (drop (Suc i) ds)))" for d'
    using assms by (simp add: upd_conv_take_nth_drop ac_simps)
  ultimately show ?thesis by blast
qed

lemma get_dev_alive:
  assumes "sys_inv g {#}" "f \<in> set (open_files g)"
  obtains d where "get_dev f g = Some d" "dev_ok d"
proof (cases f)
  case (Static i)
  with sys_invD(1) [OF assms(1)] assms(2) have "i < length (devices g)" "dev_ok (devices g ! i)"
    by (auto simp: statics_ok_def)
  with Static that show thesis by (simp add: get_dev_def)
next
  case (Dyn p)
  with referenced_alive [OF assms(1), of p] assms(2) that show thesis
    by (auto simp: get_dev_def obj_ok_def)
qed

lemma set_dev_dyn:
  assumes "get_dev (Dyn p) g = Some d"
  obtains x where "heap g p = Some x" "d = obj x"
    "set_dev (Dyn p) d' g = g\<lparr>heap := (heap g)(p \<mapsto> x\<lparr>obj := d'\<rparr>)\<rparr>"
  using assms that by (auto simp: get_dev_def set_dev_def)

lemma set_dev_inv:
  assumes inv: "sys_inv g X" and d: "get_dev f g = Some d" and d': "dev_ok d'" "same_node d d'"
  shows "sys_inv (set_dev f d' g) X"
proof (cases f)
  case (Static i)
  with d have i: "i < length (devices g)" "d = devices g ! i" by (auto simp: get_dev_def split: if_splits)
  have "statics_ok (set_dev f d' g)"
    using sys_invD(1) [OF inv] i d'
    by (auto simp: statics_ok_def set_dev_def Static same_node_def dest!: set_update_subset_insert [THEN subsetD])
  then show ?thesis
    by (intro sys_inv_move [OF inv]) (simp_all add: set_dev_def Static owed_def)
next
  case (Dyn p)
  from set_dev_dyn [OF d [unfolded Dyn]] obtain x where x: "heap g p = Some x" "d = obj x"
    "set_dev (Dyn p) d' g = g\<lparr>heap := (heap g)(p \<mapsto> x\<lparr>obj := d'\<rparr>)\<rparr>" by metis
  show ?thesis
    unfolding Dyn x(3) using sys_invD(1-3) [OF inv] sys_invD(4,5) [OF inv x(1)] d' x(1,2)
    by (intro sys_inv_change [where p = p, OF inv])
      (auto simp: statics_ok_def owed_def obj_ok_def minor_free_def same_node_def)
qed

lemma set_dev_mem:
  assumes inv: "sys_inv g X" and d: "get_dev f g = Some d" and d': "same_node d d'"
  shows "\<exists>R. sys_mem g = dev_slots_mem d + R \<and> sys_mem (set_dev f d' g) = dev_slots_mem d' + R"
proof (cases f)
  case (Static i)
  with d have i: "i < length (devices g)" "d = devices g ! i" by (auto simp: get_dev_def split: if_splits)
  let ?I = "mmap_mem d + {#Cdev_Map (devno d), Dev_Node (devno d)#}"
  from sum_list_update_mset [OF i(1), of static_mem] i(2) obtain R where
    R: "(\<Sum>d \<leftarrow> devices g. static_mem d) = static_mem d + R"
    "(\<Sum>d \<leftarrow> (devices g)[i := d']. static_mem d) = static_mem d' + R" by blast
  moreover have "static_mem d = dev_slots_mem d + ?I" "static_mem d' = dev_slots_mem d' + ?I"
    using d' by (simp_all add: static_mem_def buffers_mem_def mmap_mem_def same_node_def)
  ultimately show ?thesis
    by (intro exI [where x = "?I + R + dyn_mem g + mset (map (\<lambda>(b, f). Dmabuf_Ref b) (exported g))"])
      (simp add: sys_mem_def set_dev_def Static ac_simps)
next
  case (Dyn p)
  from set_dev_dyn [OF d [unfolded Dyn]] obtain x where x: "heap g p = Some x" "d = obj x"
    and set: "set_dev (Dyn p) d' g = g\<lparr>heap := (heap g)(p \<mapsto> x\<lparr>obj := d'\<rparr>)\<rparr>" by metis
  let ?x = "x\<lparr>obj := d'\<rparr>"
  let ?O = "{#Mem p, Ida_Id (minor_off d)#} + mmap_mem d + (if node_live x then node_mem d else {#})"
  have o: "obj_mem p x = dev_slots_mem d + ?O" "obj_mem p ?x = dev_slots_mem d' + ?O"
    using d' by (simp_all add: obj_mem_def buffers_mem_def node_mem_def mmap_mem_def same_node_def x)
  have hs: "heap (g\<lparr>heap := h\<rparr>) = h" for h by simp
  have "dyn_mem g = dev_slots_mem d + (?O + heap_mem ((heap g)(p := None)))"
    "dyn_mem (set_dev f d' g) = dev_slots_mem d' + (?O + heap_mem ((heap g)(p := None)))"
    unfolding Dyn set dyn_mem_def heap_mem_remove [OF sys_invD(2) [OF inv] x(1)]
    by (simp_all only: o heap_mem_upd [OF sys_invD(2) [OF inv]] hs union_assoc)
  moreover have "rest_mem (set_dev f d' g) = rest_mem g"
    unfolding Dyn set by (rule rest_mem_cong) simp_all
  ultimately show ?thesis
    by (intro exI [where x = "?O + heap_mem ((heap g)(p := None)) + rest_mem g"])
      (simp only: sys_mem_split union_assoc)
qed

lemma cmd_event_ok:
  assumes "sys_ok g k F" "cmd_ok c" "run_state (sys_step (Cmd f c) g) k = (x, k')"
  shows "\<exists>g'. x = Some g' \<and> sys_ok g' k' F"
proof (cases "f \<in> set (open_files g)")
  case True
  from assms(1) have inv: "sys_inv g {#}" and h: "held k = Some (sys_mem g + F)"
    by (simp_all add: sys_ok_def)
  from get_dev_alive [OF inv True] obtain d where d: "get_dev f g = Some d" "dev_ok d" by blast
  obtain y k1 where y: "run_state (cmd_step c d) k = (y, k1)" by fastforce
  from d(1) inv True have "\<exists>R. sys_mem g = dev_slots_mem d + R"
    using set_dev_mem [OF inv d(1)] same_node_refl by blast
  then obtain R where R: "sys_mem g = dev_slots_mem d + R" by blast
  with h have "held k = Some (dev_slots_mem d + (R + F))" by (simp add: ac_simps)
  from cmd_step_ok [OF d(2) assms(2) y this] obtain tr d' where
    d': "y = Some (tr, d')" "dev_ok d'" "held k1 = Some (dev_slots_mem d' + (R + F))" by auto
  have sn: "same_node d d'" using cmd_same_node y d'(1) by blast
  from set_dev_mem [OF inv d(1) sn] R have "sys_mem (set_dev f d' g) = dev_slots_mem d' + R"
    by auto
  then have "sys_ok (set_dev f d' g) k1 F"
    using set_dev_inv [OF inv d(1) d'(2) sn] d'(3) by (simp add: sys_ok_def union_assoc)
  with d'(1) y d(1) True assms(3) show ?thesis by auto
qed (use assms in auto)

lemma dyn_find_ok:
  assumes "\<forall>p \<in> set ps. \<exists>x. h p = Some x"
  shows "\<exists>r. dyn_find h off ps = Some r \<and>
    (case r of
       None \<Rightarrow> \<forall>p \<in> set ps. \<forall>x. h p = Some x \<longrightarrow> minor_off (obj x) \<noteq> off
     | Some p \<Rightarrow> p \<in> set ps \<and> (\<exists>x. h p = Some x \<and> minor_off (obj x) = off))"
  using assms by (induction ps) (auto split: option.splits)

lemma sys_find:
  assumes "sys_inv g X"
  obtains (absent) "dyn_find (heap g) off (dyn_list g) = Some None"
      "\<forall>p \<in> set (dyn_list g). \<forall>x. heap g p = Some x \<longrightarrow> minor_off (obj x) \<noteq> off"
  | (found) p x where "dyn_find (heap g) off (dyn_list g) = Some (Some p)" "p \<in> set (dyn_list g)"
      "heap g p = Some x" "minor_off (obj x) = off"
proof -
  have "\<forall>p \<in> set (dyn_list g). \<exists>x. heap g p = Some x"
    using referenced_alive [OF assms] by metis
  from dyn_find_ok [OF this, of off] obtain r where
    r: "dyn_find (heap g) off (dyn_list g) = Some r"
    "case r of
       None \<Rightarrow> \<forall>p \<in> set (dyn_list g). \<forall>x. heap g p = Some x \<longrightarrow> minor_off (obj x) \<noteq> off
     | Some p \<Rightarrow> p \<in> set (dyn_list g) \<and> (\<exists>x. heap g p = Some x \<and> minor_off (obj x) = off)" by blast
  then show thesis by (cases r) (auto intro: absent found)
qed

lemma open_ok:
  assumes "sys_ok g k F" "run_state (sys_step (Open minor) g) k = (x, k')"
  shows "\<exists>g'. x = Some g' \<and> sys_ok g' k' F"
proof -
  from assms(1) have inv: "sys_inv g {#}" by (simp add: sys_ok_def)
  note st = sys_invD(1) [OF inv, unfolded statics_ok_def]
  show ?thesis
  proof (cases "minor < ndevices g")
    case True
    then have "sys_inv (g\<lparr>open_files := Static minor # open_files g\<rparr>) {#}"
      using inv_open [of g "Static minor" "{#}"] inv st by simp
    with True assms show ?thesis
      by (auto simp: kbuf_open_def dev_name_def sys_ok_def sys_mem_def)
  next
    case False
    show ?thesis
    proof (rule sys_find [OF inv, of "int minor - int (ndevices g)"])
      assume "dyn_find (heap g) (int minor - int (ndevices g)) (dyn_list g) = Some None"
      with False assms show ?thesis by (auto simp: kbuf_open_def kbuf_dyn_get_def)
    next
      fix p y
      assume p: "dyn_find (heap g) (int minor - int (ndevices g)) (dyn_list g) = Some (Some p)"
        "heap g p = Some y"
      let ?g = "dev_name (Dyn p) (g\<lparr>heap := (heap g)(p \<mapsto> y\<lparr>refs := refs y + 1\<rparr>)\<rparr>)"
      note get = inv_kref_get [OF inv p(2)]
      have "sys_inv (?g\<lparr>open_files := Dyn p # open_files ?g\<rparr>) {#}"
        using get(2) by (intro inv_open) simp_all
      moreover have "sys_mem (?g\<lparr>open_files := Dyn p # open_files ?g\<rparr>) = sys_mem g"
        using get(3) by (simp add: sys_mem_def)
      ultimately show ?thesis using False assms p get(1)
        by (auto simp: kbuf_open_def kbuf_dyn_get_def sys_ok_def)
    qed
  qed
qed

lemma export_held:
  assumes "sys_ok g k F" "f \<in> set (open_files g)" "run_state (kbuf_dmabuf_export f g) k = (x, k')"
  shows "\<exists>r g'. x = Some (r, g') \<and> sys_ok g' k' F \<and>
    (\<forall>fd b. r = Inr (fd, b) \<longrightarrow> (b, f) \<in> set (exported g'))"
proof -
  let ?n = "dev_name f g" and ?g = "pinned f (dev_name f g)"
  have inv: "sys_inv ?n {#}" "f \<in> set (open_files ?n)" using assms(1,2) by (simp_all add: sys_ok_def)
  note get = dev_get_ok [OF inv]
  have v: "valid_ref f ?g" using inv_close(2) [OF inv] by (cases f) simp_all
  have mem: "sys_mem ?g = sys_mem g"
    using get(3) rest_mem_cong [of ?g g] by (simp add: sys_mem_split)
  obtain b k1 where b: "run_state (ask_err Dmabuf_Ref) k = (b, k1)" by fastforce
  obtain fd k2 where fd: "run_state ask k1 = (fd, k2)" by fastforce
  have h1: "held k1 = Some ((if b < 0 then {#} else {#Dmabuf_Ref b#}) + (sys_mem ?g + F))"
    using ktripleD [OF ktriple_ask_err _ b, of "sys_mem g + F"] assms(1) mem by (simp add: sys_ok_def)
  have h2: "held k2 = held k1" using ktripleD [OF ktriple_ask _ fd] h1 by simp
  show ?thesis
  proof (cases "b < 0")
    case True
    obtain y k3 where y: "run_state (dev_put f ?g) k1 = (y, k3)" by fastforce
    from dev_put_held [OF get(2) v _ y, of F] h1 True have "y = Some (unpinned f ?g)"
      "sys_ok (unpinned f ?g) k3 F" by simp_all
    with True b y get(1) assms(3) show ?thesis by (auto simp: kbuf_dmabuf_export_def Let_def)
  next
    case False
    with h1 h2 have h: "held k2 = Some (add_mset (Dmabuf_Ref b) (sys_mem ?g) + F)" by simp
    show ?thesis
    proof (cases "fd < 0")
      case True
      obtain y k3 where y: "run_state (dma_buf_put_last b f ?g) k2 = (y, k3)" by fastforce
      from dmabuf_put_ok [OF get(2) v h y] have "y = Some (unpinned f ?g)"
        "sys_ok (unpinned f ?g) k3 F" by simp_all
      with True False b fd y get(1) assms(3) show ?thesis by (auto simp: kbuf_dmabuf_export_def Let_def)
    next
      case fd0: False
      let ?e = "?g\<lparr>exported := (b, f) # exported ?g\<rparr>"
      have "sys_inv ?e {#}" using inv_export [OF get(2) v] by simp
      moreover have "sys_mem ?e = add_mset (Dmabuf_Ref b) (sys_mem ?g)"
        by (simp add: sys_mem_def)
      ultimately have "sys_ok ?e k2 F" using h by (simp add: sys_ok_def)
      with False fd0 b fd get(1) assms(3) show ?thesis by (auto simp: kbuf_dmabuf_export_def Let_def)
    qed
  qed
qed

lemma export_ok:
  assumes "sys_ok g k F" "run_state (sys_step (Export u f) g) k = (x, k')"
  shows "\<exists>g'. x = Some g' \<and> sys_ok g' k' F"
proof (cases "f \<in> set (open_files g)")
  case True
  obtain y k1 where y: "run_state (kbuf_dmabuf_export f g) k = (y, k1)" by fastforce
  from export_held [OF assms(1) True y] obtain r g1 where
    1: "y = Some (r, g1)" "sys_ok g1 k1 F" "\<And>fd b. r = Inr (fd, b) \<Longrightarrow> (b, f) \<in> set (exported g1)" by auto
  show ?thesis
  proof (cases r)
    case (Inl e)
    with True y 1 assms(2) show ?thesis by (auto simp: kbuf_ioc_export_def)
  next
    case (Inr z)
    obtain fd b where z: "z = (fd, b)" by fastforce
    obtain v k2 where v: "run_state (dmabuf_close b f g1) k1 = (v, k2)" by fastforce
    from dmabuf_close_held [OF 1(2) _ v] 1(3) Inr z obtain g2 where "v = Some g2" "sys_ok g2 k2 F" by auto
    with True y 1 v Inr z assms(2) show ?thesis
      by (auto simp: kbuf_ioc_export_def Let_def split: prod.splits if_splits)
  qed
qed (use assms in auto)

section \<open>Creation and destruction\<close>

lemma teardown_held:
  assumes "sys_ok g k F" and p: "p \<in> set (dyn_list g)"
    and run: "run_state (kbuf_dyn_teardown p (g\<lparr>dyn_list := remove1 p (dyn_list g)\<rparr>)) k = (z, k')"
  shows "z = Some (ref_dropped p (node_dropped p (g\<lparr>dyn_list := remove1 p (dyn_list g)\<rparr>)))"
    "sys_ok (ref_dropped p (node_dropped p (g\<lparr>dyn_list := remove1 p (dyn_list g)\<rparr>))) k' F"
proof -
  let ?g = "g\<lparr>dyn_list := remove1 p (dyn_list g)\<rparr>"
  let ?d = "ref_dropped p (node_dropped p ?g)"
  from assms(1) have inv: "sys_inv g {#}" and h: "held k = Some (sys_mem g + F)"
    by (simp_all add: sys_ok_def)
  from referenced_alive [OF inv, of p] p obtain y where
    y: "heap g p = Some y" "obj_ok True (owed g {#} p) p y" by auto
  show "z = Some ?d" using teardown_result [of ?g p y k] y run by (simp add: obj_ok_def)
  have "ktriple (dyn_mem ?g) (kbuf_dyn_teardown p ?g) (\<lambda>_. dyn_mem ?d)"
    using y sys_invD(2) [OF inv]
    by (intro ktriple_teardown [where x = y]) (simp_all add: obj_ok_def dev_ok_freeable)
  from ktripleD [OF this _ run, of "rest_mem g + F"] h
  have "held k' = Some (dyn_mem ?d + rest_mem g + F)" by (simp add: sys_mem_split ac_simps)
  moreover have "rest_mem ?d = rest_mem g" by (rule rest_mem_cong) (simp_all add: node_dropped_def)
  ultimately show "sys_ok ?d k' F"
    using inv_ref_dropped [OF inv_unregister [OF inv p]] by (simp add: sys_ok_def sys_mem_split)
qed

lemma destroy_cases:
  assumes ok: "sys_ok g k F" and run: "run_state (kbuf_dyn_destroy i g) k = (z, k')"
  obtains (absent) "z = Some (Inl ENOENT, g)" "k' = k"
      "\<forall>p \<in> set (dyn_list g). \<forall>x. heap g p = Some x \<longrightarrow> minor_off (obj x) \<noteq> i"
  | (gone) p x g' where "z = Some (Inr (), g')" "sys_ok g' k' F"
      "heap g p = Some x" "minor_off (obj x) = i" "p \<in> set (dyn_list g)"
      "g' = ref_dropped p (node_dropped p (g\<lparr>dyn_list := remove1 p (dyn_list g)\<rparr>))"
proof (rule sys_find [of g "{#}" i])
  show "sys_inv g {#}" using ok by (simp add: sys_ok_def)
next
  assume "dyn_find (heap g) i (dyn_list g) = Some None"
    "\<forall>p \<in> set (dyn_list g). \<forall>x. heap g p = Some x \<longrightarrow> minor_off (obj x) \<noteq> i"
  with run absent show thesis by (auto simp: kbuf_dyn_destroy_def)
next
  fix p y
  assume p: "dyn_find (heap g) i (dyn_list g) = Some (Some p)" "p \<in> set (dyn_list g)" "heap g p = Some y"
    "minor_off (obj y) = i"
  obtain v k1 where v: "run_state (kbuf_dyn_teardown p (g\<lparr>dyn_list := remove1 p (dyn_list g)\<rparr>)) k = (v, k1)"
    by fastforce
  from teardown_held [OF ok p(2) v] p v run
  show thesis by (intro gone [of _ p y]) (auto simp: kbuf_dyn_destroy_def)
qed

lemma destroy_held:
  assumes "sys_ok g k F" "run_state (kbuf_dyn_destroy i g) k = (x, k')"
  shows "\<exists>r g'. x = Some (r, g') \<and> sys_ok g' k' F"
  using destroy_cases [OF assms] assms(1) by metis

text \<open>
  What the driver relies on when it creates a device: the kernel hands out no object that is still
  outstanding (two live allocations have different addresses, two live ids are different).
\<close>

definition exclusive :: "kst \<Rightarrow> bool" where
  "exclusive k \<longleftrightarrow> (case held k of None \<Rightarrow> True | Some H \<Rightarrow> \<forall>x \<in># H. count H x = 1)"

lemma exclusive_once:
  assumes "exclusive k" "held k = Some (A + B)" "x \<in># A"
  shows "x \<notin># B"
proof
  assume "x \<in># B"
  with assms(3) have "2 \<le> count (A + B) x" by (simp add: count_greater_zero_iff [symmetric] del: count_greater_zero_iff)
  with assms show False by (fastforce simp: exclusive_def)
qed

lemma heap_mem_in:
  assumes "finite (dom (heap g))" "heap g q = Some y"
  shows "Mem q \<in># sys_mem g" "Ida_Id (minor_off (obj y)) \<in># sys_mem g"
  using heap_mem_remove [OF assms] by (simp_all add: sys_mem_def dyn_mem_def obj_mem_def)

lemma inv_added:
  assumes inv: "sys_inv g {#}" and p: "heap g p = None" "p \<noteq> 0" and d: "fresh_dev off d"
    and minor: "\<And>q y. heap g q = Some y \<Longrightarrow> minor_off (obj y) \<noteq> off"
  shows "sys_inv (added p d g) {#}"
proof (rule sys_inv_change [where p = p, OF inv])
  show "statics_ok (added p d g)" using sys_invD(1) [OF inv] by (simp add: statics_ok_def added_def)
  show "distinct (dyn_list (added p d g))"
    using sys_invD(3) [OF inv] sys_invD(6) [OF inv p(1)] by (simp add: added_def)
qed (use sys_invD(6) [OF inv p(1)] p(2) d minor in
    \<open>auto simp: added_def owed_def obj_ok_def minor_free_def fresh_dev_def\<close>)

lemma create_held:
  assumes "sys_ok g k F" "run_state (kbuf_dyn_create g) k = ((r, g'), k')" "exclusive k'"
  shows "sys_ok g' k' F"
proof -
  from assms(1) have inv: "sys_inv g {#}" and h: "held k = Some (sys_mem g + F)"
    by (simp_all add: sys_ok_def)
  note fin = sys_invD(2) [OF inv]
  have h': "held k' = Some (create_post (r, g') + (sys_mem g + F))"
    by (rule ktripleD [OF ktriple_dyn_create _ assms(2)]) (simp add: h)
  from dyn_create_result [OF assms(2)] show ?thesis
  proof (elim disjE conjE exE)
    fix e assume "r = Inl e" "g' = g"
    then show ?thesis using h' inv by (simp add: sys_ok_def)
  next
    fix p d off
    assume *: "r = Inr off" "0 \<le> off" "p \<noteq> 0" "fresh_dev off d" "g' = added p d g"
    let ?x = "\<lparr>obj = d, refs = 1, node_live = True\<rparr>"
    have h2: "held k' = Some (obj_mem p ?x + (sys_mem g + F))"
      using h' by (simp add: * added_def newest_mem_def)
    have once: "z \<notin># sys_mem g" if "z \<in># obj_mem p ?x" for z
      using exclusive_once [OF assms(3) h2 that] by simp
    have p: "heap g p = None"
      using once [of "Mem p"] heap_mem_in(1) [OF fin, of p] by (cases "heap g p") (auto simp: obj_mem_def)
    have "minor_off (obj y) \<noteq> off" if "heap g q = Some y" for q y
      using once [of "Ida_Id off"] heap_mem_in(2) [OF fin that] *(4)
      by (auto simp: obj_mem_def fresh_dev_def)
    from inv_added [OF inv p *(3,4) this] have "sys_inv g' {#}" by (simp add: *)
    moreover have "sys_mem g' = obj_mem p ?x + sys_mem g"
      using heap_mem_insert [OF fin p, of ?x] rest_mem_cong [of g' g]
      by (simp add: sys_mem_split * added_def dyn_mem_def union_assoc del: sum.insert)
    ultimately show ?thesis using h2 by (simp add: sys_ok_def union_assoc)
  qed
qed

lemma ctl_ok:
  assumes "sys_ok g k F" "run_state (sys_step (Ctl u c arg) g) k = (x, k')"
    and "c = KBUF_CTL_CREATE \<Longrightarrow> exclusive (snd (run_state (kbuf_dyn_create g) k))"
  shows "\<exists>g'. x = Some g' \<and> sys_ok g' k' F"
proof (cases c)
  case KBUF_CTL_CREATE
  obtain r g1 k1 where 1: "run_state (kbuf_dyn_create g) k = ((r, g1), k1)" by (metis surj_pair)
  have ok: "sys_ok g1 k1 F" using create_held [OF assms(1) 1] assms(3) 1 KBUF_CTL_CREATE by simp
  obtain y k2 where 2: "run_state (kbuf_dyn_destroy (projr r) g1) k1 = (y, k2)" by fastforce
  from destroy_held [OF ok 2] obtain r' g2 where "y = Some (r', g2)" "sys_ok g2 k2 F" by blast
  with 1 2 ok assms(2) KBUF_CTL_CREATE show ?thesis
    by (auto simp: kbuf_ctl_ioctl_def Let_def split: sum.splits prod.splits if_splits)
next
  case KBUF_CTL_DESTROY
  let ?i = "sint (le_word (fst (copy_from_user u (replicate 4 0) (ubytes arg 4))) :: u32)"
  obtain y k2 where 2: "run_state (kbuf_dyn_destroy ?i g) k = (y, k2)" by fastforce
  from destroy_held [OF assms(1) 2] obtain r' g2 where "y = Some (r', g2)" "sys_ok g2 k2 F" by blast
  with 2 assms(1,2) KBUF_CTL_DESTROY show ?thesis
    by (auto simp: kbuf_ctl_ioctl_def Let_def split: prod.splits if_splits)
next
  case CTL_OTHER
  with assms show ?thesis by (auto simp: kbuf_ctl_ioctl_def)
qed

section \<open>Every history\<close>

fun event_ok :: "event \<Rightarrow> bool" where
  "event_ok (Cmd f c) = cmd_ok c"
| "event_ok _ = True"

fun fresh_step :: "event \<Rightarrow> drv \<Rightarrow> kst \<Rightarrow> bool" where
  "fresh_step (Ctl u KBUF_CTL_CREATE arg) g k = exclusive (snd (run_state (kbuf_dyn_create g) k))"
| "fresh_step _ g k = True"

primrec fresh_run :: "event list \<Rightarrow> drv \<Rightarrow> kst \<Rightarrow> bool" where
  "fresh_run [] g k = True"
| "fresh_run (e # es) g k \<longleftrightarrow> fresh_step e g k \<and>
     (case run_state (sys_step e g) k of
        (None, k') \<Rightarrow> True
      | (Some g', k') \<Rightarrow> fresh_run es g' k')"

lemma sys_step_ok:
  assumes "sys_ok g k F" "event_ok e" "fresh_step e g k" "run_state (sys_step e g) k = (x, k')"
  shows "\<exists>g'. x = Some g' \<and> sys_ok g' k' F"
proof (cases e)
  case (Ctl u c arg)
  then show ?thesis using ctl_ok [of g k F u c arg x k'] assms
    by (cases c) (auto simp del: sys_step.simps)
next
  case (Open m)
  then show ?thesis using open_ok [of g k F m x k'] assms by (auto simp del: sys_step.simps)
next
  case (Close f)
  then show ?thesis using close_ok [of g k F f x k'] assms by (auto simp del: sys_step.simps)
next
  case (Cmd f c)
  then show ?thesis using cmd_event_ok [of g k F c f x k'] assms by (auto simp del: sys_step.simps)
next
  case (Export u f)
  then show ?thesis using export_ok [of g k F u f x k'] assms by (auto simp del: sys_step.simps)
next
  case (Dmabuf_Close b f)
  then show ?thesis using dmabuf_close_ok [of g k F b f x k'] assms by (auto simp del: sys_step.simps)
qed

lemma sys_run_ok:
  "sys_ok g k F \<Longrightarrow> \<forall>e \<in> set es. event_ok e \<Longrightarrow> fresh_run es g k \<Longrightarrow>
   run_state (sys_run es g) k = (x, k') \<Longrightarrow> \<exists>g'. x = Some g' \<and> sys_ok g' k' F"
proof (induction es arbitrary: g k)
  case (Cons e es)
  obtain y k1 where 1: "run_state (sys_step e g) k = (y, k1)" by fastforce
  from sys_step_ok [OF Cons.prems(1) _ _ 1] Cons.prems(2,3) obtain g1 where
    g1: "y = Some g1" "sys_ok g1 k1 F" by auto
  show ?case
    by (rule Cons.IH [OF g1(2)]) (use Cons.prems(2-4) 1 g1 in simp_all)
qed auto

section \<open>Properties of the whole driver\<close>


lemma destroyed_not_found:
  assumes inv: "sys_inv g' {#}" and "\<And>q y. q \<in> set (dyn_list g') \<Longrightarrow> heap g' q = Some y \<Longrightarrow> minor_off (obj y) \<noteq> i"
    and "0 \<le> i"
  shows "kbuf_open (nat (int (ndevices g') + i)) g' = Some (Inl ENODEV, g')"
proof (rule sys_find [OF inv, of i])
  assume "dyn_find (heap g') i (dyn_list g') = Some None"
  with assms(3) show ?thesis by (simp add: kbuf_open_def kbuf_dyn_get_def)
qed (use assms(2) in blast)

text \<open>
  C30: destroying a device takes effect for everyone at once and for nobody too early: its minor
  number can no longer be opened, while every file that is open and every exported buffer still
  reaches its device with its buffers, messages and settings untouched.
\<close>

theorem destroy_hides_and_keeps:
  assumes "sys_ok g k F" "run_state (kbuf_dyn_destroy i g) k = (Some (Inr (), g'), k')" "0 \<le> i"
  shows "kbuf_open (nat (int (ndevices g) + i)) g' = Some (Inl ENODEV, g') \<and>
    open_files g' = open_files g \<and> exported g' = exported g \<and>
    (\<forall>f \<in> set (open_files g) \<union> snd ` set (exported g). get_dev f g' = get_dev f g \<and> get_dev f g \<noteq> None)"
proof -
  from assms(1) have inv: "sys_inv g {#}" by (simp add: sys_ok_def)
  from destroy_held [OF assms(1,2)] have inv': "sys_inv g' {#}" by (simp add: sys_ok_def)
  obtain p x where p: "heap g p = Some x" "minor_off (obj x) = i" "p \<in> set (dyn_list g)"
    and g': "g' = ref_dropped p (node_dropped p (g\<lparr>dyn_list := remove1 p (dyn_list g)\<rparr>))"
    by (rule destroy_cases [OF assms(1,2)]) auto
  have "minor_off (obj y) \<noteq> i" if "q \<in> set (dyn_list g')" "heap g' q = Some y" for q y
  proof -
    have "q \<noteq> p" using that(1) sys_invD(3) [OF inv] by (auto simp: g' node_dropped_def p)
    moreover from this that(2) have "heap g q = Some y"
      by (auto simp: g' node_dropped_def ref_dropped_def p split: if_splits)
    ultimately show ?thesis using sys_invD(5) [OF inv p(1)] p(2) by (simp add: minor_free_def)
  qed
  from destroyed_not_found [OF inv' this assms(3)]
  have "kbuf_open (nat (int (ndevices g) + i)) g' = Some (Inl ENODEV, g')"
    by (simp add: g' node_dropped_def)
  moreover have "get_dev f g' = get_dev f g \<and> get_dev f g \<noteq> None"
    if f: "f \<in> set (open_files g) \<union> snd ` set (exported g)" for f
  proof (cases f)
    case (Static j)
    with f sys_invD(1) [OF inv] show ?thesis
      by (auto simp: get_dev_def g' node_dropped_def statics_ok_def)
  next
    case (Dyn q)
    with f have "Dyn q \<in> set (open_files g) \<or> Dyn q \<in> snd ` set (exported g)" by auto
    with referenced_alive [OF inv, of q] obtain y where
      y: "heap g q = Some y" "obj_ok (q \<in> set (dyn_list g)) (owed g {#} q) q y" by metis
    have "owed g {#} q \<noteq> 0" using f Dyn by (auto simp: owed_def count_list_0_iff image_iff)
    with y p Dyn show ?thesis
      by (auto simp: get_dev_def g' node_dropped_def ref_dropped_def obj_ok_def)
  qed
  ultimately show ?thesis by (simp add: g' node_dropped_def)
qed

text \<open>
  C31: a dynamic device is freed exactly when its last reference goes. Closing a file frees the
  device behind it if and only if the device has been destroyed and nothing else refers to it; then
  the module gives back precisely what that device owned, and otherwise it gives back nothing.
\<close>

theorem close_frees_last:
  assumes "sys_ok g k F" "Dyn p \<in> set (open_files g)" "heap g p = Some y"
    and "run_state (sys_step (Close (Dyn p)) g) k = (Some g', k')"
  shows "(heap g' p = None \<longleftrightarrow> p \<notin> set (dyn_list g) \<and> owed g {#} p = 1) \<and>
    (\<forall>q. q \<noteq> p \<longrightarrow> heap g' q = heap g q) \<and>
    (if heap g' p = None then held k = Some (obj_mem p y + (sys_mem g' + F)) else held k' = held k)"
proof -
  from assms(1) have inv: "sys_inv g {#}" and h: "held k = Some (sys_mem g + F)"
    by (simp_all add: sys_ok_def)
  let ?n = "dev_name (Dyn p) (g\<lparr>open_files := remove1 (Dyn p) (open_files g)\<rparr>)"
  note fin = sys_invD(2) [OF inv]
  have y: "obj_ok (p \<in> set (dyn_list g)) (owed g {#} p) p y" by (rule sys_invD(4) [OF inv assms(3)])
  have inv1: "sys_inv ?n (pin (Dyn p) {#})" using inv_close(1) [OF inv assms(2)] by simp
  have "sys_mem ?n = sys_mem g" by (simp add: sys_mem_def)
  with h dev_put_held [OF inv1, of k F "Some g'" k'] assms(2,4) have
    g': "g' = ref_dropped p ?n" and ok: "held k' = Some (sys_mem g' + F)"
    by (simp_all add: kbuf_release_def unpinned_def sys_ok_def)
  have refs: "heap g' p = None \<longleftrightarrow> refs y = 1" by (simp add: g' ref_dropped_def assms(3))
  have r0: "0 < owed g {#} p" using assms(2) by (simp add: owed_def count_list_pos)
  have "rest_mem g' = rest_mem g" by (rule rest_mem_cong) (simp_all add: g')
  moreover have "dyn_mem g = obj_mem p y + dyn_mem g'" if "refs y = 1"
    using that heap_mem_remove [OF fin assms(3)]
    by (simp add: dyn_mem_def g' ref_dropped_def assms(3))
  moreover have "dyn_mem g' = dyn_mem g" if "refs y \<noteq> 1"
    using that heap_mem_remove [OF fin assms(3)] heap_mem_upd [OF fin, of p "y\<lparr>refs := refs y - 1\<rparr>"]
    by (simp add: dyn_mem_def g' ref_dropped_def assms(3) obj_mem_def del: sum.insert)
  ultimately have "if heap g' p = None then held k = Some (obj_mem p y + (sys_mem g' + F)) else held k' = held k"
    using h ok refs by (simp add: sys_mem_split union_assoc)
  moreover have "refs y = 1 \<longleftrightarrow> p \<notin> set (dyn_list g) \<and> owed g {#} p = 1"
    using y r0 by (auto simp: obj_ok_def)
  moreover have "\<forall>q. q \<noteq> p \<longrightarrow> heap g' q = heap g q" by (simp add: g' ref_dropped_def assms(3))
  ultimately show ?thesis using refs by blast
qed

lemma destroy_newest:
  assumes "sys_ok (added p d g) k F" "heap g p = None" "p \<notin> set (dyn_list g)" "fresh_dev off d"
    and "run_state (kbuf_dyn_destroy off (added p d g)) k = (z, k')"
  shows "\<exists>g'. z = Some (Inr (), g') \<and> sys_ok g' k' F \<and> heap g' = heap g \<and> dyn_list g' = dyn_list g \<and>
    devices g' = devices g \<and> exported g' = exported g"
proof -
  have p: "heap (added p d g) p = Some \<lparr>obj = d, refs = 1, node_live = True\<rparr>"
    "p \<in> set (dyn_list (added p d g))" "minor_off d = off"
    using assms(4) by (simp_all add: added_def fresh_dev_def)
  have inv: "sys_inv (added p d g) {#}" using assms(1) by (simp add: sys_ok_def)
  show ?thesis
  proof (rule destroy_cases [OF assms(1,5)])
    assume "\<forall>p' \<in> set (dyn_list (added p d g)). \<forall>x. heap (added p d g) p' = Some x \<longrightarrow> minor_off (obj x) \<noteq> off"
    with p show ?thesis by auto
  next
    fix q x g'
    assume q: "z = Some (Inr (), g')" "sys_ok g' k' F" "heap (added p d g) q = Some x" "minor_off (obj x) = off"
      and g': "g' = ref_dropped q (node_dropped q (added p d g\<lparr>dyn_list := remove1 q (dyn_list (added p d g))\<rparr>))"
    have "q = p" using sys_invD(5) [OF inv q(3)] p q(4) by (auto simp: minor_free_def)
    moreover have "(heap g)(p := None) = heap g" using assms(2) by (rule fun_upd_idem)
    ultimately have "heap g' = heap g" "dyn_list g' = dyn_list g"
      using assms(2,3) by (auto simp: g' ref_dropped_def node_dropped_def added_def remove1_append)
    with q g' show ?thesis by (simp add: node_dropped_def added_def)
  qed
qed

lemma newest_opens:
  assumes "sys_ok (added p d g) k F" "fresh_dev off d" "0 \<le> off"
  shows "\<exists>g''. kbuf_open (nat (int (ndevices g) + off)) (added p d g) = Some (Inr (Dyn p), g'')"
proof -
  let ?g = "added p d g"
  have inv: "sys_inv ?g {#}" using assms(1) by (simp add: sys_ok_def)
  have p: "heap ?g p = Some \<lparr>obj = d, refs = 1, node_live = True\<rparr>" "p \<in> set (dyn_list ?g)"
    "minor_off d = off" using assms(2) by (simp_all add: added_def fresh_dev_def)
  have "dyn_find (heap ?g) off (dyn_list ?g) = Some (Some p)"
  proof (rule sys_find [OF inv, of off])
    fix q y assume "dyn_find (heap ?g) off (dyn_list ?g) = Some (Some q)" "heap ?g q = Some y"
      "minor_off (obj y) = off"
    with sys_invD(5) [OF inv, of q y] p show ?thesis by (auto simp: minor_free_def)
  qed (use p in auto)
  moreover have "ndevices ?g = ndevices g" by (simp add: added_def)
  ultimately show ?thesis
    using assms(3) p(1) by (simp add: kbuf_open_def kbuf_dyn_get_def kref_get_def)
qed

lemma create_cases:
  assumes ok: "sys_ok g k F" and run: "run_state (kbuf_dyn_create g) k = ((r, g'), k')" and "exclusive k'"
  obtains (failed) e where "r = Inl e" "g' = g" "held k' = held k"
  | (created) p d off where "r = Inr off" "0 \<le> off" "heap g p = None" "p \<notin> set (dyn_list g)"
      "fresh_dev off d" "g' = added p d g" "sys_ok g' k' F"
proof -
  note ok' = create_held [OF ok run assms(3)]
  from dyn_create_result [OF run] show thesis
  proof (elim disjE conjE exE)
    fix e assume "r = Inl e" "g' = g"
    then show thesis using failed ok ok' by (simp add: sys_ok_def)
  next
    fix p d off
    assume *: "r = Inr off" "0 \<le> off" "p \<noteq> 0" "fresh_dev off d" "g' = added p d g"
    have "held k' = Some (create_post (r, g') + (sys_mem g + F))"
      using ok by (intro ktripleD [OF ktriple_dyn_create _ run]) (simp add: sys_ok_def)
    then have h: "held k' = Some (newest_mem g' + (sys_mem g + F))" using * by simp
    have "Mem p \<in># newest_mem g'" by (simp add: * added_def newest_mem_def obj_mem_def)
    from exclusive_once [OF assms(3) h this] have "Mem p \<notin># sys_mem g" by simp
    moreover have inv: "sys_inv g {#}" using ok by (simp add: sys_ok_def)
    ultimately have "heap g p = None"
      using heap_mem_in(1) [OF sys_invD(2) [OF inv], of p] by (cases "heap g p") auto
    with sys_invD(6) [OF inv this] * ok' show thesis by (intro created [of off p d]) simp_all
  qed
qed

text \<open>
  C32: creating a device is all or nothing. When the command fails, in the allocator, the
  registration or the final copy of the id to user space, the set of devices and everything the
  module owns are what they were. When it succeeds there is one new device, empty and with the
  default geometry, user space has its id, and opening the minor number of that id reaches it.
\<close>

theorem ctl_create_all_or_nothing:
  assumes "sys_ok g k F" "uaccess_ok u" "exclusive (snd (run_state (kbuf_dyn_create g) k))"
    and "run_state (kbuf_ctl_ioctl u KBUF_CTL_CREATE arg g) k = (Some (r, out, g'), k')"
  shows "case r of
      Inl e \<Rightarrow> heap g' = heap g \<and> dyn_list g' = dyn_list g \<and> held k' = held k
    | Inr _ \<Rightarrow> (\<exists>p x off. 0 \<le> off \<and> out = le_bytes 4 (word_of_int off :: u32) \<and> heap g p = None \<and>
        heap g' = (heap g)(p \<mapsto> x) \<and> dyn_list g' = dyn_list g @ [p] \<and> fresh_dev off (obj x) \<and>
        (\<exists>g''. kbuf_open (nat (int (ndevices g) + off)) g' = Some (Inr (Dyn p), g'')))"
proof -
  obtain r1 g1 k1 where 1: "run_state (kbuf_dyn_create g) k = ((r1, g1), k1)" by (metis surj_pair)
  with assms(3) have ex: "exclusive k1" by simp
  show ?thesis
  proof (rule create_cases [OF assms(1) 1 ex])
    fix e assume "r1 = Inl e" "g1 = g" "held k1 = held k"
    with 1 assms(4) show ?thesis by (auto simp: kbuf_ctl_ioctl_def)
  next
    fix p d off
    assume *: "r1 = Inr off" "0 \<le> off" "heap g p = None" "p \<notin> set (dyn_list g)" "fresh_dev off d"
      "g1 = added p d g" "sys_ok g1 k1 F"
    obtain o1 l where cp: "copy_to_user u (le_bytes 4 (word_of_int off :: u32)) = (o1, l)" by fastforce
    show ?thesis
    proof (cases "l = 0")
      case True
      have "\<exists>g''. kbuf_open (nat (int (ndevices g) + off)) g1 = Some (Inr (Dyn p), g'')"
        using newest_opens [OF *(7) [unfolded *(6)] *(5,2)] *(6) by simp
      moreover have "o1 = le_bytes 4 (word_of_int off :: u32)" using cp True assms(2) unfolding uaccess_ok_def by (metis fst_conv snd_conv)
      moreover have "heap g1 = (heap g)(p \<mapsto> \<lparr>obj = d, refs = 1, node_live = True\<rparr>)"
        "dyn_list g1 = dyn_list g @ [p]" by (simp_all add: *(6) added_def)
      ultimately show ?thesis using 1 * cp True assms(4) 
        by (fastforce simp: kbuf_ctl_ioctl_def)
    next
      case False
      obtain z k2 where 2: "run_state (kbuf_dyn_destroy off g1) k1 = (z, k2)" by fastforce
      from destroy_newest [OF *(7) [unfolded *(6)] *(3-5) 2 [unfolded *(6)]] obtain g2 where
        g2: "z = Some (Inr (), g2)" "sys_ok g2 k2 F" "heap g2 = heap g" "dyn_list g2 = dyn_list g"
        "devices g2 = devices g" "exported g2 = exported g" by blast
      then have "held k2 = held k" using assms(1) by (simp add: sys_ok_def sys_mem_def dyn_mem_def)
      with 1 2 * cp False g2 assms(4) show ?thesis by (auto simp: kbuf_ctl_ioctl_def)
    qed
  qed
qed

lemma teardown_all_held:
  assumes "sys_ok g k F" "dyn_list g = ps" "run_state (dyn_teardown_all ps g) k = (z, k')"
  shows "\<exists>g'. z = Some g' \<and> sys_ok g' k' F \<and> dyn_list g' = [] \<and> open_files g' = open_files g \<and>
    exported g' = exported g \<and> devices g' = devices g"
  using assms
proof (induction ps arbitrary: g k)
  case (Cons p ps)
  let ?t = "g\<lparr>dyn_list := remove1 p (dyn_list g)\<rparr>"
  let ?d = "ref_dropped p (node_dropped p ?t)"
  obtain v k1 where v: "run_state (kbuf_dyn_teardown p ?t) k = (v, k1)" by fastforce
  have "p \<in> set (dyn_list g)" using Cons.prems(2) by simp
  note t = teardown_held [OF Cons.prems(1) this v]
  have fr: "dyn_list ?d = ps" "open_files ?d = open_files g" "exported ?d = exported g" "devices ?d = devices g"
    using Cons.prems(2) by (simp_all add: node_dropped_def)
  have "run_state (dyn_teardown_all ps ?d) k1 = (z, k')"
    using Cons.prems(2,3) v t(1) by simp
  from Cons.IH [OF t(2) fr(1) this] fr show ?case by simp
qed auto

lemma unreferenced_empty:
  assumes "sys_inv g {#}" "dyn_list g = []" "open_files g = []" "exported g = []"
  shows "heap g = Map.empty"
proof
  fix p show "heap g p = None"
    using sys_invD(4) [OF assms(1), of p] assms(2-4) by (cases "heap g p") (auto simp: obj_ok_def owed_def)
qed

lemma unregister_held:
  assumes "sys_ok g k (add_mset Misc_Dev F)" "open_files g = []" "exported g = []"
    and "run_state (kbuf_ctl_unregister g) k = (z, k')"
  shows "\<exists>g'. z = Some g' \<and> sys_inv g' {#} \<and> heap g' = Map.empty \<and> dyn_list g' = [] \<and> devices g' = devices g \<and>
    held k' = Some ((\<Sum>d \<leftarrow> devices g. static_mem d) + F)"
proof -
  obtain v k1 where v: "run_state (tell (Gave Misc_Dev)) k = (v, k1)" by (metis surj_pair)
  have "held k1 = Some (sys_mem g + F)"
    using ktripleD [OF ktriple_gave _ v, of "sys_mem g + F"] assms(1) by (simp add: sys_ok_def)
  with assms(1) have "sys_ok g k1 F" by (simp add: sys_ok_def)
  moreover have "run_state (dyn_teardown_all (dyn_list g) g) k1 = (z, k')"
    using assms(4) v by (simp add: kbuf_ctl_unregister_def)
  ultimately obtain g' where g': "z = Some g'" "sys_ok g' k' F" "dyn_list g' = []" "open_files g' = []"
    "exported g' = []" "devices g' = devices g"
    using teardown_all_held [of g k1 F "dyn_list g" z k'] assms(2,3) by auto
  have "heap g' = Map.empty" using unreferenced_empty g' by (simp add: sys_ok_def)
  with g' show ?thesis by (auto simp: sys_ok_def sys_mem_def dyn_mem_def)
qed

text \<open>
  C33: unloading frees every dynamic device. Once no file is open and no exported buffer is alive,
  \<open>kbuf_ctl_unregister\<close> leaves no dynamic device and gives back everything any of them
  owned, together with the control node, and nothing else.
\<close>

theorem ctl_unregister_frees_all:
  assumes "sys_ok g k (add_mset Misc_Dev F)" "open_files g = []" "exported g = []"
    and "run_state (kbuf_ctl_unregister g) k = (z, k')"
  shows "\<exists>g'. z = Some g' \<and> heap g' = Map.empty \<and> dyn_list g' = [] \<and> devices g' = devices g \<and>
    held k' = Some ((\<Sum>d \<leftarrow> devices g. static_mem d) + F)"
  using unregister_held [OF assms] by blast

text \<open>
  A file of a destroyed device is closed: \<open>kbuf_release\<close> logs the name of the device node,
  which went away with the destruction.
\<close>

theorem release_reads_stale_name:
  assumes "sys_inv g {#}" "Dyn p \<in> set (open_files g)" "p \<notin> set (dyn_list g)"
    and "run_state (sys_step (Close (Dyn p)) g) k = (Some g', k')"
  shows "stale_names g' = stale_names g + 1"
proof -
  from referenced_alive [OF assms(1), of p] assms(2) obtain y where
    y: "heap g p = Some y" "obj_ok (p \<in> set (dyn_list g)) (owed g {#} p) p y" by blast
  let ?n = "dev_name (Dyn p) (g\<lparr>open_files := remove1 (Dyn p) (open_files g)\<rparr>)"
  have "dev_put (Dyn p) ?n = kref_put p ?n" using y by (simp add: dev_put_def obj_ok_def)
  moreover have "fst (run_state (kref_put p ?n) k) = Some (ref_dropped p ?n)"
    using y by (intro kref_put_result [of _ _ y]) (auto simp: obj_ok_def)
  ultimately have "g' = ref_dropped p ?n" using assms(2,4) by (simp add: kbuf_release_def)
  then show ?thesis using y assms(3) by (simp add: dev_name_def obj_ok_def)
qed

section \<open>Witnesses\<close>

definition demo_drv :: drv where
  "demo_drv = \<lparr>base_devno = 500, ndevices = 1, devices = [demo_dev], heap = Map.empty,
     dyn_list = [], open_files = [], exported = [], stale_names = 0\<rparr>"

definition demo_sys_kst :: kst where
  "demo_sys_kst = demo_kst\<lparr>calls := calls demo_kst @ [Got (Cdev_Map 0), Got (Dev_Node 0)]\<rparr>"

lemma demo_static_mem: "static_mem demo_dev = {#Cdev_Map 0, Dev_Node 0#} + dev_slots_mem demo_dev"
  by (simp add: static_mem_def buffers_mem_def mmap_mem_def demo_simps zero_dev_def)

lemma demo_sys_held: "held demo_sys_kst = Some (static_mem demo_dev)"
  using demo_held by (simp add: demo_static_mem held_def demo_sys_kst_def ledger_def add_mset_commute)

lemma demo_sys: "sys_ok demo_drv demo_sys_kst {#}"
  using demo_sys_held demo_ok
  by (simp add: sys_ok_def sys_inv_def statics_ok_def demo_drv_def owed_def sys_mem_def dyn_mem_def)
    (simp add: demo_simps)

lemma demo_create_calls:
  "\<exists>g' k'. run_state (kbuf_dyn_create demo_drv) demo_sys_kst = ((Inr 10, g'), k') \<and> dyn_list g' = [11] \<and>
     calls k' = [Got (Mem 1), Got (Mem 2), Got (Mem 3), Got (Cdev_Map 0), Got (Dev_Node 0), Got (Ida_Id 10),
       Got (Mem 11), Got (Mem 12), Got (Mem 13), Got (Mem 4110), Got (Mem 8207), Got (Mem 12304),
       Got (Mem 16401), Got (Mem 20498), Got (Mem 24595), Got (Mem 28692), Got (VMem 32789),
       Got (VMem 32790), Got (Cdev_Obj 32791), Got (Cdev_Map 511), Got (Dev_Node 511)]"
  by (simp add: kbuf_dyn_create_def demo_sys_kst_def demo_kst_def ask_ptr_def ask_err_def ask_def tell_def
      kbuf_alloc_slots_def kmalloc_def ask_bytes_def State_Monad.bind_def State_Monad.return_def Let_def
      kbuf_mmap_dev_alloc_def new_dyn_dev_def KBUF_DEFAULT_NUM_BUFFERS_def KBUF_DEFAULT_BUFFER_SIZE_def
      zero_dev_def del: upt_rec_numeral)
    (simp add: dyn_register_def ask_ptr_def ask_err_def ask_def tell_def demo_drv_def
      State_Monad.bind_def State_Monad.return_def Let_def)

lemma demo_created:
  obtains d k where "run_state (kbuf_dyn_create demo_drv) demo_sys_kst = ((Inr 10, added 11 d demo_drv), k)"
    "fresh_dev 10 d" "exclusive k" "sys_ok (added 11 d demo_drv) k {#}"
proof -
  obtain g' k where run: "run_state (kbuf_dyn_create demo_drv) demo_sys_kst = ((Inr 10, g'), k)" "dyn_list g' = [11]"
    and c: "calls k = [Got (Mem 1), Got (Mem 2), Got (Mem 3), Got (Cdev_Map 0), Got (Dev_Node 0), Got (Ida_Id 10),
       Got (Mem 11), Got (Mem 12), Got (Mem 13), Got (Mem 4110), Got (Mem 8207), Got (Mem 12304),
       Got (Mem 16401), Got (Mem 20498), Got (Mem 24595), Got (Mem 28692), Got (VMem 32789),
       Got (VMem 32790), Got (Cdev_Obj 32791), Got (Cdev_Map 511), Got (Dev_Node 511)]"
    using demo_create_calls by blast
  have ex: "exclusive k" by (simp add: exclusive_def held_def ledger_def c)
  from create_cases [OF demo_sys run(1) ex] obtain p d where
    "fresh_dev 10 d" "g' = added p d demo_drv" "sys_ok g' k {#}" by (metis Inl_Inr_False Inr_inject)
  moreover from this run(2) have "p = 11" by (simp add: added_def demo_drv_def)
  ultimately show thesis using that run(1) ex by blast
qed

definition demo_opened :: "kbuf_dev \<Rightarrow> drv" where
  "demo_opened d = (added 11 d demo_drv)\<lparr>heap := [11 \<mapsto> \<lparr>obj = d, refs = 2, node_live = True\<rparr>],
     open_files := [Dyn 11]\<rparr>"

definition demo_destroyed :: "kbuf_dev \<Rightarrow> drv" where
  "demo_destroyed d = (demo_opened d)\<lparr>heap := [11 \<mapsto> \<lparr>obj = d, refs = 1, node_live = False\<rparr>],
     dyn_list := []\<rparr>"

lemmas demo_drv_simps = demo_drv_def demo_opened_def demo_destroyed_def added_def

lemma demo_open_step:
  assumes "fresh_dev 10 d"
  shows "run_state (sys_step (Open 11) (added 11 d demo_drv)) k = (Some (demo_opened d), k)"
  using assms
  by (simp add: kbuf_open_def kbuf_dyn_get_def kref_get_def dev_name_def fresh_dev_def demo_drv_simps
      numeral_2_eq_2)

lemma demo_opened_ok:
  assumes "fresh_dev 10 d" "sys_ok (added 11 d demo_drv) k {#}"
  shows "sys_ok (demo_opened d) k {#}"
  using open_ok [OF assms(2) demo_open_step [OF assms(1)]] by simp

lemma demo_destroy_run:
  assumes "fresh_dev 10 d"
  shows "\<exists>k'. run_state (kbuf_dyn_destroy 10 (demo_opened d)) k = (Some (Inr (), demo_destroyed d), k')"
proof -
  have "fst (run_state (kbuf_dyn_destroy 10 (demo_opened d)) k) = Some (Inr (), demo_destroyed d)"
    using assms by (simp add: kbuf_dyn_destroy_def kbuf_dyn_teardown_def kref_put_def fresh_dev_def
        demo_drv_simps split_beta)
  then show ?thesis by (metis surj_pair fst_conv)
qed

lemma fresh_run_create:
  assumes "exclusive (snd (run_state (kbuf_dyn_create g) k))" "\<And>e g k. e \<in> set es \<Longrightarrow> fresh_step e g k"
  shows "fresh_run (Ctl u KBUF_CTL_CREATE arg # es) g k"
proof -
  have "fresh_run es g k" for g k
    using assms(2) by (induction es arbitrary: g k) (auto split: prod.split option.split)
  with assms(1) show ?thesis by (simp del: sys_step.simps split: prod.split option.split)
qed


theorem destroy_hides_and_keeps_witness:
  "\<exists>d k k'. fresh_dev 10 d \<and>
     run_state (kbuf_dyn_destroy 10 (demo_opened d)) k = (Some (Inr (), demo_destroyed d), k') \<and>
     kbuf_open 11 (demo_destroyed d) = Some (Inl ENODEV, demo_destroyed d) \<and>
     get_dev (Dyn 11) (demo_destroyed d) = Some d"
proof -
  obtain d k where d: "fresh_dev 10 d" "sys_ok (added 11 d demo_drv) k {#}" by (rule demo_created)
  from demo_destroy_run [OF d(1)] obtain k' where
    run: "run_state (kbuf_dyn_destroy 10 (demo_opened d)) k = (Some (Inr (), demo_destroyed d), k')" by blast
  have "ndevices (demo_opened d) = 1" "Dyn 11 \<in> set (open_files (demo_opened d))"
    "get_dev (Dyn 11) (demo_opened d) = Some d" by (simp_all add: demo_drv_simps get_dev_def)
  with destroy_hides_and_keeps [OF demo_opened_ok [OF d] run]
  have "kbuf_open 11 (demo_destroyed d) = Some (Inl ENODEV, demo_destroyed d)"
    "get_dev (Dyn 11) (demo_destroyed d) = Some d" by auto
  with run d(1) show ?thesis by blast
qed

theorem close_frees_last_witness:
  "\<exists>d k g' k'. run_state (sys_step (Close (Dyn 11)) (demo_destroyed d)) k = (Some g', k') \<and>
     heap g' 11 = None"
proof -
  obtain d k where d: "fresh_dev 10 d" "sys_ok (added 11 d demo_drv) k {#}" by (rule demo_created)
  from demo_destroy_run [OF d(1)] obtain k1 where
    run: "run_state (kbuf_dyn_destroy 10 (demo_opened d)) k = (Some (Inr (), demo_destroyed d), k1)" by blast
  from destroy_held [OF demo_opened_ok [OF d] run] have ok: "sys_ok (demo_destroyed d) k1 {#}" by simp
  obtain x k' where c: "run_state (sys_step (Close (Dyn 11)) (demo_destroyed d)) k1 = (x, k')" by fastforce
  from close_ok [OF ok c] obtain g' where x: "x = Some g'" by blast
  have m: "Dyn 11 \<in> set (open_files (demo_destroyed d))"
    "heap (demo_destroyed d) 11 = Some \<lparr>obj = d, refs = 1, node_live = False\<rparr>"
    "11 \<notin> set (dyn_list (demo_destroyed d))" "owed (demo_destroyed d) {#} 11 = 1"
    by (simp_all add: demo_drv_simps owed_def)
  from close_frees_last [OF ok m(1,2) c [unfolded x]] m(3,4) have "heap g' 11 = None" by simp
  with c x show ?thesis by (simp del: sys_step.simps) blast
qed

theorem ctl_create_all_or_nothing_witness:
  "\<exists>out g' k'. run_state (kbuf_ctl_ioctl good_user KBUF_CTL_CREATE (\<lambda>_. 0) demo_drv) demo_sys_kst =
       (Some (Inr (), out, g'), k') \<and>
     (\<exists>p x. heap g' = [p \<mapsto> x] \<and> dev_msgs (obj x) = [] \<and> dyn_list g' = [p])"
proof -
  obtain d k where run: "run_state (kbuf_dyn_create demo_drv) demo_sys_kst = ((Inr 10, added 11 d demo_drv), k)"
    "exclusive k" by (rule demo_created)
  then have c: "run_state (kbuf_ctl_ioctl good_user KBUF_CTL_CREATE (\<lambda>_. 0) demo_drv) demo_sys_kst =
      (Some (Inr (), le_bytes 4 (10 :: u32), added 11 d demo_drv), k)"
    by (simp add: kbuf_ctl_ioctl_def)
  have e: "heap demo_drv = Map.empty" "dyn_list demo_drv = []" by (simp_all add: demo_drv_def)
  from ctl_create_all_or_nothing [OF demo_sys uaccess_ok_good _ c] run obtain p x off where
    "heap (added 11 d demo_drv) = [p \<mapsto> x]" "dyn_list (added 11 d demo_drv) = [p]" "fresh_dev off (obj x)"
    by (auto simp: e)
  with c show ?thesis by (auto simp: fresh_dev_def)
qed

theorem ctl_unregister_frees_all_witness:
  "\<exists>d k g' k'. heap (added 11 d demo_drv) \<noteq> Map.empty \<and>
     run_state (kbuf_ctl_unregister (added 11 d demo_drv)) k = (Some g', k') \<and>
     heap g' = Map.empty \<and> held k' = Some (static_mem demo_dev)"
proof -
  obtain d k where d: "sys_ok (added 11 d demo_drv) k {#}" by (rule demo_created)
  let ?k = "k\<lparr>calls := calls k @ [Got Misc_Dev]\<rparr>"
  have ok: "sys_ok (added 11 d demo_drv) ?k (add_mset Misc_Dev {#})"
    using d by (simp add: sys_ok_def held_def)
  obtain z k' where run: "run_state (kbuf_ctl_unregister (added 11 d demo_drv)) ?k = (z, k')" by fastforce
  have e: "open_files (added 11 d demo_drv) = []" "exported (added 11 d demo_drv) = []"
    "devices (added 11 d demo_drv) = [demo_dev]" by (simp_all add: demo_drv_simps)
  from ctl_unregister_frees_all [OF ok e(1,2) run] e(3) obtain g' where
    "z = Some g'" "heap g' = Map.empty" "held k' = Some (static_mem demo_dev)" by auto
  moreover have "heap (added 11 d demo_drv) \<noteq> Map.empty"
    by (simp add: demo_drv_simps)
  ultimately show ?thesis using run by blast
qed

end
