(* ===== verification/Kbuf_Proc.thy ===== *)
theory Kbuf_Proc
  imports Kbuf_Ioctl
begin

text \<open>
  The read-only views of the devices: /proc/kbuf_status (src/kbuf_proc.c) and the debugfs counters
  (src/kbuf_debugfs.c), with the calls that register and remove them. The text of the status file
  is built character by character, so it can be parsed back.
\<close>

section \<open>Printing numbers\<close>

text \<open>The conversions \<open>%u\<close> and \<open>%llu\<close>.\<close>

fun dec :: "nat \<Rightarrow> string" where
  "dec n = (if n < 10 then [char_of (48 + n)] else dec (n div 10) @ [char_of (48 + n mod 10)])"

declare dec.simps [simp del]

definition newline :: char where "newline = CHR 0x0A"

section \<open>The status file\<close>

definition mode_name :: "string list" where
  "mode_name = [''blocking'', ''spsc'']"

text \<open>The lines of one device; reading \<open>mode_name\<close> outside its bounds is \<open>None\<close>.\<close>

definition status_lines :: "kbuf_dev \<Rightarrow> nat \<Rightarrow> string list option" where
  "status_lines d idx =
     (let occ = kbuf_occupancy d;
        rd = (if mode d = KBUF_MODE_SPSC then cons_idx d AND (num_buffers d - 1) else read_pos d);
        wr = (if mode d = KBUF_MODE_SPSC then prod_idx d AND (num_buffers d - 1) else write_pos d);
        name = (if mode d < int (length mode_name)
          then if mode d < 0 then None else Some (mode_name ! nat (mode d))
          else Some ''?'')
      in map_option (\<lambda>name. [
        ''=== kbuf'' @ dec idx @ '' ==='',
        ''Total slots    : '' @ dec (unat (num_buffers d)),
        ''Slot size      : '' @ dec (unat (buffer_size d)) @ '' bytes'',
        ''Full slots     : '' @ dec (unat occ),
        ''Free slots     : '' @ dec (unat (num_buffers d - occ)),
        ''Peak full slots: '' @ dec (unat (peak_count d)),
        ''Read  position : '' @ dec (unat rd),
        ''Write position : '' @ dec (unat wr),
        ''Mode           : '' @ name,
        ''Msgs  produced : '' @ dec (unat (msgs_produced d)),
        ''Msgs  consumed : '' @ dec (unat (msgs_consumed d)),
        ''Bytes produced : '' @ dec (unat (bytes_produced d)),
        ''Bytes consumed : '' @ dec (unat (bytes_consumed d)),
        ''Reader sleeps  : '' @ dec (unat (read_sleeps d)),
        ''Writer sleeps  : '' @ dec (unat (write_sleeps d))]) name)"

text \<open>\<open>m\<close> is the text the seq_file holds so far.\<close>

definition kbuf_proc_show_dev :: "string \<Rightarrow> kbuf_dev \<Rightarrow> nat \<Rightarrow> string option" where
  "kbuf_proc_show_dev m d idx =
     map_option (\<lambda>ls. m @ concat (map (\<lambda>l. l @ [newline]) ls)) (status_lines d idx)"

primrec proc_show_loop :: "string \<Rightarrow> nat \<Rightarrow> kbuf_dev list \<Rightarrow> string option" where
  "proc_show_loop m i [] = Some m"
| "proc_show_loop m i (d # ds) = (case kbuf_proc_show_dev m d i of
     None \<Rightarrow> None
   | Some m \<Rightarrow> proc_show_loop m (Suc i) ds)"

definition kbuf_proc_show :: "kbuf_dev list \<Rightarrow> string option" where
  "kbuf_proc_show ds = proc_show_loop [] 0 ds"

definition kbuf_proc_register :: "(kst, ptr \<times> unit result) state" where
  "kbuf_proc_register = do {
     entry \<leftarrow> ask_ptr Proc_Entry;
     State_Monad.return (entry, if entry = 0 then Inl ENOMEM else Inr ()) }"

definition kbuf_proc_unregister :: "ptr \<Rightarrow> (kst, unit) state" where
  "kbuf_proc_unregister entry =
     (if entry \<noteq> 0 then tell (Gave (Proc_Entry entry)) else State_Monad.return ())"

section \<open>The debugfs counters\<close>

datatype counter = U32 u32 | U64 u64

text \<open>
  A directory: its name and the file names with the counters they show. \<open>scnprintf\<close> keeps at
  most 15 characters of the name.
\<close>

type_synonym debugfs_dir = "string \<times> (string \<times> counter) list"

definition kbuf_debugfs_add :: "kbuf_dev \<Rightarrow> nat \<Rightarrow> debugfs_dir" where
  "kbuf_debugfs_add d i = (take 15 (''kbuf'' @ dec i), [
     (''num_buffers'', U32 (num_buffers d)),
     (''buffer_size'', U32 (buffer_size d)),
     (''peak_count'', U32 (peak_count d)),
     (''prod_idx'', U32 (prod_idx d)),
     (''cons_idx'', U32 (cons_idx d)),
     (''msgs_produced'', U64 (msgs_produced d)),
     (''msgs_consumed'', U64 (msgs_consumed d)),
     (''bytes_produced'', U64 (bytes_produced d)),
     (''bytes_consumed'', U64 (bytes_consumed d)),
     (''read_sleeps'', U64 (read_sleeps d)),
     (''write_sleeps'', U64 (write_sleeps d))])"

primrec debugfs_loop :: "nat \<Rightarrow> kbuf_dev list \<Rightarrow> debugfs_dir list" where
  "debugfs_loop i [] = []"
| "debugfs_loop i (d # ds) = kbuf_debugfs_add d i # debugfs_loop (Suc i) ds"

text \<open>
  The root directory may be an error pointer (negative); the core then ignores what is created
  below it. Removing it is recursive and ignores an error pointer.
\<close>

definition kbuf_debugfs_register :: "kbuf_dev list \<Rightarrow> (kst, ptr \<times> debugfs_dir list) state" where
  "kbuf_debugfs_register ds = do {
     root \<leftarrow> ask_err Debugfs_Dir;
     State_Monad.return (root, if root < 0 then [] else debugfs_loop 0 ds) }"

definition kbuf_debugfs_unregister :: "ptr \<Rightarrow> (kst, unit) state" where
  "kbuf_debugfs_unregister root =
     (if root < 0 then State_Monad.return () else tell (Gave (Debugfs_Dir root)))"

section \<open>Reading the text back\<close>

definition undec :: "string \<Rightarrow> nat" where
  "undec s = foldl (\<lambda>a c. 10 * a + (of_char c - 48)) 0 s"

definition is_digit :: "char \<Rightarrow> bool" where
  "is_digit c \<longleftrightarrow> 48 \<le> (of_char c :: nat) \<and> (of_char c :: nat) \<le> 57"

lemma of_char_digit [simp]: "n < 10 \<Longrightarrow> of_char (char_of (48 + n) :: char) = (48 + n :: nat)"
  by simp

lemma undec_dec [simp]: "undec (dec n) = n"
proof (induction n rule: dec.induct)
  case (1 n)
  show ?case
    by (subst dec.simps) (use 1 in \<open>simp add: undec_def\<close>)
qed

lemma dec_digits: "c \<in> set (dec n) \<Longrightarrow> is_digit c"
proof (induction n rule: dec.induct)
  case (1 n)
  then show ?case
    by (subst (asm) dec.simps) (auto simp: is_digit_def split: if_splits)
qed

lemma dec_inject [simp]: "dec m = dec n \<longleftrightarrow> m = n"
  by (metis undec_dec)

lemma newline_notin_dec [simp]: "newline \<notin> set (dec n)"
  using dec_digits [of newline n] by (auto simp: is_digit_def newline_def)

lemma takeWhile_dec [simp]: "\<not> is_digit c \<Longrightarrow> takeWhile is_digit (dec n @ c # cs) = dec n"
  "takeWhile is_digit (dec n) = dec n"
  using dec_digits by (auto simp: takeWhile_append takeWhile_eq_all_conv)

primrec split_lines :: "string \<Rightarrow> string \<Rightarrow> string list" where
  "split_lines acc [] = []"
| "split_lines acc (c # cs) =
     (if c = newline then acc # split_lines [] cs else split_lines (acc @ [c]) cs)"

lemma split_line: "newline \<notin> set l \<Longrightarrow> split_lines acc (l @ newline # cs) = (acc @ l) # split_lines [] cs"
  by (induction l arbitrary: acc) auto

lemma split_lines_concat:
  "\<forall>l \<in> set ls. newline \<notin> set l \<Longrightarrow> split_lines [] (concat (map (\<lambda>l. l @ [newline]) ls)) = ls"
  by (induction ls) (simp_all add: split_line)

text \<open>The number a line of device \<open>i\<close> shows after its label of 17 characters.\<close>

definition status_field :: "string \<Rightarrow> nat \<Rightarrow> nat \<Rightarrow> nat" where
  "status_field t i j = undec (takeWhile is_digit (drop 17 (split_lines [] t ! (15 * i + j))))"

lemma status_lines_ok:
  assumes "dev_ok d"
  shows "\<exists>ls. status_lines d i = Some ls \<and> length ls = 15 \<and> (\<forall>l \<in> set ls. newline \<notin> set l)"
proof -
  have "mode d = 0 \<or> mode d = 1"
    using assms by (auto simp: dev_ok_def KBUF_MODE_SPSC_def KBUF_MODE_BLOCKING_def split: if_splits)
  then have name: "mode d < int (length mode_name)" "\<not> mode d < 0"
    "newline \<notin> set (mode_name ! nat (mode d))"
    by (auto simp: mode_name_def newline_def)
  then show ?thesis by (simp add: status_lines_def Let_def) (simp add: newline_def)
qed

lemma show_loop_lines:
  "\<forall>d \<in> set ds. dev_ok d \<Longrightarrow> proc_show_loop m i ds = Some (m @ concat (map (\<lambda>l. l @ [newline])
     (concat (map (\<lambda>j. the (status_lines (ds ! j) (i + j))) [0..<length ds]))))"
proof (induction ds arbitrary: m i)
  case (Cons d ds)
  obtain ls where "status_lines d i = Some ls" using status_lines_ok Cons.prems by fastforce
  then show ?case
    using Cons by (simp add: kbuf_proc_show_dev_def upt_conv_Cons del: upt_Suc)
      (simp add: map_Suc_upt [symmetric] comp_def del: map_Suc_upt upt_Suc)
qed simp

lemma concat_nth_15:
  assumes "\<And>i. i < n \<Longrightarrow> length (f i) = (15 :: nat)" "i < n" "j < 15"
  shows "concat (map f [0..<n]) ! (15 * i + j) = f i ! j"
proof -
  have len: "length (concat (map f [0..<k])) = 15 * k" if "k \<le> n" for k
    using that by (induction k) (simp_all add: assms(1))
  have "[0..<n] = [0..<i] @ i # [Suc i..<n]"
    using upt_add_eq_append [of 0 i "n - i"] assms(2) by (simp add: upt_conv_Cons)
  then have "concat (map f [0..<n]) = concat (map f [0..<i]) @ f i @ concat (map f [Suc i..<n])" by simp
  then show ?thesis using len [of i] assms by (simp add: nth_append)
qed

lemma status_line_of:
  assumes ok: "\<forall>d \<in> set ds. dev_ok d" and t: "kbuf_proc_show ds = Some t" and i: "i < length ds" "j < 15"
  shows "split_lines [] t ! (15 * i + j) = the (status_lines (ds ! i) i) ! j"
proof -
  let ?f = "\<lambda>i. the (status_lines (ds ! i) i)"
  have l: "length (?f k) = 15 \<and> (\<forall>l \<in> set (?f k). newline \<notin> set l)" if "k < length ds" for k
    using status_lines_ok [of "ds ! k" k] ok that by auto
  have "t = concat (map (\<lambda>l. l @ [newline]) (concat (map ?f [0..<length ds])))"
    using show_loop_lines [OF ok, of "[]" 0] t by (simp add: kbuf_proc_show_def)
  then have "split_lines [] t = concat (map ?f [0..<length ds])"
    using l by (simp add: split_lines_concat)
  then show ?thesis using concat_nth_15 [of "length ds" ?f i j] l i by simp
qed

lemma occupancy_le: "dev_ok d \<Longrightarrow> kbuf_occupancy d \<le> num_buffers d"
  by (auto simp: dev_ok_def ring_ok_def spsc_ok_def kbuf_occupancy_def word_le_nat_alt split: if_splits)

text \<open>
  C34: the status file tells the truth and can be read back: for any number of well-formed devices
  the text is produced (no array is read out of bounds), and parsing the lines of device \<open>i\<close>
  gives its geometry, the number of messages queued, the number of free slots (with no wrap-around
  in the subtraction), the peak and the throughput counters.
\<close>

theorem proc_status_exact:
  assumes "\<forall>d \<in> set ds. dev_ok d"
  shows "\<exists>t. kbuf_proc_show ds = Some t \<and> (\<forall>i < length ds. let d = ds ! i in
    map (status_field t i) [1, 2, 3, 4, 5] =
      [unat (num_buffers d), unat (buffer_size d), length (dev_msgs d),
       unat (num_buffers d) - length (dev_msgs d), unat (peak_count d)] \<and>
    map (status_field t i) [9, 10, 11, 12, 13, 14] =
      [unat (msgs_produced d), unat (msgs_consumed d), unat (bytes_produced d),
       unat (bytes_consumed d), unat (read_sleeps d), unat (write_sleeps d)])"
proof -
  obtain t where t: "kbuf_proc_show ds = Some t"
    using show_loop_lines [OF assms] by (auto simp: kbuf_proc_show_def)
  have "map (status_field t i) [1, 2, 3, 4, 5] =
      [unat (num_buffers d), unat (buffer_size d), length (dev_msgs d),
       unat (num_buffers d) - length (dev_msgs d), unat (peak_count d)] \<and>
    map (status_field t i) [9, 10, 11, 12, 13, 14] =
      [unat (msgs_produced d), unat (msgs_consumed d), unat (bytes_produced d),
       unat (bytes_consumed d), unat (read_sleeps d), unat (write_sleeps d)]"
    if i: "i < length ds" and d: "d = ds ! i" for i d
  proof -
    have ok: "dev_ok d" using assms i d by simp
    then obtain ls where ls: "status_lines d i = Some ls" using status_lines_ok by blast
    have f: "status_field t i j = undec (takeWhile is_digit (drop 17 (ls ! j)))" if "j < 15" for j
      using status_line_of [OF assms t i that] d ls by (simp add: status_field_def)
    have "unat (num_buffers d - kbuf_occupancy d) = unat (num_buffers d) - unat (kbuf_occupancy d)"
      using occupancy_le [OF ok] by (rule unat_sub)
    moreover have "is_digit CHR '' '' = False" by (simp add: is_digit_def)
    ultimately show ?thesis
      using ls by (auto simp: f status_lines_def Let_def length_dev_msgs)
  qed
  with t show ?thesis by (auto simp: Let_def)
qed

lemma length_dec: "n < 100 \<Longrightarrow> length (dec n) \<le> 2"
proof -
  assume "n < 100"
  then have "n div 10 < 10" by simp
  then have "length (dec (n div 10)) = 1" by (subst dec.simps) simp
  then show ?thesis by (subst dec.simps) simp
qed

lemma debugfs_name:
  assumes "i < 100"
  shows "fst (kbuf_debugfs_add d i) = ''kbuf'' @ dec i"
proof -
  have "length (''kbuf'' @ dec i) \<le> 15" using length_dec [OF assms] by simp
  then show ?thesis by (simp add: kbuf_debugfs_add_def)
qed

lemma debugfs_loop_nth:
  "length (debugfs_loop i ds) = length ds"
  "j < length ds \<Longrightarrow> debugfs_loop i ds ! j = kbuf_debugfs_add (ds ! j) (i + j)"
proof -
  show "length (debugfs_loop i ds) = length ds" by (induction ds arbitrary: i) simp_all
  show "j < length ds \<Longrightarrow> debugfs_loop i ds ! j = kbuf_debugfs_add (ds ! j) (i + j)"
    by (induction ds arbitrary: i j) (auto simp: nth_Cons split: nat.split)
qed

lemma debugfs_names_distinct:
  assumes "length ds \<le> 100"
  shows "distinct (map fst (debugfs_loop 0 ds))"
  unfolding distinct_conv_nth
  using assms by (auto simp: debugfs_loop_nth debugfs_name)


section \<open>What registration owns\<close>

lemma ktriple_proc_register:
  "ktriple {#} kbuf_proc_register (\<lambda>(e, r). if e = 0 then {#} else {#Proc_Entry e#})"
  unfolding kbuf_proc_register_def
  by (rule ktriple_bind [OF ktriple_ask_ptr]) (simp add: ktriple_return)

lemma ktriple_proc_unregister:
  "ktriple (if e = 0 then {#} else {#Proc_Entry e#}) (kbuf_proc_unregister e) (\<lambda>_. {#})"
  by (simp add: kbuf_proc_unregister_def ktriple_gave ktriple_return)

lemma ktriple_debugfs_register:
  "ktriple {#} (kbuf_debugfs_register ds) (\<lambda>(root, dirs). if root < 0 then {#} else {#Debugfs_Dir root#})"
  unfolding kbuf_debugfs_register_def
  by (rule ktriple_bind [OF ktriple_ask_err]) (simp add: ktriple_return)

lemma ktriple_debugfs_unregister:
  "ktriple (if root < 0 then {#} else {#Debugfs_Dir root#}) (kbuf_debugfs_unregister root) (\<lambda>_. {#})"
  by (simp add: kbuf_debugfs_unregister_def ktriple_gave ktriple_return)

section \<open>Witnesses\<close>

theorem proc_status_exact_witness:
  "\<exists>t. kbuf_proc_show [demo_dev, demo_spsc] = Some t \<and> status_field t 1 3 = length (dev_msgs demo_spsc)"
  using proc_status_exact [of "[demo_dev, demo_spsc]"] demo_ok by (auto simp: Let_def)


end
