(* ===== verification/Kbuf_Init.thy ===== *)
theory Kbuf_Init
  imports Kbuf_System Kbuf_Proc
begin

text \<open>
  Loading and unloading the module (\<open>kbuf_init\<close>, \<open>kbuf_exit\<close> and
  \<open>kbuf_teardown_devices\<close> of src/kbuf_main.c): the device array, the device numbers, the
  class, the static devices one by one, the views and the control device, with the unwind labels
  in the order of the code. The ledger shows that a failed load leaves nothing behind and that
  loading, any use of the devices and unloading is balanced.
\<close>

section \<open>The loaded module\<close>

record kmod =
  drv_of :: drv
  devices_ptr :: ptr
  kbuf_class :: ptr
  proc_entry :: ptr
  debug_root :: ptr
  debug_dirs :: "debugfs_dir list"
  import_pdev :: ptr

definition KBUF_MAX_NDEVICES :: u32 where "KBUF_MAX_NDEVICES = 64"
definition KBUF_DYN_MAX :: nat where "KBUF_DYN_MAX = 64"

section \<open>The static devices\<close>

definition static_dev :: "int \<Rightarrow> nat \<Rightarrow> kbuf_dev" where
  "static_dev base i = zero_dev\<lparr>num_buffers := KBUF_DEFAULT_NUM_BUFFERS,
     buffer_size := KBUF_DEFAULT_BUFFER_SIZE, mode := KBUF_MODE_BLOCKING, devno := base + int i\<rparr>"

text \<open>
  One round of the loop of \<open>kbuf_init\<close>: device \<open>i\<close>, or its own unwinding; first the
  last part, the cdev and the device node, then the mmap buffers before it, then the whole round.
\<close>

definition init_nodes :: "kbuf_dev \<Rightarrow> (kst, kbuf_dev result) state" where
  "init_nodes d = do {
     ret \<leftarrow> ask_err (\<lambda>_. Cdev_Map (devno d));
     if ret < 0 then do {
       d \<leftarrow> kbuf_mmap_dev_free d;
       kbuf_free_slots (slots_ptr d) (slots d) (num_buffers d);
       State_Monad.return (Inl (Kerr ret)) }
     else do {
       ret \<leftarrow> ask_err (\<lambda>_. Dev_Node (devno d));
       if ret < 0 then do {
         tell (Gave (Cdev_Map (devno d)));
         d \<leftarrow> kbuf_mmap_dev_free d;
         kbuf_free_slots (slots_ptr d) (slots d) (num_buffers d);
         State_Monad.return (Inl (Kerr ret)) }
       else State_Monad.return (Inr d) } }"

definition init_buffers :: "kbuf_dev \<Rightarrow> (kst, kbuf_dev result) state" where
  "init_buffers d = do {
     (ret, d) \<leftarrow> kbuf_mmap_dev_alloc d;
     case ret of
       Inl e \<Rightarrow> do {
         kbuf_free_slots (slots_ptr d) (slots d) (num_buffers d);
         State_Monad.return (Inl e) }
     | Inr _ \<Rightarrow> init_nodes d }"

definition init_dev :: "int \<Rightarrow> nat \<Rightarrow> (kst, kbuf_dev result) state" where
  "init_dev base i = do {
     let d = static_dev base i;
     r \<leftarrow> kbuf_alloc_slots (num_buffers d) (buffer_size d);
     case r of
       None \<Rightarrow> State_Monad.return (Inl ENOMEM)
     | Some (sp, ss) \<Rightarrow> init_buffers (d\<lparr>slots_ptr := sp, slots := ss\<rparr>) }"

text \<open>The loop; \<open>acc\<close> holds the fully created devices \<open>0..i-1\<close>.\<close>

primrec init_loop :: "int \<Rightarrow> nat \<Rightarrow> nat \<Rightarrow> kbuf_dev list \<Rightarrow> (kst, unit result \<times> kbuf_dev list) state" where
  "init_loop base i 0 acc = State_Monad.return (Inr (), acc)"
| "init_loop base i (Suc n) acc = do {
     r \<leftarrow> init_dev base i;
     case r of
       Inl e \<Rightarrow> State_Monad.return (Inl e, acc)
     | Inr d \<Rightarrow> init_loop base (Suc i) n (acc @ [d]) }"

primrec kbuf_teardown_devices :: "kbuf_dev list \<Rightarrow> (kst, unit) state" where
  "kbuf_teardown_devices [] = State_Monad.return ()"
| "kbuf_teardown_devices (d # ds) = do {
     tell (Gave (Dev_Node (devno d)));
     tell (Gave (Cdev_Map (devno d)));
     d \<leftarrow> kbuf_mmap_dev_free d;
     kbuf_free_slots (slots_ptr d) (slots d) (num_buffers d);
     kbuf_teardown_devices ds }"

section \<open>Load and unload\<close>

text \<open>The unwind labels of \<open>kbuf_init\<close>.\<close>

definition init_err_free :: "ptr \<Rightarrow> (kst, unit) state" where
  "init_err_free p = kfree p"

definition init_err_region :: "int \<Rightarrow> nat \<Rightarrow> ptr \<Rightarrow> (kst, unit) state" where
  "init_err_region base n p = do {
     tell (Gave (Chrdev_Region base (n + KBUF_DYN_MAX)));
     init_err_free p }"

definition init_err_devices :: "kbuf_dev list \<Rightarrow> ptr \<Rightarrow> int \<Rightarrow> nat \<Rightarrow> ptr \<Rightarrow> (kst, unit) state" where
  "init_err_devices ds cls base n p = do {
     kbuf_teardown_devices ds;
     tell (Gave (Dev_Class cls));
     init_err_region base n p }"

definition init_err_dmabuf :: "ptr \<Rightarrow> ptr \<Rightarrow> kbuf_dev list \<Rightarrow> ptr \<Rightarrow> int \<Rightarrow> nat \<Rightarrow> ptr \<Rightarrow> (kst, unit) state" where
  "init_err_dmabuf root entry ds cls base n p = do {
     kbuf_debugfs_unregister root;
     kbuf_proc_unregister entry;
     init_err_devices ds cls base n p }"

definition init_err_ctl ::
    "ptr \<Rightarrow> ptr \<Rightarrow> ptr \<Rightarrow> kbuf_dev list \<Rightarrow> ptr \<Rightarrow> int \<Rightarrow> nat \<Rightarrow> ptr \<Rightarrow> (kst, unit) state" where
  "init_err_ctl pdev root entry ds cls base n p = do {
     kbuf_dmabuf_exit pdev;
     init_err_dmabuf root entry ds cls base n p }"

text \<open>The last part of \<open>kbuf_init\<close>, once the static devices exist.\<close>

definition init_views :: "kbuf_dev list \<Rightarrow> ptr \<Rightarrow> int \<Rightarrow> nat \<Rightarrow> ptr \<Rightarrow> (kst, kmod result) state" where
  "init_views ds cls base n p = do {
     (entry, _) \<leftarrow> kbuf_proc_register;
     (root, dirs) \<leftarrow> kbuf_debugfs_register ds;
     r \<leftarrow> kbuf_dmabuf_init;
     case r of
       Inl e \<Rightarrow> do { init_err_dmabuf root entry ds cls base n p; State_Monad.return (Inl e) }
     | Inr pdev \<Rightarrow> do {
         ret \<leftarrow> kbuf_ctl_register;
         if ret < 0 then do {
           init_err_ctl pdev root entry ds cls base n p;
           State_Monad.return (Inl (Kerr ret)) }
         else State_Monad.return (Inr \<lparr>
           drv_of = \<lparr>base_devno = base, ndevices = n, devices = ds, heap = Map.empty, dyn_list = [],
             open_files = [], exported = [], stale_names = 0\<rparr>,
           devices_ptr = p, kbuf_class = cls, proc_entry = entry, debug_root = root,
           debug_dirs = dirs, import_pdev = pdev\<rparr>) } }"

definition kbuf_init :: "u32 \<Rightarrow> (kst, kmod result) state" where
  "kbuf_init nd =
     (if nd < 1 \<or> nd > KBUF_MAX_NDEVICES then State_Monad.return (Inl EINVAL)
      else do {
        let n = unat nd;
        p \<leftarrow> ask_ptr Mem;
        if p = 0 then State_Monad.return (Inl ENOMEM)
        else do {
          ret \<leftarrow> ask;
          if ret < 0 then do { init_err_free p; State_Monad.return (Inl (Kerr ret)) }
          else do {
            base \<leftarrow> ask;
            tell (Got (Chrdev_Region base (n + KBUF_DYN_MAX)));
            cls \<leftarrow> ask_err Dev_Class;
            if cls < 0 then do { init_err_region base n p; State_Monad.return (Inl (Kerr cls)) }
            else do {
              (r, ds) \<leftarrow> init_loop base 0 n [];
              case r of
                Inl e \<Rightarrow> do { init_err_devices ds cls base n p; State_Monad.return (Inl e) }
              | Inr _ \<Rightarrow> init_views ds cls base n p } } } })"

definition kbuf_exit :: "kmod \<Rightarrow> (kst, unit option) state" where
  "kbuf_exit m = do {
     x \<leftarrow> kbuf_ctl_unregister (drv_of m);
     case x of
       None \<Rightarrow> State_Monad.return None
     | Some g \<Rightarrow> do {
         kbuf_dmabuf_exit (import_pdev m);
         kbuf_debugfs_unregister (debug_root m);
         kbuf_proc_unregister (proc_entry m);
         kbuf_teardown_devices (devices g);
         tell (Gave (Dev_Class (kbuf_class m)));
         tell (Gave (Chrdev_Region (base_devno g) (ndevices g + KBUF_DYN_MAX)));
         kfree (devices_ptr m);
         State_Monad.return (Some ()) } }"

section \<open>What the static devices own\<close>

text \<open>A device as the load hands it over.\<close>

definition fresh_static :: "int \<Rightarrow> nat \<Rightarrow> kbuf_dev \<Rightarrow> bool" where
  "fresh_static base i d \<longleftrightarrow> dev_ok d \<and> dev_msgs d = [] \<and> mode d = KBUF_MODE_BLOCKING \<and> mmap_ok d \<and>
     \<not> dynamic d \<and> devno d = base + int i"

lemma static_dev_ok:
  assumes "run_state (kbuf_alloc_slots (num_buffers (static_dev base i)) (buffer_size (static_dev base i))) k =
    (Some (sp, ss), k')"
  shows "dev_ok (static_dev base i\<lparr>slots_ptr := sp, slots := ss\<rparr>)"
    "dev_msgs (static_dev base i\<lparr>slots_ptr := sp, slots := ss\<rparr>) = []"
    "freeable (static_dev base i\<lparr>slots_ptr := sp, slots := ss\<rparr>)"
  using kbuf_alloc_slots_ok(2) [OF assms]
  by (auto simp: static_dev_def zero_dev_def dev_ok_def ring_ok_def geom_ok_def dev_msgs_def
      ring_msgs_def freeable_def KBUF_DEFAULT_NUM_BUFFERS_def KBUF_DEFAULT_BUFFER_SIZE_def
      KBUF_MODE_SPSC_def KBUF_MODE_BLOCKING_def)

lemma mmap_dev_alloc_mode:
  "run_state (kbuf_mmap_dev_alloc d) k = ((r, d'), k') \<Longrightarrow> mode d' = mode d"
  by (auto simp: kbuf_mmap_dev_alloc_def Let_def split: if_splits prod.splits)

lemma init_dev_result:
  assumes "run_state (init_dev base i) k = (Inr d, k')"
  shows "fresh_static base i d"
proof -
  let ?d = "static_dev base i"
  obtain sl k1 where 1: "run_state (kbuf_alloc_slots (num_buffers ?d) (buffer_size ?d)) k = (sl, k1)"
    by fastforce
  with assms obtain sp ss where sl: "sl = Some (sp, ss)"
    by (cases sl) (auto simp: init_dev_def Let_def)
  let ?e = "?d\<lparr>slots_ptr := sp, slots := ss\<rparr>"
  obtain ret d1 k2 where 2: "run_state (kbuf_mmap_dev_alloc ?e) k1 = ((ret, d1), k2)" by (metis surj_pair)
  note fr = mmap_dev_alloc_frame [OF 2] mmap_dev_alloc_mode [OF 2]
  have "ret = Inr ()" "d = d1" using assms 1 2 sl
    by (auto simp: init_dev_def init_buffers_def init_nodes_def Let_def split: sum.splits if_splits prod.splits)
  with fr static_dev_ok [OF 1 [unfolded sl]] show ?thesis
    by (simp add: fresh_static_def) (simp add: static_dev_def zero_dev_def)
qed

lemma ktriple_buffers_free:
  assumes "freeable d" "Q x = {#}"
  shows "ktriple (buffers_mem d) (do {
      d \<leftarrow> kbuf_mmap_dev_free d;
      kbuf_free_slots (slots_ptr d) (slots d) (num_buffers d);
      State_Monad.return x }) Q"
proof -
  have "ktriple (buffers_mem d) (do {
      _ \<leftarrow> kbuf_mmap_dev_free d;
      kbuf_free_slots (slots_ptr d) (slots d) (num_buffers d);
      State_Monad.return x }) Q"
    by (rule ktriple_step [OF ktriple_mmap_dev_free, where F = "dev_slots_mem d"],
        simp add: buffers_mem_def, simp, rule ktriple_bind [OF ktriple_free_slots [OF assms(1)]],
        rule ktriple_return, simp add: assms(2))
  then show ?thesis by (simp add: kbuf_mmap_dev_free_def)
qed

abbreviation init_post :: "kbuf_dev result \<Rightarrow> kobj multiset" where
  "init_post r \<equiv> (case r of Inl _ \<Rightarrow> {#} | Inr d \<Rightarrow> static_mem d)"

lemma ktriple_init_nodes:
  assumes "freeable d"
  shows "ktriple (buffers_mem d) (init_nodes d) init_post"
  unfolding init_nodes_def
proof (rule ktriple_step [OF ktriple_ask_err, where F = "buffers_mem d"], simp, rule ktriple_if, goal_cases)
  case (1 r)
  then show ?case using ktriple_buffers_free [OF assms, of init_post] by simp
next
  case (2 r)
  show ?case
  proof (rule ktriple_step [OF ktriple_ask_err, where F = "buffers_mem d + {#Cdev_Map (devno d)#}"],
      use 2 in simp, rule ktriple_if, goal_cases)
    case (1 r)
    then show ?case
      by (intro ktriple_step [OF ktriple_gave, where F = "buffers_mem d"])
        (use ktriple_buffers_free [OF assms, of init_post] in simp_all)
  next
    case (2 r)
    then show ?case by (intro ktriple_return) (simp add: static_mem_def add_mset_commute)
  qed
qed

lemma ktriple_init_buffers:
  assumes "freeable d" "mmap_mem d = {#}"
  shows "ktriple (dev_slots_mem d) (init_buffers d) init_post"
  unfolding init_buffers_def
proof (rule ktriple_run)
  show "ktriple (dev_slots_mem d) (kbuf_mmap_dev_alloc d)
      (\<lambda>(r, d'). (if isl r then {#} else mmap_mem d') + dev_slots_mem d)"
    by (rule ktriple_conseq [OF ktriple_mmap_dev_alloc [OF assms(2)]]) (auto split: prod.split)
next
  fix k x k'
  assume run: "run_state (kbuf_mmap_dev_alloc d) k = (x, k')"
  obtain ret e where x: "x = (ret, e)" by fastforce
  have e: "freeable e" "dev_slots_mem e = dev_slots_mem d"
    using mmap_dev_alloc_frame(1,2) [OF run [unfolded x]] assms(1) by simp_all
  show "ktriple ((\<lambda>(r, d'). (if isl r then {#} else mmap_mem d') + dev_slots_mem d) x)
    (case x of (ret, d) \<Rightarrow> (case ret of
       Inl e \<Rightarrow> do {
         kbuf_free_slots (slots_ptr d) (slots d) (num_buffers d);
         State_Monad.return (Inl e) }
     | Inr _ \<Rightarrow> init_nodes d)) init_post"
  proof (cases ret)
    case (Inl er)
    have fs: "ktriple (dev_slots_mem d) (kbuf_free_slots (slots_ptr e) (slots e) (num_buffers e)) (\<lambda>_. {#})"
      using ktriple_free_slots [OF e(1)] e(2) by simp
    show ?thesis unfolding x Inl by (simp, rule ktriple_bind [OF fs], rule ktriple_return, simp)
  next
    case (Inr _)
    then show ?thesis using ktriple_init_nodes [OF e(1)] e(2) by (simp add: x buffers_mem_def add.commute)
  qed
qed

lemma ktriple_init_dev: "ktriple {#} (init_dev base i) init_post"
  unfolding init_dev_def Let_def
proof (rule ktriple_run [OF _ ktriple_kbuf_alloc_slots])
  fix k r k'
  let ?d = "static_dev base i"
  assume run: "run_state (kbuf_alloc_slots (num_buffers ?d) (buffer_size ?d)) k = (r, k')"
  show "ktriple (case r of None \<Rightarrow> {#} | Some (sp, ss) \<Rightarrow> slots_mem sp ss) (case r of
       None \<Rightarrow> State_Monad.return (Inl ENOMEM)
     | Some (sp, ss) \<Rightarrow> init_buffers (?d\<lparr>slots_ptr := sp, slots := ss\<rparr>)) init_post"
  proof (cases r)
    case (Some y)
    obtain sp ss where y: "y = (sp, ss)" by fastforce
    have "freeable (?d\<lparr>slots_ptr := sp, slots := ss\<rparr>)" using static_dev_ok(3) run Some y by blast
    moreover have "mmap_mem (?d\<lparr>slots_ptr := sp, slots := ss\<rparr>) = {#}"
      by (simp add: mmap_mem_def static_dev_def zero_dev_def)
    ultimately show ?thesis using ktriple_init_buffers by (fastforce simp: Some y)
  qed (simp add: ktriple_return)
qed

section \<open>The loop\<close>

abbreviation statics_mem :: "kbuf_dev list \<Rightarrow> kobj multiset" where
  "statics_mem ds \<equiv> (\<Sum>d \<leftarrow> ds. static_mem d)"

lemma ktriple_init_loop:
  "ktriple (statics_mem acc) (init_loop base i n acc) (\<lambda>(r, ds). statics_mem ds)"
proof (induction n arbitrary: i acc)
  case (Suc n)
  show ?case unfolding init_loop.simps
  proof (rule ktriple_step [OF ktriple_init_dev, where F = "statics_mem acc"], simp)
    fix r
    show "ktriple (init_post r + statics_mem acc) (case r of
         Inl e \<Rightarrow> State_Monad.return (Inl e, acc)
       | Inr d \<Rightarrow> init_loop base (Suc i) n (acc @ [d])) (\<lambda>(r, ds). statics_mem ds)"
    proof (cases r)
      case (Inr d)
      then show ?thesis using Suc [of "acc @ [d]" "Suc i"] by (simp add: add.commute)
    qed (simp add: ktriple_return)
  qed
qed (simp add: ktriple_return)

lemma init_loop_result:
  "run_state (init_loop base i n acc) k = ((r, ds), k') \<Longrightarrow> length acc = i \<Longrightarrow>
   (\<forall>j < i. fresh_static base j (acc ! j)) \<Longrightarrow>
   (\<forall>j < length ds. fresh_static base j (ds ! j)) \<and> (\<not> isl r \<longrightarrow> length ds = i + n)"
proof (induction n arbitrary: i acc k)
  case (Suc n)
  obtain x k1 where x: "run_state (init_dev base i) k = (x, k1)" by fastforce
  show ?case
  proof (cases x)
    case (Inl e)
    with Suc.prems x show ?thesis by auto
  next
    case (Inr d)
    from init_dev_result x Inr have d: "fresh_static base i d" by blast
    have run: "run_state (init_loop base (Suc i) n (acc @ [d])) k1 = ((r, ds), k')"
      using Suc.prems(1) x Inr by simp
    have "\<forall>j < Suc i. fresh_static base j ((acc @ [d]) ! j)"
      using d Suc.prems(2,3) by (auto simp: nth_append less_Suc_eq)
    from Suc.IH [OF run _ this] Suc.prems(2) show ?thesis by simp
  qed
qed simp

lemma ktriple_teardown_devices:
  "\<forall>d \<in> set ds. freeable d \<Longrightarrow> ktriple (statics_mem ds) (kbuf_teardown_devices ds) (\<lambda>_. {#})"
proof (induction ds)
  case (Cons d ds)
  let ?R = "statics_mem ds" and ?B = "mmap_mem d" and ?S = "dev_slots_mem d"
  have "ktriple (statics_mem (d # ds)) (do {
     tell (Gave (Dev_Node (devno d)));
     tell (Gave (Cdev_Map (devno d)));
     _ \<leftarrow> kbuf_mmap_dev_free d;
     kbuf_free_slots (slots_ptr d) (slots d) (num_buffers d);
     kbuf_teardown_devices ds }) (\<lambda>_. {#})"
    by (rule ktriple_step [OF ktriple_gave, where F = "{#Cdev_Map (devno d)#} + ?B + ?S + ?R"],
        simp add: static_mem_def buffers_mem_def ac_simps,
        rule ktriple_step [OF ktriple_gave, where F = "?B + ?S + ?R"], simp add: ac_simps,
        rule ktriple_step [OF ktriple_mmap_dev_free, where F = "?S + ?R"], simp add: ac_simps,
        rule ktriple_step [OF ktriple_free_slots, where F = "?R"])
      (use Cons in \<open>simp_all add: ac_simps\<close>)
  then show ?case by (simp add: kbuf_mmap_dev_free_def)
qed (simp add: ktriple_return)

section \<open>What a loaded module owns\<close>

text \<open>Besides its devices.\<close>

definition base_mem :: "ptr \<Rightarrow> int \<Rightarrow> nat \<Rightarrow> ptr \<Rightarrow> kobj multiset" where
  "base_mem cls base n p = {#Dev_Class cls, Chrdev_Region base (n + KBUF_DYN_MAX), Mem p#}"

definition views_mem :: "ptr \<Rightarrow> ptr \<Rightarrow> kobj multiset" where
  "views_mem root entry = (if root < 0 then {#} else {#Debugfs_Dir root#}) +
     (if entry = 0 then {#} else {#Proc_Entry entry#})"

definition mod_mem :: "kmod \<Rightarrow> kobj multiset" where
  "mod_mem m = {#Misc_Dev, Platform_Dev (import_pdev m)#} + views_mem (debug_root m) (proc_entry m) +
     base_mem (kbuf_class m) (base_devno (drv_of m)) (ndevices (drv_of m)) (devices_ptr m)"

lemma ktriple_err_region:
  "p \<noteq> 0 \<Longrightarrow> ktriple {#Chrdev_Region base (n + KBUF_DYN_MAX), Mem p#} (init_err_region base n p) (\<lambda>_. {#})"
  unfolding init_err_region_def init_err_free_def
  by (rule ktriple_step [OF ktriple_gave, where F = "{#Mem p#}"]) (simp_all add: ktriple_kfree)

lemma ktriple_err_devices:
  assumes "p \<noteq> 0" "\<forall>d \<in> set ds. freeable d"
  shows "ktriple (statics_mem ds + base_mem cls base n p) (init_err_devices ds cls base n p) (\<lambda>_. {#})"
  unfolding init_err_devices_def base_mem_def
  by (rule ktriple_step [OF ktriple_teardown_devices [OF assms(2)] refl], simp,
      rule ktriple_step [OF ktriple_gave, where F = "{#Chrdev_Region base (n + KBUF_DYN_MAX), Mem p#}"])
    (use ktriple_err_region [OF assms(1)] in simp_all)

lemma ktriple_unviews:
  assumes "ktriple P m Q"
  shows "ktriple (views_mem root entry + P) (do {
      kbuf_debugfs_unregister root; kbuf_proc_unregister entry; m }) Q"
proof (rule ktriple_step [OF ktriple_debugfs_unregister [of root]])
  show "views_mem root entry + P = (if root < 0 then {#} else {#Debugfs_Dir root#}) +
      ((if entry = 0 then {#} else {#Proc_Entry entry#}) + P)"
    by (simp only: views_mem_def union_assoc)
  have "ktriple ((if entry = 0 then {#} else {#Proc_Entry entry#}) + P)
      (kbuf_proc_unregister entry \<bind> (\<lambda>_. m)) Q"
    by (rule ktriple_step [OF ktriple_proc_unregister [of entry] refl]) (use assms in simp)
  then show "ktriple ({#} + ((if entry = 0 then {#} else {#Proc_Entry entry#}) + P))
      (kbuf_proc_unregister entry \<bind> (\<lambda>_. m)) Q" for r :: unit
    by (simp only: add_0)
qed

lemma ktriple_err_dmabuf:
  assumes "p \<noteq> 0" "\<forall>d \<in> set ds. freeable d"
  shows "ktriple (views_mem root entry + (statics_mem ds + base_mem cls base n p))
    (init_err_dmabuf root entry ds cls base n p) (\<lambda>_. {#})"
  unfolding init_err_dmabuf_def by (rule ktriple_unviews [OF ktriple_err_devices [OF assms]])

lemma ktriple_err_ctl:
  assumes "p \<noteq> 0" "\<forall>d \<in> set ds. freeable d"
  shows "ktriple ({#Platform_Dev pdev#} + (views_mem root entry + (statics_mem ds + base_mem cls base n p)))
    (init_err_ctl pdev root entry ds cls base n p) (\<lambda>_. {#})"
  unfolding init_err_ctl_def kbuf_dmabuf_exit_def
  by (rule ktriple_step [OF ktriple_gave refl]) (use ktriple_err_dmabuf [OF assms] in simp)

text \<open>What a load hands over: nothing when it fails.\<close>

abbreviation load_post :: "kmod result \<Rightarrow> kobj multiset" where
  "load_post r \<equiv> (case r of Inl _ \<Rightarrow> {#} | Inr m \<Rightarrow> statics_mem (devices (drv_of m)) + mod_mem m)"

lemma ktriple_load_fail:
  "ktriple P m (\<lambda>_. {#}) \<Longrightarrow> ktriple P (do { m; State_Monad.return (Inl e) }) load_post"
  by (rule ktriple_bind, assumption, rule ktriple_return, simp)

lemma ktriple_init_views:
  assumes "p \<noteq> 0" "\<forall>d \<in> set ds. freeable d"
  shows "ktriple (statics_mem ds + base_mem cls base n p) (init_views ds cls base n p) load_post"
  unfolding init_views_def
proof (rule ktriple_step [OF ktriple_proc_register, where F = "statics_mem ds + base_mem cls base n p"], simp,
    clarify, goal_cases)
  case (1 entry u)
  show ?case unfolding prod.case
  proof (rule ktriple_step [OF ktriple_debugfs_register [of ds], where F =
        "(if entry = 0 then {#} else {#Proc_Entry entry#}) + (statics_mem ds + base_mem cls base n p)"],
      simp, clarify, goal_cases)
    case (1 root dirs)
    let ?V = "views_mem root entry + (statics_mem ds + base_mem cls base n p)"
    have v: "(if root < 0 then {#} else {#Debugfs_Dir root#}) +
        ((if entry = 0 then {#} else {#Proc_Entry entry#}) + (statics_mem ds + base_mem cls base n p)) = ?V"
      by (simp add: views_mem_def ac_simps)
    show ?case unfolding prod.case
    proof (rule ktriple_step [OF ktriple_dmabuf_init, where F = ?V], goal_cases)
      case 1
      show ?case using v by simp
    next
      case (2 r)
      show ?case
      proof (cases r)
        case (Inl e)
        then show ?thesis using ktriple_load_fail [OF ktriple_err_dmabuf [OF assms]] by simp
      next
        case (Inr pdev)
        show ?thesis unfolding Inr kbuf_ctl_register_def
          by (simp, rule ktriple_step [OF ktriple_ask_err, where F = "{#Platform_Dev pdev#} + ?V"], simp,
              rule ktriple_if, use ktriple_load_fail [OF ktriple_err_ctl [OF assms]] in simp,
              rule ktriple_return, simp add: mod_mem_def ac_simps)
      qed
    qed
  qed
qed

lemma fresh_freeable: "\<forall>j < length ds. fresh_static base j (ds ! j) \<Longrightarrow> d \<in> set ds \<Longrightarrow> freeable d"
  by (auto simp: in_set_conv_nth fresh_static_def intro: dev_ok_freeable)

lemma ktriple_init_devices:
  assumes "p \<noteq> 0"
  shows "ktriple (base_mem cls base n p) (do {
      (r, ds) \<leftarrow> init_loop base 0 n [];
      case r of
        Inl e \<Rightarrow> do { init_err_devices ds cls base n p; State_Monad.return (Inl e) }
      | Inr _ \<Rightarrow> init_views ds cls base n p }) load_post"
proof (rule ktriple_run)
  show "ktriple (base_mem cls base n p) (init_loop base 0 n [])
      (\<lambda>(r, ds). statics_mem ds + base_mem cls base n p)"
    by (rule ktriple_conseq [OF ktriple_init_loop [of "[]"]]) auto
next
  fix k x k'
  assume run: "run_state (init_loop base 0 n []) k = (x, k')"
  obtain r ds where x: "x = (r, ds)" by fastforce
  have "\<forall>j < length ds. fresh_static base j (ds ! j)" using init_loop_result [OF run [unfolded x]] by simp
  then have fd: "\<forall>d \<in> set ds. freeable d" using fresh_freeable by blast
  show "ktriple ((\<lambda>(r, ds). statics_mem ds + base_mem cls base n p) x) (case x of (r, ds) \<Rightarrow> (case r of
        Inl e \<Rightarrow> do { init_err_devices ds cls base n p; State_Monad.return (Inl e) }
      | Inr _ \<Rightarrow> init_views ds cls base n p)) load_post"
    using ktriple_load_fail [OF ktriple_err_devices [OF assms fd]] ktriple_init_views [OF assms fd]
    by (cases r) (simp_all add: x)
qed

lemma ktriple_kbuf_init: "ktriple {#} (kbuf_init nd) load_post"
  unfolding kbuf_init_def Let_def
proof (rule ktriple_if, simp add: ktriple_return, rule ktriple_bind [OF ktriple_ask_ptr], rule ktriple_if,
    simp add: ktriple_return, goal_cases)
  case (1 p)
  let ?n = "unat nd"
  show ?case
  proof (rule ktriple_step [OF ktriple_ask, where F = "{#Mem p#}"], use 1 in simp, rule ktriple_if, goal_cases)
    case (1 r)
    then show ?case using ktriple_load_fail [OF ktriple_kfree [of p]] \<open>p \<noteq> 0\<close> by (simp add: init_err_free_def)
  next
    case (2 r)
    have region: "ktriple {#Chrdev_Region base (?n + KBUF_DYN_MAX), Mem p#} (do {
        cls \<leftarrow> ask_err Dev_Class;
        if cls < 0 then do { init_err_region base ?n p; State_Monad.return (Inl (Kerr cls)) }
        else do {
          (r, ds) \<leftarrow> init_loop base 0 ?n [];
          case r of
            Inl e \<Rightarrow> do { init_err_devices ds cls base ?n p; State_Monad.return (Inl e) }
          | Inr _ \<Rightarrow> init_views ds cls base ?n p } }) load_post" for base
      by (rule ktriple_step [OF ktriple_ask_err, where F = "{#Chrdev_Region base (?n + KBUF_DYN_MAX), Mem p#}"],
          simp, rule ktriple_if,
          use ktriple_load_fail [OF ktriple_err_region [OF \<open>p \<noteq> 0\<close>]] in simp,
          use ktriple_init_devices [OF \<open>p \<noteq> 0\<close>, unfolded base_mem_def] in \<open>simp add: add_mset_commute\<close>)
    show ?case
      by (rule ktriple_step [OF ktriple_ask, where F = "{#Mem p#}"], simp,
          rule ktriple_step [OF ktriple_got, where F = "{#Mem p#}"], simp)
        (use region in \<open>simp add: add_mset_commute\<close>)
  qed
qed

section \<open>The lifetime of the module\<close>

text \<open>A module as a successful load leaves it.\<close>

definition fresh_mod :: "nat \<Rightarrow> kmod \<Rightarrow> bool" where
  "fresh_mod n m \<longleftrightarrow> (let g = drv_of m in
     ndevices g = n \<and> length (devices g) = n \<and> (\<forall>i < n. fresh_static (base_devno g) i (devices g ! i)) \<and>
     heap g = Map.empty \<and> dyn_list g = [] \<and> open_files g = [] \<and> exported g = [] \<and> devices_ptr m \<noteq> 0)"

lemma init_views_result:
  "run_state (init_views ds cls base n p) k = (Inr m, k') \<Longrightarrow>
   drv_of m = \<lparr>base_devno = base, ndevices = n, devices = ds, heap = Map.empty, dyn_list = [],
     open_files = [], exported = [], stale_names = 0\<rparr> \<and> devices_ptr m = p"
  by (auto simp: init_views_def split: sum.splits if_splits prod.splits)

lemma kbuf_init_result:
  assumes "run_state (kbuf_init nd) k = (Inr m, k')"
  shows "1 \<le> unat nd" "unat nd \<le> 64" "fresh_mod (unat nd) m"
proof -
  let ?n = "unat nd"
  have nd: "\<not> (nd < 1 \<or> nd > KBUF_MAX_NDEVICES)" using assms by (auto simp: kbuf_init_def split: if_splits)
  then show "1 \<le> ?n" "?n \<le> 64" by (auto simp: KBUF_MAX_NDEVICES_def word_less_nat_alt)
  from assms nd obtain p base cls ds k1 k2 k3 where
    "p \<noteq> 0" and l: "run_state (init_loop base 0 ?n []) k1 = ((Inr (), ds), k2)"
    and v: "run_state (init_views ds cls base ?n p) k2 = (Inr m, k3)"
    by (auto simp: kbuf_init_def Let_def split: sum.splits if_splits prod.splits)
  from init_loop_result [OF l] init_views_result [OF v] \<open>p \<noteq> 0\<close> show "fresh_mod ?n m"
    by (simp add: fresh_mod_def)
qed

lemma fresh_mod_inv: "fresh_mod n m \<Longrightarrow> sys_inv (drv_of m) {#}"
  by (auto simp: fresh_mod_def Let_def sys_inv_def statics_ok_def owed_def fresh_static_def in_set_conv_nth)

lemma init_held:
  assumes "run_state (kbuf_init nd) k = (r, k')" "held k = Some F"
  shows "case r of Inl e \<Rightarrow> held k' = Some F | Inr m \<Rightarrow> sys_ok (drv_of m) k' (mod_mem m + F)"
proof -
  have h: "held k' = Some (load_post r + F)"
    by (rule ktripleD [OF ktriple_kbuf_init _ assms(1)]) (simp add: assms(2))
  show ?thesis
  proof (cases r)
    case (Inr m)
    with assms(1) have m: "fresh_mod (unat nd) m" using kbuf_init_result(3) by blast
    then have "sys_mem (drv_of m) = statics_mem (devices (drv_of m))"
      by (simp add: fresh_mod_def Let_def sys_mem_def dyn_mem_def)
    with h Inr fresh_mod_inv [OF m] show ?thesis by (simp add: sys_ok_def union_assoc)
  qed (use h in simp)
qed

text \<open>No event renumbers the devices.\<close>

definition same_base :: "drv \<Rightarrow> drv \<Rightarrow> bool" where
  "same_base g g' \<longleftrightarrow> base_devno g' = base_devno g \<and> ndevices g' = ndevices g"

lemma same_base_upd [simp]:
  "same_base g g" "same_base (g\<lparr>heap := h\<rparr>) g' = same_base g g'" "same_base (g\<lparr>dyn_list := l\<rparr>) g' = same_base g g'"
  "same_base (g\<lparr>open_files := fs\<rparr>) g' = same_base g g'" "same_base (g\<lparr>exported := es\<rparr>) g' = same_base g g'"
  "same_base g (g'\<lparr>heap := h\<rparr>) = same_base g g'" "same_base g (g'\<lparr>dyn_list := l\<rparr>) = same_base g g'"
  "same_base g (g'\<lparr>open_files := fs\<rparr>) = same_base g g'" "same_base g (g'\<lparr>exported := es\<rparr>) = same_base g g'"
  "same_base g (g'\<lparr>devices := ds\<rparr>) = same_base g g'"
  "same_base (dev_name f g) g' = same_base g g'" "same_base g (dev_name f g') = same_base g g'"
  by (auto simp: same_base_def dev_name_def split: devref.split option.split)

lemma same_base_trans: "same_base g g1 \<Longrightarrow> same_base g1 g2 \<Longrightarrow> same_base g g2"
  by (simp add: same_base_def)

lemma put_base: "run_state (dev_put f g) k = (Some g', k') \<Longrightarrow> same_base g g'"
  by (auto simp: dev_put_def kref_put_def split: devref.splits option.splits if_splits prod.splits)

lemma get_base: "dev_get f g = Some g' \<Longrightarrow> same_base g g'"
  by (auto simp: dev_get_def kref_get_def split: devref.splits option.splits if_splits)

lemma open_base: "kbuf_open n g = Some (r, g') \<Longrightarrow> same_base g g'"
  by (auto simp: kbuf_open_def kbuf_dyn_get_def kref_get_def split: option.splits if_splits)

lemma teardown_base: "run_state (kbuf_dyn_teardown p g) k = (Some g', k') \<Longrightarrow> same_base g g'"
  by (auto simp: kbuf_dyn_teardown_def kref_put_def split: option.splits if_splits prod.splits)

lemma destroy_base: "run_state (kbuf_dyn_destroy i g) k = (Some (r, g'), k') \<Longrightarrow> same_base g g'"
  by (fastforce simp: kbuf_dyn_destroy_def dest: teardown_base split: option.splits prod.splits)

lemma create_base: "run_state (kbuf_dyn_create g) k = ((r, g'), k') \<Longrightarrow> same_base g g'"
  by (auto simp: added_def dest!: dyn_create_result)

lemma ctl_base:
  assumes "run_state (kbuf_ctl_ioctl u c arg g) k = (Some (r, out, g'), k')"
  shows "same_base g g'"
  using assms
  by (cases c) (auto simp: kbuf_ctl_ioctl_def Let_def dest!: create_base destroy_base
      split: sum.splits if_splits prod.splits intro: same_base_trans)

lemma dmabuf_close_base: "run_state (dmabuf_close b f g) k = (Some g', k') \<Longrightarrow> same_base g g'"
  by (auto simp: dmabuf_close_def dma_buf_put_last_def kbuf_dmabuf_release_def dest!: put_base
      split: prod.splits)

lemma export_base:
  assumes "run_state (kbuf_ioc_export u f g) k = (Some (r, out, g'), k')"
  shows "same_base g g'"
proof -
  obtain y k1 where y: "run_state (kbuf_dmabuf_export f g) k = (y, k1)" by fastforce
  with assms obtain r1 g1 where 1: "y = Some (r1, g1)" by (cases y) (auto simp: kbuf_ioc_export_def)
  have "same_base g g1" using y unfolding 1
    by (auto simp: kbuf_dmabuf_export_def Let_def dma_buf_put_last_def kbuf_dmabuf_release_def
        dest!: get_base put_base split: option.splits if_splits prod.splits intro: same_base_trans)
  moreover have "same_base g1 g'" using assms y unfolding 1
    by (auto simp: kbuf_ioc_export_def Let_def dest!: dmabuf_close_base
        split: sum.splits if_splits prod.splits)
  ultimately show ?thesis by (rule same_base_trans)
qed

lemma set_dev_base [simp]: "same_base g (set_dev f d g)"
  by (cases f) (simp_all add: set_dev_def)

lemma step_base:
  assumes "run_state (sys_step e g) k = (Some g', k')"
  shows "same_base g g'"
proof (cases e)
  case (Ctl u c arg)
  with assms show ?thesis by (auto dest!: ctl_base split: prod.splits)
next
  case (Open n)
  with assms show ?thesis by (auto dest!: open_base split: option.splits sum.splits)
next
  case (Close f)
  with assms show ?thesis by (auto simp: kbuf_release_def dest!: put_base split: if_splits)
next
  case (Cmd f c)
  with assms show ?thesis
    by (auto split: if_splits option.splits prod.splits)
next
  case (Export u f)
  with assms show ?thesis by (auto dest!: export_base split: if_splits prod.splits)
next
  case (Dmabuf_Close b f)
  with assms show ?thesis by (auto dest!: dmabuf_close_base split: if_splits)
qed

lemma run_base: "run_state (sys_run es g) k = (Some g', k') \<Longrightarrow> same_base g g'"
proof (induction es arbitrary: g k)
  case (Cons e es)
  obtain y k1 where y: "run_state (sys_step e g) k = (y, k1)" by fastforce
  with Cons.prems obtain g1 where "y = Some g1" by (cases y) auto
  with Cons y show ?case by (auto dest!: step_base intro: same_base_trans)
qed simp

text \<open>
  C14: loading the module is all or nothing. It fails on a device count outside 1 to 64; whenever it
  fails, at any device and any later step, everything it had acquired has been given back. When it
  succeeds there are as many devices as asked for, each empty, in blocking mode and with consecutive
  device numbers, no dynamic device exists, and the module owns exactly what the unload gives back.
\<close>

theorem init_all_or_nothing:
  assumes "run_state (kbuf_init nd) k = (r, k')" "held k = Some F"
  shows "case r of
      Inl e \<Rightarrow> held k' = Some F
    | Inr m \<Rightarrow> 1 \<le> unat nd \<and> unat nd \<le> 64 \<and> fresh_mod (unat nd) m \<and>
        sys_inv (drv_of m) {#} \<and> held k' = Some (sys_mem (drv_of m) + (mod_mem m + F))"
  using init_held [OF assms] kbuf_init_result [of nd k _ k'] assms(1)
  by (cases r) (simp_all add: sys_ok_def)

lemma teardown_all_base:
  "run_state (dyn_teardown_all ps g) k = (Some g', k') \<Longrightarrow> same_base g g'"
proof (induction ps arbitrary: g k)
  case (Cons p ps)
  obtain y k1 where y: "run_state (kbuf_dyn_teardown p (g\<lparr>dyn_list := ps\<rparr>)) k = (y, k1)" by fastforce
  with Cons.prems obtain g1 where "y = Some g1" by (cases y) auto
  with Cons y show ?case by (auto dest!: teardown_base intro: same_base_trans)
qed simp

lemma unregister_base: "run_state (kbuf_ctl_unregister g) k = (Some g', k') \<Longrightarrow> same_base g g'"
  by (auto simp: kbuf_ctl_unregister_def dest!: teardown_all_base split: prod.splits)

lemma ktriple_exit_tail:
  assumes "p \<noteq> 0" "\<forall>d \<in> set ds. freeable d"
  shows "ktriple ({#Platform_Dev pdev#} + (views_mem root entry + (statics_mem ds + base_mem cls base n p))) (do {
      kbuf_dmabuf_exit pdev;
      kbuf_debugfs_unregister root;
      kbuf_proc_unregister entry;
      kbuf_teardown_devices ds;
      tell (Gave (Dev_Class cls));
      tell (Gave (Chrdev_Region base (n + KBUF_DYN_MAX)));
      kfree p;
      State_Monad.return (Some ()) }) (\<lambda>_. {#})"
proof -
  have r: "ktriple {#Chrdev_Region base (n + KBUF_DYN_MAX), Mem p#} (do {
      tell (Gave (Chrdev_Region base (n + KBUF_DYN_MAX)));
      kfree p;
      State_Monad.return (Some ()) }) (\<lambda>_. {#})"
    by (rule ktriple_step [OF ktriple_gave, where F = "{#Mem p#}"], simp, simp,
        rule ktriple_done [OF ktriple_kfree [OF assms(1)]])
  have b: "ktriple (base_mem cls base n p) (do {
      tell (Gave (Dev_Class cls));
      tell (Gave (Chrdev_Region base (n + KBUF_DYN_MAX)));
      kfree p;
      State_Monad.return (Some ()) }) (\<lambda>_. {#})"
    by (rule ktriple_step [OF ktriple_gave, where F = "{#Chrdev_Region base (n + KBUF_DYN_MAX), Mem p#}"],
        simp add: base_mem_def, use r in simp)
  have t: "ktriple (statics_mem ds + base_mem cls base n p) (do {
      kbuf_teardown_devices ds;
      tell (Gave (Dev_Class cls));
      tell (Gave (Chrdev_Region base (n + KBUF_DYN_MAX)));
      kfree p;
      State_Monad.return (Some ()) }) (\<lambda>_. {#})"
    by (rule ktriple_step [OF ktriple_teardown_devices [OF assms(2)] refl], use b in simp)
  show ?thesis
    unfolding kbuf_dmabuf_exit_def
    by (rule ktriple_step [OF ktriple_gave refl], use ktriple_unviews [OF t] in simp)
qed

lemma exit_held:
  assumes ok: "sys_ok (drv_of m) k (mod_mem m + F)" and idle: "open_files (drv_of m) = []" "exported (drv_of m) = []"
    and p: "devices_ptr m \<noteq> 0" and run: "run_state (kbuf_exit m) k = (z, k')"
  shows "z = Some () \<and> held k' = Some F"
proof -
  let ?g = "drv_of m"
  let ?T = "{#Platform_Dev (import_pdev m)#} + (views_mem (debug_root m) (proc_entry m) +
    (statics_mem (devices ?g) + base_mem (kbuf_class m) (base_devno ?g) (ndevices ?g) (devices_ptr m)))"
  let ?R = "{#Platform_Dev (import_pdev m)#} + (views_mem (debug_root m) (proc_entry m) +
    base_mem (kbuf_class m) (base_devno ?g) (ndevices ?g) (devices_ptr m)) + F"
  obtain x k1 where x: "run_state (kbuf_ctl_unregister ?g) k = (x, k1)" by fastforce
  have "sys_ok ?g k (add_mset Misc_Dev ?R)" using ok by (simp add: mod_mem_def union_assoc)
  from unregister_held [OF this idle x] obtain g where g: "x = Some g" "sys_inv g {#}" "devices g = devices ?g"
    and h: "held k1 = Some (statics_mem (devices ?g) + ?R)" by blast
  have fd: "\<forall>d \<in> set (devices g). freeable d"
    using sys_invD(1) [OF g(2)] by (auto simp: statics_ok_def intro: dev_ok_freeable)
  from h have h1: "held k1 = Some (?T + F)" by (simp add: ac_simps)
  obtain y k2 where y: "run_state (do {
      kbuf_dmabuf_exit (import_pdev m);
      kbuf_debugfs_unregister (debug_root m);
      kbuf_proc_unregister (proc_entry m);
      kbuf_teardown_devices (devices g);
      tell (Gave (Dev_Class (kbuf_class m)));
      tell (Gave (Chrdev_Region (base_devno g) (ndevices g + KBUF_DYN_MAX)));
      kfree (devices_ptr m);
      State_Monad.return (Some ()) }) k1 = (y, k2)" by (metis surj_pair)
  have e: "base_devno g = base_devno ?g" "ndevices g = ndevices ?g" using unregister_base [OF x [unfolded g(1)]] by (simp_all add: same_base_def)
  from ktripleD [OF ktriple_exit_tail [OF p fd] _ y, of F] h1 g(3) have "held k2 = Some F" by (simp add: e)
  moreover have "y = Some ()" using y by (auto split: prod.splits)
  moreover have "(z, k') = (y, k2)" using run x y g(1) by (simp add: kbuf_exit_def)
  ultimately show ?thesis by simp
qed

text \<open>
  C8: the whole life of the module is balanced. Whatever happens between a successful load and
  the unload (any history of opens, closes, reads, writes, reconfigurations, creations,
  destructions, exports and drops), if no file is open and no exported buffer is alive when the
  module is unloaded, the unload completes, and the kernel objects held are exactly those held
  before the load.
\<close>

theorem module_lifetime:
  assumes "run_state (kbuf_init nd) k = (Inr m, k1)" "held k = Some F"
    and "\<forall>e \<in> set es. event_ok e" "fresh_run es (drv_of m) k1"
    and "run_state (sys_run es (drv_of m)) k1 = (Some g, k2)" "open_files g = []" "exported g = []"
    and "run_state (kbuf_exit (m\<lparr>drv_of := g\<rparr>)) k2 = (z, k3)"
  shows "z = Some () \<and> held k3 = Some F"
proof -
  have "sys_ok (drv_of m) k1 (mod_mem m + F)" using init_held [OF assms(1,2)] by simp
  from sys_run_ok [OF this assms(3-5)] have "sys_ok g k2 (mod_mem m + F)" by simp
  moreover have "mod_mem (m\<lparr>drv_of := g\<rparr>) = mod_mem m"
    using run_base [OF assms(5)] by (simp add: mod_mem_def same_base_def)
  moreover have "devices_ptr m \<noteq> 0"
    using kbuf_init_result(3) [OF assms(1)] by (simp add: fresh_mod_def Let_def)
  ultimately show ?thesis
    using exit_held [of "m\<lparr>drv_of := g\<rparr>" k2 F z k3] assms(6-8) by simp
qed

section \<open>Witnesses\<close>

text \<open>A kernel that grants every request; request 32788 is the one that has to return zero.\<close>

definition load_kst :: kst where
  "load_kst = \<lparr>answers = (\<lambda>i. if i = 32788 then 0 else int i + 1), ticks = 0, calls = []\<rparr>"

lemma load_ok: "\<exists>m k'. run_state (kbuf_init 1) load_kst = (Inr m, k')"
  by (simp add: kbuf_init_def KBUF_MAX_NDEVICES_def load_kst_def ask_ptr_def ask_err_def ask_def tell_def
      State_Monad.bind_def State_Monad.return_def Let_def init_dev_def kbuf_alloc_slots_def kmalloc_def
      ask_bytes_def static_dev_def KBUF_DEFAULT_NUM_BUFFERS_def KBUF_DEFAULT_BUFFER_SIZE_def zero_dev_def
      init_buffers_def init_nodes_def kbuf_mmap_dev_alloc_def del: upt_rec_numeral)
    (simp add: init_views_def kbuf_proc_register_def kbuf_debugfs_register_def kbuf_dmabuf_init_def
      kbuf_ctl_register_def ask_ptr_def ask_err_def ask_def tell_def
      State_Monad.bind_def State_Monad.return_def del: upt_rec_numeral)

theorem init_all_or_nothing_witness:
  "\<exists>m k'. run_state (kbuf_init 1) load_kst = (Inr m, k') \<and> fresh_mod 1 m \<and>
     held k' = Some (sys_mem (drv_of m) + mod_mem m)"
proof -
  obtain m k' where run: "run_state (kbuf_init 1) load_kst = (Inr m, k')" using load_ok by blast
  have "held load_kst = Some {#}" by (simp add: held_def ledger_def load_kst_def)
  from init_all_or_nothing [OF run this] run show ?thesis by auto
qed

theorem module_lifetime_witness:
  "\<exists>m k1 g k2 z k3. run_state (kbuf_init 1) load_kst = (Inr m, k1) \<and>
     run_state (sys_run [Open 0, Close (Static 0)] (drv_of m)) k1 = (Some g, k2) \<and>
     run_state (kbuf_exit (m\<lparr>drv_of := g\<rparr>)) k2 = (z, k3) \<and> held k3 = Some {#}"
proof -
  let ?es = "[Open 0, Close (Static 0)]"
  obtain m k1 where run: "run_state (kbuf_init 1) load_kst = (Inr m, k1)" using load_ok by blast
  have h: "held load_kst = Some {#}" by (simp add: held_def ledger_def load_kst_def)
  from kbuf_init_result(3) [OF run] have m: "ndevices (drv_of m) = 1" "length (devices (drv_of m)) = 1"
    "\<not> dynamic (devices (drv_of m) ! 0)" "open_files (drv_of m) = []" "exported (drv_of m) = []"
    by (simp_all add: fresh_mod_def Let_def fresh_static_def)
  have ne: "devices (drv_of m) \<noteq> []" using m(2) by auto
  have r: "run_state (sys_run ?es (drv_of m)) k1 = (Some (drv_of m), k1)"
    using m ne by (simp add: kbuf_open_def dev_name_def kbuf_release_def dev_put_def)
  have f: "fresh_run ?es (drv_of m) k1" by (simp split: prod.split option.split del: sys_step.simps)
  obtain z k3 where e: "run_state (kbuf_exit (m\<lparr>drv_of := drv_of m\<rparr>)) k1 = (z, k3)" by fastforce
  from module_lifetime [OF run h _ f r m(4,5) e] run r e show ?thesis
    by (simp del: sys_run.simps)
qed

end
