(* ===== verification/Kbuf_Dispatch.thy ===== *)
theory Kbuf_Dispatch
  imports Kbuf_System
begin

text \<open>
  The ioctl entry points: \<open>kbuf_ioctl\<close> of src/kbuf_ioctl.c with the command numbers of
  include/kbuf.h, and the decoding of the control device's commands (src/kbuf_ctl.c). How the
  kernel's macros pack a command number is a parameter of the definitions.
\<close>

section \<open>Command numbers\<close>

text \<open>\<open>_IO\<close>, \<open>_IOW\<close> and \<open>_IOR\<close> take a type, a number and a size.\<close>

record ioc =
  IOC_TYPE :: "u32 \<Rightarrow> nat"
  IOC_NR :: "u32 \<Rightarrow> nat"
  mk_IO :: "nat \<Rightarrow> nat \<Rightarrow> u32"
  mk_IOW :: "nat \<Rightarrow> nat \<Rightarrow> nat \<Rightarrow> u32"
  mk_IOR :: "nat \<Rightarrow> nat \<Rightarrow> nat \<Rightarrow> u32"

text \<open>What the documentation of the macros promises: the type and the number can be taken out again.\<close>

definition ioc_ok :: "ioc \<Rightarrow> bool" where
  "ioc_ok c \<longleftrightarrow>
     (\<forall>t n. t < 256 \<longrightarrow> n < 256 \<longrightarrow> IOC_TYPE c (mk_IO c t n) = t \<and> IOC_NR c (mk_IO c t n) = n) \<and>
     (\<forall>t n s. t < 256 \<longrightarrow> n < 256 \<longrightarrow> s < 16384 \<longrightarrow>
       IOC_TYPE c (mk_IOW c t n s) = t \<and> IOC_NR c (mk_IOW c t n s) = n \<and>
       IOC_TYPE c (mk_IOR c t n s) = t \<and> IOC_NR c (mk_IOR c t n s) = n)"

definition KBUF_IOC_MAGIC :: nat where "KBUF_IOC_MAGIC = of_char CHR ''k''"
definition KBUF_CTL_MAGIC :: nat where "KBUF_CTL_MAGIC = of_char CHR ''K''"
definition KBUF_IOC_MAXNR :: nat where "KBUF_IOC_MAXNR = 6"

definition KBUF_IOCRESIZE :: "ioc \<Rightarrow> u32" where "KBUF_IOCRESIZE c = mk_IOW c KBUF_IOC_MAGIC 1 8"
definition KBUF_IOCGSTATS :: "ioc \<Rightarrow> u32" where "KBUF_IOCGSTATS c = mk_IOR c KBUF_IOC_MAGIC 2 64"
definition KBUF_IOCRESET :: "ioc \<Rightarrow> u32" where "KBUF_IOCRESET c = mk_IO c KBUF_IOC_MAGIC 3"
definition KBUF_IOCSMODE :: "ioc \<Rightarrow> u32" where "KBUF_IOCSMODE c = mk_IOW c KBUF_IOC_MAGIC 4 4"
definition KBUF_IOCEXPORT :: "ioc \<Rightarrow> u32" where "KBUF_IOCEXPORT c = mk_IOR c KBUF_IOC_MAGIC 5 4"
definition KBUF_IOCIMPORT :: "ioc \<Rightarrow> u32" where "KBUF_IOCIMPORT c = mk_IOW c KBUF_IOC_MAGIC 6 4"

section \<open>The device ioctl\<close>

text \<open>The commands that act on the structure of the device the file refers to.\<close>

definition with_dev :: "devref \<Rightarrow> drv \<Rightarrow> (kbuf_dev \<Rightarrow> (kst, (unit result \<times> u8 list \<times> drv) option) state)
    \<Rightarrow> (kst, (unit result \<times> u8 list \<times> drv) option) state" where
  "with_dev f g m = (case get_dev f g of None \<Rightarrow> State_Monad.return None | Some d \<Rightarrow> m d)"

text \<open>\<open>bufs fd\<close> is the memory of the dma-buf behind a file descriptor of the caller.\<close>

definition kbuf_ioctl :: "ioc \<Rightarrow> uaccess \<Rightarrow> (int \<Rightarrow> u8 list) \<Rightarrow> devref \<Rightarrow> u32 \<Rightarrow> ubuf \<Rightarrow> drv
    \<Rightarrow> (kst, (unit result \<times> u8 list \<times> drv) option) state" where
  "kbuf_ioctl c u bufs f cmd arg g =
     (if IOC_TYPE c cmd \<noteq> KBUF_IOC_MAGIC then State_Monad.return (Some (Inl ENOTTY, [], g))
      else if IOC_NR c cmd = 0 \<or> IOC_NR c cmd > KBUF_IOC_MAXNR
      then State_Monad.return (Some (Inl ENOTTY, [], g))
      else if cmd = KBUF_IOCGSTATS c then with_dev f g (\<lambda>d.
        let (r, out) = kbuf_ioc_getstats u d in State_Monad.return (Some (r, out, g)))
      else if cmd = KBUF_IOCRESET c then with_dev f g (\<lambda>d.
        let (r, d) = kbuf_ioc_reset d in State_Monad.return (Some (r, [], set_dev f d g)))
      else if cmd = KBUF_IOCRESIZE c then with_dev f g (\<lambda>d. do {
        (r, w, d) \<leftarrow> kbuf_ioc_resize u arg (\<lambda>d. d) d;
        State_Monad.return (Some (r, [],
          if isl r then set_dev f d g else dev_name f (set_dev f d g))) })
      else if cmd = KBUF_IOCSMODE c then with_dev f g (\<lambda>d.
        let (r, d) = kbuf_ioc_smode u arg d in State_Monad.return (Some (r, [], set_dev f d g)))
      else if cmd = KBUF_IOCEXPORT c then kbuf_ioc_export u f g
      else if cmd = KBUF_IOCIMPORT c then do {
        x \<leftarrow> kbuf_ioc_import u arg bufs;
        State_Monad.return (map_option (\<lambda>(r, buf). (r, [], g)) x) }
      else State_Monad.return (Some (Inl ENOTTY, [], g)))"

section \<open>The control device's commands\<close>

definition ctl_cmd_of :: "ioc \<Rightarrow> u32 \<Rightarrow> ctl_cmd" where
  "ctl_cmd_of c cmd =
     (if cmd = mk_IOR c KBUF_CTL_MAGIC 1 4 then KBUF_CTL_CREATE
      else if cmd = mk_IOW c KBUF_CTL_MAGIC 2 4 then KBUF_CTL_DESTROY
      else CTL_OTHER)"

section \<open>Dispatch\<close>

lemma cmd_nrs:
  assumes "ioc_ok c"
  shows "IOC_NR c (KBUF_IOCRESIZE c) = 1" "IOC_NR c (KBUF_IOCGSTATS c) = 2" "IOC_NR c (KBUF_IOCRESET c) = 3"
    "IOC_NR c (KBUF_IOCSMODE c) = 4" "IOC_NR c (KBUF_IOCEXPORT c) = 5" "IOC_NR c (KBUF_IOCIMPORT c) = 6"
    "IOC_TYPE c (KBUF_IOCRESIZE c) = KBUF_IOC_MAGIC" "IOC_TYPE c (KBUF_IOCGSTATS c) = KBUF_IOC_MAGIC"
    "IOC_TYPE c (KBUF_IOCRESET c) = KBUF_IOC_MAGIC" "IOC_TYPE c (KBUF_IOCSMODE c) = KBUF_IOC_MAGIC"
    "IOC_TYPE c (KBUF_IOCEXPORT c) = KBUF_IOC_MAGIC" "IOC_TYPE c (KBUF_IOCIMPORT c) = KBUF_IOC_MAGIC"
  using assms
  by (simp_all add: ioc_ok_def KBUF_IOCRESIZE_def KBUF_IOCGSTATS_def KBUF_IOCRESET_def KBUF_IOCSMODE_def
      KBUF_IOCEXPORT_def KBUF_IOCIMPORT_def KBUF_IOC_MAGIC_def)

definition kbuf_cmds :: "ioc \<Rightarrow> u32 list" where
  "kbuf_cmds c = [KBUF_IOCRESIZE c, KBUF_IOCGSTATS c, KBUF_IOCRESET c, KBUF_IOCSMODE c, KBUF_IOCEXPORT c,
     KBUF_IOCIMPORT c]"

lemma cmds_distinct:
  assumes "ioc_ok c"
  shows "distinct (kbuf_cmds c)"
proof -
  have "map (IOC_NR c) (kbuf_cmds c) = [1, 2, 3, 4, 5, 6]" by (simp add: kbuf_cmds_def cmd_nrs [OF assms])
  then have "distinct (map (IOC_NR c) (kbuf_cmds c))" by simp
  then show ?thesis by (simp only: distinct_map)
qed

lemma dispatch_to:
  assumes "ioc_ok c" "get_dev f g = Some d"
  shows "kbuf_ioctl c u bufs f (KBUF_IOCGSTATS c) arg g =
      State_Monad.return (Some (fst (kbuf_ioc_getstats u d), snd (kbuf_ioc_getstats u d), g))"
    and "kbuf_ioctl c u bufs f (KBUF_IOCRESET c) arg g =
      State_Monad.return (Some (fst (kbuf_ioc_reset d), [], set_dev f (snd (kbuf_ioc_reset d)) g))"
    and "kbuf_ioctl c u bufs f (KBUF_IOCRESIZE c) arg g = do {
      (r, w, d) \<leftarrow> kbuf_ioc_resize u arg (\<lambda>d. d) d;
      State_Monad.return (Some (r, [], if isl r then set_dev f d g else dev_name f (set_dev f d g))) }"
    and "kbuf_ioctl c u bufs f (KBUF_IOCSMODE c) arg g =
      State_Monad.return (Some (fst (kbuf_ioc_smode u arg d), [], set_dev f (snd (kbuf_ioc_smode u arg d)) g))"
    and "kbuf_ioctl c u bufs f (KBUF_IOCEXPORT c) arg g = kbuf_ioc_export u f g"
    and "kbuf_ioctl c u bufs f (KBUF_IOCIMPORT c) arg g = do {
      x \<leftarrow> kbuf_ioc_import u arg bufs;
      State_Monad.return (map_option (\<lambda>(r, buf). (r, [], g)) x) }"
    and "cmd \<notin> set (kbuf_cmds c) \<Longrightarrow>
      kbuf_ioctl c u bufs f cmd arg g = State_Monad.return (Some (Inl ENOTTY, [], g))"
  using cmds_distinct [OF assms(1)]
  by (auto simp: kbuf_ioctl_def cmd_nrs [OF assms(1)] kbuf_cmds_def KBUF_IOC_MAXNR_def with_dev_def assms(2)
      split_beta)

text \<open>
  C36: the ioctl switch is right. With any packing of command numbers that keeps the type and the
  number apart, the six commands are distinct, each passes the guards and reaches its own handler,
  and every other number is refused with ENOTTY before anything is touched.
\<close>

theorem ioctl_dispatch:
  assumes "ioc_ok c" "get_dev f g = Some d"
  shows "distinct (kbuf_cmds c) \<and>
    kbuf_ioctl c u bufs f (KBUF_IOCGSTATS c) arg g =
      State_Monad.return (Some (fst (kbuf_ioc_getstats u d), snd (kbuf_ioc_getstats u d), g)) \<and>
    kbuf_ioctl c u bufs f (KBUF_IOCRESET c) arg g =
      State_Monad.return (Some (fst (kbuf_ioc_reset d), [], set_dev f (snd (kbuf_ioc_reset d)) g)) \<and>
    kbuf_ioctl c u bufs f (KBUF_IOCRESIZE c) arg g = do {
      (r, w, d) \<leftarrow> kbuf_ioc_resize u arg (\<lambda>d. d) d;
      State_Monad.return (Some (r, [], if isl r then set_dev f d g else dev_name f (set_dev f d g))) } \<and>
    kbuf_ioctl c u bufs f (KBUF_IOCSMODE c) arg g =
      State_Monad.return (Some (fst (kbuf_ioc_smode u arg d), [], set_dev f (snd (kbuf_ioc_smode u arg d)) g)) \<and>
    kbuf_ioctl c u bufs f (KBUF_IOCEXPORT c) arg g = kbuf_ioc_export u f g \<and>
    kbuf_ioctl c u bufs f (KBUF_IOCIMPORT c) arg g = do {
      x \<leftarrow> kbuf_ioc_import u arg bufs;
      State_Monad.return (map_option (\<lambda>(r, buf). (r, [], g)) x) } \<and>
    (cmd \<notin> set (kbuf_cmds c) \<longrightarrow>
      kbuf_ioctl c u bufs f cmd arg g = State_Monad.return (Some (Inl ENOTTY, [], g)))"
  by (intro conjI impI cmds_distinct [OF assms(1)] dispatch_to [OF assms])

section \<open>Safety of every command\<close>

lemma dev_name_sys_ok [simp]: "sys_ok (dev_name f g) k F = sys_ok g k F"
  by (simp add: sys_ok_def sys_mem_def)

lemma with_dev_safe:
  assumes ok: "sys_ok g k F" and f: "f \<in> set (open_files g)" and c: "cmd_ok c"
    and d: "get_dev f g = Some d" and run: "run_state (cmd_step c d) k = (Some (tr, d'), k')"
  shows "sys_ok (set_dev f d' g) k' F"
proof -
  have "run_state (sys_step (Cmd f c) g) k = (Some (set_dev f d' g), k')" using f d run by simp
  from cmd_event_ok [OF ok c this] show ?thesis by simp
qed

lemma import_safe:
  assumes "sys_ok g k F" "\<forall>fd. 8 \<le> length (bufs fd)" "run_state (kbuf_ioc_import u arg bufs) k = (x, k')"
  shows "\<exists>y. x = Some y \<and> sys_ok g k' F"
proof -
  let ?fd = "sint (le_word (fst (copy_from_user u (replicate 4 0) (ubytes arg 4))) :: u32)"
  obtain y k1 where y: "run_state (kbuf_dmabuf_import_selftest (bufs ?fd)) k = (y, k1)" by fastforce
  have "held k1 = held k"
    using ktripleD [OF ktriple_import_selftest _ y] assms(1) by (simp add: sys_ok_def)
  moreover have "\<exists>z. y = Some z" using import_result [OF y] assms(2) by auto
  ultimately show ?thesis
    using assms(1,3) y by (auto simp: kbuf_ioc_import_def Let_def sys_ok_def split: prod.splits if_splits)
qed

definition safe_call :: "kst \<Rightarrow> kobj multiset \<Rightarrow> (kst, ('a \<times> 'b \<times> drv) option) state \<Rightarrow> bool" where
  "safe_call k F m \<longleftrightarrow> (\<forall>x k'. run_state m k = (x, k') \<longrightarrow>
     (\<exists>r out g'. x = Some (r, out, g') \<and> sys_ok g' k' F))"

lemma safe_call_return: "sys_ok g k F \<Longrightarrow> safe_call k F (State_Monad.return (Some (r, out, g)))"
  by (simp add: safe_call_def)

lemma safe_call_if: "safe_call k F m \<Longrightarrow> safe_call k F n \<Longrightarrow> safe_call k F (if b then m else n)"
  by simp


section \<open>The structures user space sees\<close>

text \<open>
  The structures that cross the system call boundary keep their meaning. The bytes of a
  statistics snapshot and of a resize request have the sizes the command numbers carry, hold no
  padding, and reading them back field by field gives the structure that was written.
\<close>

theorem abi_roundtrip:
  "length (stats_bytes st) = 64 \<and> stats_of_bytes (stats_bytes st) = st \<and>
   length (resize_bytes rq) = 8 \<and> resize_of_bytes (resize_bytes rq) = rq \<and>
   KBUF_IOCGSTATS c = mk_IOR c KBUF_IOC_MAGIC 2 (length (stats_bytes st)) \<and>
   KBUF_IOCRESIZE c = mk_IOW c KBUF_IOC_MAGIC 1 (length (resize_bytes rq))"
  by (simp add: stats_roundtrip resize_roundtrip KBUF_IOCGSTATS_def KBUF_IOCRESIZE_def
      stats_bytes_def [of st] resize_bytes_def [of rq] stats_of_bytes_def resize_of_bytes_def)

section \<open>Witnesses\<close>

text \<open>The packing most architectures use: direction, size, type and number from high to low bits.\<close>

definition pack :: "nat \<Rightarrow> nat \<Rightarrow> nat \<Rightarrow> nat \<Rightarrow> u32" where
  "pack dir t n s = of_nat (dir * 2 ^ 30 + s * 2 ^ 16 + t * 256 + n)"

definition demo_ioc :: ioc where
  "demo_ioc = \<lparr>IOC_TYPE = (\<lambda>w. unat w div 256 mod 256), IOC_NR = (\<lambda>w. unat w mod 256),
     mk_IO = (\<lambda>t n. pack 0 t n 0), mk_IOW = pack 1, mk_IOR = pack 2\<rparr>"

lemma unat_pack:
  assumes "dir \<le> 2" "t < 256" "n < 256" "s < 16384"
  shows "unat (pack dir t n s) = dir * 2 ^ 30 + s * 2 ^ 16 + t * 256 + n"
proof -
  have "dir * 2 ^ 30 + s * 2 ^ 16 + t * 256 + n < 2 ^ LENGTH(32)" using assms by simp
  then show ?thesis unfolding pack_def unat_of_nat by (rule mod_less)
qed

lemma demo_ioc_ok: "ioc_ok demo_ioc"
proof -
  have "unat (pack dir t n s) div 256 mod 256 = t \<and> unat (pack dir t n s) mod 256 = n"
    if "dir \<le> 2" "t < 256" "n < 256" "s < 16384" for dir t n s
  proof -
    define m where "m = t + 256 * (s + 16384 * dir)"
    have "unat (pack dir t n s) = n + 256 * m" using unat_pack [OF that] by (simp add: m_def)
    moreover have "m mod 256 = t" unfolding m_def mod_mult_self2 using that by simp
    ultimately show ?thesis using that by simp
  qed
  then show ?thesis by (simp add: ioc_ok_def demo_ioc_def)
qed

text \<open>One static device and one open file.\<close>

definition demo_drv1 :: drv where
  "demo_drv1 = demo_drv\<lparr>open_files := [Static 0]\<rparr>"

lemma demo_drv1_ok: "sys_ok demo_drv1 demo_sys_kst {#}"
proof -
  have "run_state (sys_step (Open 0) demo_drv) demo_sys_kst = (Some demo_drv1, demo_sys_kst)"
    by (simp add: kbuf_open_def dev_name_def demo_drv_def demo_drv1_def)
  from open_ok [OF demo_sys this] show ?thesis by simp
qed

theorem ioctl_dispatch_witness:
  "kbuf_ioctl demo_ioc good_user (\<lambda>_. []) (Static 0) 0 (\<lambda>_. 0) demo_drv1 =
     State_Monad.return (Some (Inl ENOTTY, [], demo_drv1)) \<and>
   kbuf_ioctl demo_ioc good_user (\<lambda>_. []) (Static 0) (KBUF_IOCRESET demo_ioc) (\<lambda>_. 0) demo_drv1 =
     State_Monad.return (Some (Inr (), [], set_dev (Static 0) (snd (kbuf_ioc_reset demo_dev)) demo_drv1))"
proof -
  have d: "get_dev (Static 0) demo_drv1 = Some demo_dev" by (simp add: get_dev_def demo_drv1_def demo_drv_def)
  have "IOC_TYPE demo_ioc 0 \<noteq> KBUF_IOC_MAGIC" by (simp add: demo_ioc_def KBUF_IOC_MAGIC_def)
  then have "0 \<notin> set (kbuf_cmds demo_ioc)"
    using cmd_nrs(7-12) [OF demo_ioc_ok] by (auto simp: kbuf_cmds_def)
  with ioctl_dispatch [OF demo_ioc_ok d, of good_user "\<lambda>_. []" "\<lambda>_. 0" 0] show ?thesis
    by (simp add: kbuf_ioc_reset_def)
qed


end
