(* ===== verification/Kbuf_Conc.thy ===== *)
theory Kbuf_Conc
  imports Kbuf_Ioctl
begin

text \<open>
  The lock-free mode with its producer and its consumer running at the same time. Each takes the
  atomic steps of \<open>kbuf_write_spsc\<close>/\<open>kbuf_spsc_produce\<close> and
  \<open>kbuf_read_spsc\<close>/\<open>kbuf_spsc_consume\<close> (src/kbuf_main.c, src/kbuf_ring.c): an
  acquire load of the other side's index, the copy byte by byte, the length, the release store of
  its own index, the counters. Any interleaving is possible, and an acquire load may return an old
  value of the other side's index, only never one older than it returned before.
\<close>

section \<open>The two threads\<close>

datatype producer = P_Idle | P_Copy "u8 list" nat | P_Filled "u8 list" | P_Published "u8 list"
datatype consumer = C_Idle | C_Copy nat nat "u8 list" | C_Published nat

text \<open>
  The shared device, the program counters, the values of the other side's index the two threads
  have seen last, the messages published and the data returned to the readers so far.
\<close>

record spsc_sys =
  sdev :: kbuf_dev
  ppc :: producer
  cpc :: consumer
  p_view :: u32
  c_view :: u32
  sent :: "u8 list list"
  got :: "(nat \<times> u8 list) list"

abbreviation pslot :: "kbuf_dev \<Rightarrow> nat" where
  "pslot d \<equiv> unat (prod_idx d AND (num_buffers d - 1))"

abbreviation cslot :: "kbuf_dev \<Rightarrow> nat" where
  "cslot d \<equiv> unat (cons_idx d AND (num_buffers d - 1))"

definition put_slot :: "nat \<Rightarrow> kbuf_slot \<Rightarrow> kbuf_dev \<Rightarrow> kbuf_dev" where
  "put_slot i s d = d\<lparr>slots := (slots d)[i := s]\<rparr>"

section \<open>Steps\<close>

inductive spsc_step :: "spsc_sys \<Rightarrow> spsc_sys \<Rightarrow> bool" where
  p_full: "\<lbrakk>ppc s = P_Idle; d = sdev s; may_load (p_view s) (cons_idx d) v;
      prod_idx d - v \<ge> num_buffers d\<rbrakk>
    \<Longrightarrow> spsc_step s (s\<lparr>p_view := v\<rparr>)"
| p_start: "\<lbrakk>ppc s = P_Idle; d = sdev s; may_load (p_view s) (cons_idx d) v;
      \<not> prod_idx d - v \<ge> num_buffers d; m = ubytes ub (min cnt (unat (buffer_size d)))\<rbrakk>
    \<Longrightarrow> spsc_step s (s\<lparr>p_view := v, ppc := P_Copy m 0\<rparr>)"
| p_copy: "\<lbrakk>ppc s = P_Copy m i; i < length m; d = sdev s; slot = slots d ! pslot d\<rbrakk>
    \<Longrightarrow> spsc_step s (s\<lparr>sdev := put_slot (pslot d) (slot\<lparr>bytes := (bytes slot)[i := m ! i]\<rparr>) d,
          ppc := P_Copy m (Suc i)\<rparr>)"
| p_fault: "ppc s = P_Copy m i \<Longrightarrow> spsc_step s (s\<lparr>ppc := P_Idle\<rparr>)"
| p_len: "\<lbrakk>ppc s = P_Copy m (length m); d = sdev s; slot = slots d ! pslot d\<rbrakk>
    \<Longrightarrow> spsc_step s (s\<lparr>sdev := put_slot (pslot d) (slot\<lparr>len := length m\<rparr>) d, ppc := P_Filled m\<rparr>)"
| p_publish: "\<lbrakk>ppc s = P_Filled m; d = sdev s\<rbrakk>
    \<Longrightarrow> spsc_step s (s\<lparr>sdev := d\<lparr>prod_idx := prod_idx d + 1\<rparr>, ppc := P_Published m,
          sent := sent s @ [m]\<rparr>)"
| p_stats: "\<lbrakk>ppc s = P_Published m; d = sdev s; may_load (p_view s) (cons_idx d) v; occ = prod_idx d - v\<rbrakk>
    \<Longrightarrow> spsc_step s (s\<lparr>sdev := d\<lparr>
            bytes_produced := bytes_produced d + of_nat (length m),
            msgs_produced := msgs_produced d + 1,
            peak_count := (if peak_count d < occ then occ else peak_count d)\<rparr>,
          ppc := P_Idle, p_view := v\<rparr>)"
| c_empty: "\<lbrakk>cpc s = C_Idle; d = sdev s; may_load (c_view s) (prod_idx d) v; v = cons_idx d\<rbrakk>
    \<Longrightarrow> spsc_step s (s\<lparr>c_view := v\<rparr>)"
| c_start: "\<lbrakk>cpc s = C_Idle; d = sdev s; may_load (c_view s) (prod_idx d) v; v \<noteq> cons_idx d;
      n = min cnt (len (slots d ! cslot d))\<rbrakk>
    \<Longrightarrow> spsc_step s (s\<lparr>c_view := v, cpc := C_Copy cnt n []\<rparr>)"
| c_copy: "\<lbrakk>cpc s = C_Copy cnt n acc; length acc < n; d = sdev s; slot = slots d ! cslot d\<rbrakk>
    \<Longrightarrow> spsc_step s (s\<lparr>cpc := C_Copy cnt n (acc @ [bytes slot ! length acc])\<rparr>)"
| c_fault: "cpc s = C_Copy cnt n acc \<Longrightarrow> spsc_step s (s\<lparr>cpc := C_Idle\<rparr>)"
| c_publish: "\<lbrakk>cpc s = C_Copy cnt n acc; length acc = n; d = sdev s\<rbrakk>
    \<Longrightarrow> spsc_step s (s\<lparr>sdev := d\<lparr>cons_idx := cons_idx d + 1\<rparr>, cpc := C_Published n,
          got := got s @ [(cnt, acc)]\<rparr>)"
| c_stats: "\<lbrakk>cpc s = C_Published n; d = sdev s\<rbrakk>
    \<Longrightarrow> spsc_step s (s\<lparr>sdev := d\<lparr>bytes_consumed := bytes_consumed d + of_nat n,
            msgs_consumed := msgs_consumed d + 1\<rparr>, cpc := C_Idle\<rparr>)"

inductive_cases spsc_stepE: "spsc_step s s'"

section \<open>The invariant\<close>

text \<open>The slot the producer owns while it writes, and the one the consumer owns while it reads.\<close>

definition producer_ok :: "spsc_sys \<Rightarrow> bool" where
  "producer_ok s \<longleftrightarrow> (let d = sdev s; slot = slots d ! pslot d;
     room = (unat (prod_idx d - p_view s) < unat (num_buffers d)) in
     case ppc s of
       P_Idle \<Rightarrow> True
     | P_Copy m i \<Rightarrow> room \<and> i \<le> length m \<and> length m \<le> unat (buffer_size d) \<and> take i (bytes slot) = take i m
     | P_Filled m \<Rightarrow> room \<and> msg slot = m
     | P_Published m \<Rightarrow> True)"

definition consumer_ok :: "spsc_sys \<Rightarrow> bool" where
  "consumer_ok s \<longleftrightarrow> (let d = sdev s; slot = slots d ! cslot d in
     case cpc s of
       C_Idle \<Rightarrow> True
     | C_Copy cnt n acc \<Rightarrow> c_view s \<noteq> cons_idx d \<and> n = min cnt (len slot) \<and> length acc \<le> n \<and>
         acc = take (length acc) (bytes slot)
     | C_Published n \<Rightarrow> True)"

definition views_ok :: "spsc_sys \<Rightarrow> bool" where
  "views_ok s \<longleftrightarrow> (let d = sdev s in
     unat (cons_idx d - p_view s) + unat (prod_idx d - cons_idx d) = unat (prod_idx d - p_view s) \<and>
     unat (prod_idx d - p_view s) \<le> unat (num_buffers d) \<and>
     unat (c_view s - cons_idx d) + unat (prod_idx d - c_view s) = unat (prod_idx d - cons_idx d))"

definition stream_ok :: "u8 list list \<Rightarrow> spsc_sys \<Rightarrow> bool" where
  "stream_ok q s \<longleftrightarrow> (\<exists>gone. q @ sent s = gone @ spsc_msgs (sdev s) \<and>
     list_all2 (\<lambda>(cnt, out) m. out = take cnt m) (got s) gone)"

definition spsc_inv :: "u8 list list \<Rightarrow> spsc_sys \<Rightarrow> bool" where
  "spsc_inv q s \<longleftrightarrow> spsc_ok (sdev s) \<and> views_ok s \<and> producer_ok s \<and> consumer_ok s \<and> stream_ok q s"

lemma inv_frame [simp]:
  "consumer_ok (s\<lparr>p_view := v\<rparr>) = consumer_ok s" "consumer_ok (s\<lparr>ppc := x\<rparr>) = consumer_ok s"
  "producer_ok (s\<lparr>c_view := v\<rparr>) = producer_ok s" "producer_ok (s\<lparr>cpc := y\<rparr>) = producer_ok s"
  "views_ok (s\<lparr>ppc := x\<rparr>) = views_ok s" "views_ok (s\<lparr>cpc := y\<rparr>) = views_ok s"
  "stream_ok q (s\<lparr>p_view := v\<rparr>) = stream_ok q s" "stream_ok q (s\<lparr>c_view := v\<rparr>) = stream_ok q s"
  "stream_ok q (s\<lparr>ppc := x\<rparr>) = stream_ok q s" "stream_ok q (s\<lparr>cpc := y\<rparr>) = stream_ok q s"
  by (simp_all add: producer_ok_def consumer_ok_def views_ok_def stream_ok_def split: producer.split consumer.split)

section \<open>The two slots are different\<close>

lemma slots_differ:
  assumes "spsc_ok d" "unat (prod_idx d - cons_idx d) < unat (num_buffers d)" "prod_idx d \<noteq> cons_idx d"
  shows "pslot d \<noteq> cslot d"
proof
  assume "pslot d = cslot d"
  moreover have g: "geom_ok d" using assms(1) by (simp add: spsc_ok_def)
  ultimately have "(unat (cons_idx d) + unat (prod_idx d - cons_idx d)) mod length (slots d) =
      (unat (cons_idx d) + 0) mod length (slots d)"
    using spsc_index(1) [OF assms(1)] spsc_prod_slot [OF assms(1)] by simp
  then have "unat (prod_idx d - cons_idx d) = 0"
    using mod_add_cong_less [of "unat (cons_idx d)" "unat (prod_idx d - cons_idx d)" "length (slots d)" 0]
      assms(2) length_slots [OF g] by simp
  with assms(3) show False by (simp add: unat_eq_0)
qed

lemma inv_room:
  assumes "views_ok s" "unat (prod_idx (sdev s) - p_view s) < unat (num_buffers (sdev s))"
  shows "unat (prod_idx (sdev s) - cons_idx (sdev s)) < unat (num_buffers (sdev s))"
  using assms by (simp add: views_ok_def Let_def)

lemma inv_nonempty:
  assumes "views_ok s" "c_view s \<noteq> cons_idx (sdev s)"
  shows "prod_idx (sdev s) \<noteq> cons_idx (sdev s)"
proof
  assume "prod_idx (sdev s) = cons_idx (sdev s)"
  with assms(1) have "unat (c_view s - cons_idx (sdev s)) = 0" by (simp add: views_ok_def Let_def)
  with assms(2) show False by (simp add: unat_eq_0)
qed

lemma pslot_ok:
  assumes "spsc_ok d"
  shows "pslot d < length (slots d)" "data (slots d ! pslot d) \<noteq> 0"
    "length (bytes (slots d ! pslot d)) = unat (buffer_size d)" "len (slots d ! pslot d) \<le> unat (buffer_size d)"
proof -
  have g: "geom_ok d" using assms by (simp add: spsc_ok_def)
  show 1: "pslot d < length (slots d)" by (rule spsc_index(2) [OF assms])
  show "data (slots d ! pslot d) \<noteq> 0"
    "length (bytes (slots d ! pslot d)) = unat (buffer_size d)" "len (slots d ! pslot d) \<le> unat (buffer_size d)"
    using g 1 slots_ok_nth length_slots [OF g] by (auto simp: geom_ok_def)
qed

section \<open>Steps keep the invariant\<close>

text \<open>The producer writes its slot: nobody else sees it.\<close>

lemma put_slot_inv:
  assumes inv: "spsc_inv q s" and room: "unat (prod_idx (sdev s) - p_view s) < unat (num_buffers (sdev s))"
    and x: "data x \<noteq> 0" "length (bytes x) = unat (buffer_size (sdev s))" "len x \<le> unat (buffer_size (sdev s))"
    and s': "s' = s\<lparr>sdev := put_slot (pslot (sdev s)) x (sdev s), ppc := pc\<rparr>" and pc: "producer_ok s'"
  shows "spsc_inv q s'"
proof -
  let ?d = "sdev s" and ?d' = "put_slot (pslot (sdev s)) x (sdev s)"
  have i: "spsc_ok ?d" "views_ok s" "consumer_ok s" "stream_ok q s" using inv by (auto simp: spsc_inv_def)
  have r: "unat (prod_idx ?d - cons_idx ?d) < unat (num_buffers ?d)" by (rule inv_room [OF i(2) room])
  note sc = spsc_scribble [OF i(1) r x refl, folded put_slot_def]
  have same: "prod_idx ?d' = prod_idx ?d" "cons_idx ?d' = cons_idx ?d" "num_buffers ?d' = num_buffers ?d"
    by (simp_all add: put_slot_def)
  have "slots ?d' ! cslot ?d' = slots ?d ! cslot ?d" if "c_view s \<noteq> cons_idx ?d"
    using slots_differ [OF i(1) r inv_nonempty [OF i(2) that]] by (simp add: put_slot_def)
  then have "consumer_ok s'"
    using i(3) by (auto simp: s' consumer_ok_def Let_def same split: consumer.splits)
  moreover have "views_ok s'" using i(2) by (simp add: s' views_ok_def Let_def same)
  moreover have "stream_ok q s'" using i(4) sc(2) by (simp add: s' stream_ok_def)
  ultimately show ?thesis using sc(1) pc by (simp add: spsc_inv_def s')
qed

lemma p_copy_inv:
  assumes inv: "spsc_inv q s" and pc: "ppc s = P_Copy m i" "i < length m"
    and s': "s' = s\<lparr>sdev := put_slot (pslot (sdev s)) ((slots (sdev s) ! pslot (sdev s))\<lparr>bytes :=
      (bytes (slots (sdev s) ! pslot (sdev s)))[i := m ! i]\<rparr>) (sdev s), ppc := P_Copy m (Suc i)\<rparr>"
  shows "spsc_inv q s'"
proof -
  let ?d = "sdev s"
  have ok: "spsc_ok ?d" and p: "producer_ok s" using inv by (auto simp: spsc_inv_def)
  note ps = pslot_ok [OF ok]
  from p pc have room: "unat (prod_idx ?d - p_view s) < unat (num_buffers ?d)"
    and m: "length m \<le> unat (buffer_size ?d)" "take i (bytes (slots ?d ! pslot ?d)) = take i m"
    by (auto simp: producer_ok_def Let_def)
  have "take (Suc i) ((bytes (slots ?d ! pslot ?d))[i := m ! i]) = take (Suc i) m"
    using m pc(2) ps(3) by (simp add: take_Suc_conv_app_nth)
  then have "producer_ok s'"
    using room m(1) pc(2) ps(1) by (simp add: producer_ok_def Let_def s' put_slot_def)
  then show ?thesis
    by (rule put_slot_inv [OF inv room _ _ _ s', rotated 3]) (use ps in simp_all)
qed

lemma p_len_inv:
  assumes inv: "spsc_inv q s" and pc: "ppc s = P_Copy m (length m)"
    and s': "s' = s\<lparr>sdev := put_slot (pslot (sdev s)) ((slots (sdev s) ! pslot (sdev s))\<lparr>len := length m\<rparr>) (sdev s),
      ppc := P_Filled m\<rparr>"
  shows "spsc_inv q s'"
proof -
  let ?d = "sdev s"
  have ok: "spsc_ok ?d" and p: "producer_ok s" using inv by (auto simp: spsc_inv_def)
  note ps = pslot_ok [OF ok]
  from p pc have room: "unat (prod_idx ?d - p_view s) < unat (num_buffers ?d)"
    and m: "length m \<le> unat (buffer_size ?d)" "take (length m) (bytes (slots ?d ! pslot ?d)) = m"
    by (auto simp: producer_ok_def Let_def)
  then have "producer_ok s'"
    using ps(1) by (simp add: producer_ok_def Let_def s' put_slot_def msg_def)
  then show ?thesis
    by (rule put_slot_inv [OF inv room _ _ _ s', rotated 3]) (use ps m in simp_all)
qed

lemma p_publish_dev:
  assumes "spsc_ok d" "unat (prod_idx d - cons_idx d) < unat (num_buffers d)"
  shows "spsc_ok (d\<lparr>prod_idx := prod_idx d + 1\<rparr>)"
    "spsc_msgs (d\<lparr>prod_idx := prod_idx d + 1\<rparr>) = spsc_msgs d @ [msg (slots d ! pslot d)]"
proof -
  let ?s = "slots d ! pslot d"
  let ?e = "d\<lparr>slots := (slots d)[pslot d := ?s], prod_idx := prod_idx d + 1, bytes_produced := 0,
    msgs_produced := 0, peak_count := (if peak_count d < prod_idx d + 1 - cons_idx d
      then prod_idx d + 1 - cons_idx d else peak_count d)\<rparr>"
  note app = spsc_append [OF assms pslot_ok(2-4) [OF assms(1)] refl, of 0 0]
  then show "spsc_ok (d\<lparr>prod_idx := prod_idx d + 1\<rparr>)"
    using assms(1) by (auto simp: spsc_ok_def geom_ok_def)
  have "spsc_msgs (d\<lparr>prod_idx := prod_idx d + 1\<rparr>) = spsc_msgs ?e"
    by (simp add: spsc_msgs_def)
  with app(2) show "spsc_msgs (d\<lparr>prod_idx := prod_idx d + 1\<rparr>) = spsc_msgs d @ [msg ?s]" by simp
qed

lemma p_publish_inv:
  assumes inv: "spsc_inv q s" and pc: "ppc s = P_Filled m"
    and s': "s' = s\<lparr>sdev := sdev s\<lparr>prod_idx := prod_idx (sdev s) + 1\<rparr>, ppc := P_Published m, sent := sent s @ [m]\<rparr>"
  shows "spsc_inv q s'"
proof -
  let ?d = "sdev s"
  have i: "spsc_ok ?d" "views_ok s" "consumer_ok s" "stream_ok q s" "producer_ok s"
    using inv by (auto simp: spsc_inv_def)
  from i(5) pc have room: "unat (prod_idx ?d - p_view s) < unat (num_buffers ?d)"
    and m: "msg (slots ?d ! pslot ?d) = m" by (auto simp: producer_ok_def Let_def)
  have r: "unat (prod_idx ?d - cons_idx ?d) < unat (num_buffers ?d)" by (rule inv_room [OF i(2) room])
  note pub = p_publish_dev [OF i(1) r]
  have n: "unat (num_buffers ?d) \<le> 256" using i(1) by (simp add: spsc_ok_def geom_ok_def)
  have v: "unat (cons_idx ?d - p_view s) + unat (prod_idx ?d - cons_idx ?d) = unat (prod_idx ?d - p_view s)"
    "unat (c_view s - cons_idx ?d) + unat (prod_idx ?d - c_view s) = unat (prod_idx ?d - cons_idx ?d)"
    using i(2) by (simp_all add: views_ok_def Let_def)
  have "unat (prod_idx ?d + 1 - x) = Suc (unat (prod_idx ?d - x))"
    if "unat (prod_idx ?d - x) \<le> unat (prod_idx ?d - p_view s)" for x
    using that room n by (intro unat_diff_Suc) simp
  with v room have "views_ok s'" by (simp add: views_ok_def Let_def s')
  moreover have "stream_ok q s'" using i(4) pub(2) m by (auto simp: stream_ok_def s')
  moreover have "consumer_ok s'" using i(3) by (simp add: consumer_ok_def Let_def s' split: consumer.splits)
  ultimately show ?thesis using pub(1) by (simp add: spsc_inv_def s' producer_ok_def Let_def)
qed

lemma c_publish_inv:
  assumes inv: "spsc_inv q s" and pc: "cpc s = C_Copy cnt n acc" "length acc = n"
    and s': "s' = s\<lparr>sdev := sdev s\<lparr>cons_idx := cons_idx (sdev s) + 1\<rparr>, cpc := C_Published n,
      got := got s @ [(cnt, acc)]\<rparr>"
  shows "spsc_inv q s'"
proof -
  let ?d = "sdev s" and ?d' = "sdev s\<lparr>cons_idx := cons_idx (sdev s) + 1\<rparr>"
  have i: "spsc_ok ?d" "views_ok s" "consumer_ok s" "stream_ok q s" "producer_ok s"
    using inv by (auto simp: spsc_inv_def)
  let ?slot = "slots ?d ! cslot ?d"
  from i(3) pc have c: "c_view s \<noteq> cons_idx ?d" "n = min cnt (len ?slot)" "acc = take n (bytes ?slot)"
    by (auto simp: consumer_ok_def Let_def)
  note ne = inv_nonempty [OF i(2) c(1)]
  then obtain m ms where qm: "spsc_msgs ?d = m # ms"
    by (cases "spsc_msgs ?d") (auto simp: spsc_is_empty_iff [symmetric] kbuf_spsc_is_empty_def)
  note old = spsc_oldest [OF i(1) qm] and adv = spsc_advance [OF i(1) ne refl, of 0 0]
  have ok: "spsc_ok ?d'" using adv(1) by (simp add: spsc_ok_def geom_ok_def)
  have "spsc_msgs ?d' = spsc_msgs (?d\<lparr>cons_idx := cons_idx ?d + 1, bytes_consumed := 0, msgs_consumed := 0\<rparr>)"
    by (simp add: spsc_msgs_def)
  with adv(2) old(6) have ms: "spsc_msgs ?d' = ms" by simp
  have "acc = take cnt m" using c(2,3) old(4) by (simp add: msg_def)
  from i(4) obtain gone where "q @ sent s = gone @ spsc_msgs ?d"
    "list_all2 (\<lambda>(cnt, out) m. out = take cnt m) (got s) gone" by (auto simp: stream_ok_def)
  then have "q @ sent s' = (gone @ [m]) @ spsc_msgs (sdev s')"
    "list_all2 (\<lambda>(cnt, out) m. out = take cnt m) (got s') (gone @ [m])"
    using qm ms \<open>acc = take cnt m\<close> by (auto simp: s' intro: list_all2_appendI)
  then have "stream_ok q s'" unfolding stream_ok_def by blast
  moreover have "views_ok s'"
  proof -
    have v: "unat (cons_idx ?d - p_view s) + unat (prod_idx ?d - cons_idx ?d) = unat (prod_idx ?d - p_view s)"
      "unat (prod_idx ?d - p_view s) \<le> unat (num_buffers ?d)"
      "unat (c_view s - cons_idx ?d) + unat (prod_idx ?d - c_view s) = unat (prod_idx ?d - cons_idx ?d)"
      using i(2) by (simp_all add: views_ok_def Let_def)
    have "unat (num_buffers ?d) \<le> 256" using i(1) by (simp add: spsc_ok_def geom_ok_def)
    with v have "unat (cons_idx ?d + 1 - p_view s) = Suc (unat (cons_idx ?d - p_view s))"
      by (intro unat_diff_Suc) simp
    moreover note unat_diff_pred [OF ne] unat_diff_pred [OF c(1)]
    moreover have "unat (prod_idx ?d - cons_idx ?d) \<noteq> 0" "unat (c_view s - cons_idx ?d) \<noteq> 0"
      using ne c(1) by (simp_all add: unat_eq_0)
    ultimately show ?thesis using v by (simp add: views_ok_def Let_def s')
  qed
  moreover have "producer_ok s'" using i(5) by (simp add: producer_ok_def Let_def s' split: producer.splits)
  ultimately show ?thesis using ok by (simp add: spsc_inv_def s' consumer_ok_def Let_def)
qed

lemma load_view_inv:
  assumes inv: "spsc_inv q s" and v: "may_load (p_view s) (cons_idx (sdev s)) v"
  shows "spsc_inv q (s\<lparr>p_view := v\<rparr>)"
    "unat (prod_idx (sdev s) - v) \<le> unat (prod_idx (sdev s) - p_view s)"
proof -
  let ?d = "sdev s"
  have i: "views_ok s" "producer_ok s" using inv by (auto simp: spsc_inv_def)
  then have old: "unat (cons_idx ?d - p_view s) + unat (prod_idx ?d - cons_idx ?d) = unat (prod_idx ?d - p_view s)"
    by (simp add: views_ok_def Let_def)
  note l = load_cons [OF old v]
  show "unat (prod_idx ?d - v) \<le> unat (prod_idx ?d - p_view s)" by (rule l(2))
  have "views_ok (s\<lparr>p_view := v\<rparr>)" using i(1) l by (simp add: views_ok_def Let_def)
  moreover have "producer_ok (s\<lparr>p_view := v\<rparr>)"
    using i(2) l(2) by (auto simp: producer_ok_def Let_def split: producer.splits)
  ultimately show "spsc_inv q (s\<lparr>p_view := v\<rparr>)" using inv by (simp add: spsc_inv_def)
qed

lemma c_load_inv:
  assumes inv: "spsc_inv q s" and v: "may_load (c_view s) (prod_idx (sdev s)) v" "cpc s = C_Idle"
  shows "spsc_inv q (s\<lparr>c_view := v\<rparr>)"
proof -
  have "views_ok (s\<lparr>c_view := v\<rparr>)"
    using inv load_prod [OF _ v(1), of "cons_idx (sdev s)"] by (simp add: spsc_inv_def views_ok_def Let_def)
  then show ?thesis using inv v(2) by (simp add: spsc_inv_def consumer_ok_def)
qed

lemma p_stats_inv:
  assumes inv: "spsc_inv q s" and pc: "ppc s = P_Published m"
    and v: "may_load (p_view s) (cons_idx (sdev s)) v"
  shows "spsc_inv q (s\<lparr>sdev := sdev s\<lparr>bytes_produced := b, msgs_produced := c,
      peak_count := (if peak_count (sdev s) < prod_idx (sdev s) - v then prod_idx (sdev s) - v
        else peak_count (sdev s))\<rparr>, ppc := P_Idle, p_view := v\<rparr>)" (is "spsc_inv q ?s'")
proof -
  let ?d = "sdev s"
  note l = load_view_inv [OF inv v]
  have i: "spsc_ok ?d" "views_ok s" "consumer_ok s" using inv by (auto simp: spsc_inv_def)
  have "unat (prod_idx ?d - v) \<le> unat (num_buffers ?d)"
    using l(2) i(2) by (simp add: views_ok_def Let_def)
  then have "spsc_ok (sdev ?s')" using i(1) by (auto simp: spsc_ok_def geom_ok_def)
  moreover have "views_ok ?s'" using l(1) by (simp add: spsc_inv_def views_ok_def Let_def)
  moreover have "stream_ok q ?s'" using inv by (simp add: spsc_inv_def stream_ok_def spsc_msgs_def)
  moreover have "consumer_ok ?s'" using i(3) by (simp add: consumer_ok_def Let_def split: consumer.splits)
  ultimately show ?thesis by (simp add: spsc_inv_def producer_ok_def Let_def)
qed

lemma c_copy_inv:
  assumes inv: "spsc_inv q s" and pc: "cpc s = C_Copy cnt n acc" "length acc < n"
  shows "spsc_inv q (s\<lparr>cpc := C_Copy cnt n (acc @ [bytes (slots (sdev s) ! cslot (sdev s)) ! length acc])\<rparr>)"
    (is "spsc_inv q ?s'")
proof -
  let ?d = "sdev s"
  let ?slot = "slots ?d ! cslot ?d"
  have ok: "spsc_ok ?d" and c: "consumer_ok s" using inv by (auto simp: spsc_inv_def)
  have g: "geom_ok ?d" using ok by (simp add: spsc_ok_def)
  have "len ?slot \<le> length (bytes ?slot)"
    using spsc_index(2) [OF ok, of "cons_idx ?d"] g length_slots [OF g]
      slots_ok_nth [of "unat (num_buffers ?d)" "unat (buffer_size ?d)" "slots ?d" "cslot ?d"]
    by (simp add: geom_ok_def)
  moreover from c pc have "n = min cnt (len ?slot)" "acc = take (length acc) (bytes ?slot)"
    by (auto simp: consumer_ok_def Let_def)
  ultimately have a: "acc @ [bytes ?slot ! length acc] = take (Suc (length acc)) (bytes ?slot)"
    using pc(2) by (simp add: take_Suc_conv_app_nth)
  define acc' where "acc' = acc @ [bytes ?slot ! length acc]"
  have "length acc' = Suc (length acc)" by (simp add: acc'_def)
  with a have "acc' = take (length acc') (bytes ?slot)" "length acc' \<le> n"
    using pc(2) by (simp_all add: acc'_def)
  then have "consumer_ok ?s'" using c pc(1) unfolding acc'_def [symmetric] by (simp add: consumer_ok_def Let_def)
  then show ?thesis using inv by (simp add: spsc_inv_def)
qed

lemma spsc_step_inv: "spsc_step s s' \<Longrightarrow> spsc_inv q s \<Longrightarrow> spsc_inv q s'"
proof (induction rule: spsc_step.induct)
  case (p_full s d v)
  then show ?case using load_view_inv(1) by simp
next
  case (p_start s d v m ub cnt)
  then have "spsc_inv q (s\<lparr>p_view := v\<rparr>)" using load_view_inv(1) by simp
  with p_start show ?case
    by (simp add: spsc_inv_def) (simp add: producer_ok_def Let_def word_le_nat_alt not_le)
next
  case (p_copy s m i d slot)
  then show ?case using p_copy_inv [of q s m i] by simp
next
  case (p_fault s m i)
  then show ?case by (simp add: spsc_inv_def) (simp add: producer_ok_def)
next
  case (p_len s m d slot)
  then show ?case using p_len_inv [of q s m] by simp
next
  case (p_publish s m d)
  then show ?case using p_publish_inv [of q s m] by simp
next
  case (p_stats s m d v occ)
  then show ?case unfolding p_stats(2,4) by (intro p_stats_inv) simp_all
next
  case (c_empty s d v)
  then show ?case using c_load_inv by simp
next
  case (c_start s d v n cnt)
  then have "spsc_inv q (s\<lparr>c_view := v\<rparr>)" using c_load_inv by simp
  with c_start show ?case
    by (simp add: spsc_inv_def) (simp add: consumer_ok_def Let_def)
next
  case (c_copy s cnt n acc d slot)
  then show ?case using c_copy_inv [of q s cnt n acc] by simp
next
  case (c_fault s cnt n acc)
  then show ?case by (simp add: spsc_inv_def) (simp add: consumer_ok_def)
next
  case (c_publish s cnt n acc d)
  then show ?case using c_publish_inv [of q s cnt n acc] by simp
next
  case (c_stats s n d)
  then show ?case
    by (simp add: spsc_inv_def producer_ok_def consumer_ok_def views_ok_def stream_ok_def Let_def
        spsc_ok_def geom_ok_def spsc_msgs_def split: producer.splits)
qed

lemma spsc_steps_inv: "spsc_step\<^sup>*\<^sup>* s s' \<Longrightarrow> spsc_inv q s \<Longrightarrow> spsc_inv q s'"
  by (induction rule: rtranclp_induct) (auto intro: spsc_step_inv)

definition spsc_start :: "kbuf_dev \<Rightarrow> spsc_sys" where
  "spsc_start d = \<lparr>sdev = d, ppc = P_Idle, cpc = C_Idle, p_view = cons_idx d, c_view = prod_idx d,
     sent = [], got = []\<rparr>"

lemma spsc_start_inv: "spsc_ok d \<Longrightarrow> spsc_inv (spsc_msgs d) (spsc_start d)"
  by (simp add: spsc_inv_def spsc_start_def producer_ok_def consumer_ok_def views_ok_def stream_ok_def
      spsc_ok_def)

section \<open>Properties\<close>

text \<open>
  C3: the lock-free ring is correct under concurrency. However the steps of one producer and one
  consumer interleave, with indices observed late and copies that may fault half way, the ring
  stays well formed, and the data returned to readers is, in order and exactly once, the messages
  published: a message is never seen half written, overwritten while being read, lost or doubled.
\<close>

theorem spsc_concurrent_fifo:
  assumes "spsc_ok d" "spsc_step\<^sup>*\<^sup>* (spsc_start d) s"
  shows "spsc_ok (sdev s) \<and> (\<exists>gone. spsc_msgs d @ sent s = gone @ spsc_msgs (sdev s) \<and>
    list_all2 (\<lambda>(cnt, out) m. out = take cnt m) (got s) gone)"
  using spsc_steps_inv [OF assms(2) spsc_start_inv [OF assms(1)]]
  by (simp add: spsc_inv_def stream_ok_def)

definition writing :: "spsc_sys \<Rightarrow> bool" where
  "writing s \<longleftrightarrow> (case ppc s of P_Copy m i \<Rightarrow> True | P_Filled m \<Rightarrow> True | _ \<Rightarrow> False)"

definition reading :: "spsc_sys \<Rightarrow> bool" where
  "reading s \<longleftrightarrow> (case cpc s of C_Copy cnt n acc \<Rightarrow> True | _ \<Rightarrow> False)"

text \<open>
  C17: there is no data race. In every state the two threads can reach, while the producer writes a
  slot and the consumer reads one, the two slots are different, and both are inside the array.
\<close>

theorem spsc_no_race:
  assumes "spsc_ok d" "spsc_step\<^sup>*\<^sup>* (spsc_start d) s" "writing s" "reading s"
  shows "pslot (sdev s) \<noteq> cslot (sdev s) \<and> pslot (sdev s) < length (slots (sdev s)) \<and>
    cslot (sdev s) < length (slots (sdev s))"
proof -
  have i: "spsc_ok (sdev s)" "views_ok s" "producer_ok s" "consumer_ok s"
    using spsc_steps_inv [OF assms(2) spsc_start_inv [OF assms(1)]] by (auto simp: spsc_inv_def)
  have "unat (prod_idx (sdev s) - p_view s) < unat (num_buffers (sdev s))"
    using i(3) assms(3) by (auto simp: producer_ok_def writing_def Let_def split: producer.splits)
  note r = inv_room [OF i(2) this]
  have "c_view s \<noteq> cons_idx (sdev s)"
    using i(4) assms(4) by (auto simp: consumer_ok_def reading_def Let_def split: consumer.splits)
  from slots_differ [OF i(1) r inv_nonempty [OF i(2) this]] spsc_index(2) [OF i(1)] show ?thesis by blast
qed

section \<open>One thread alone\<close>

lemma steps_start: "spsc_step a b \<Longrightarrow> spsc_step\<^sup>*\<^sup>* b c \<Longrightarrow> spsc_step\<^sup>*\<^sup>* a c"
  by (rule converse_rtranclp_into_rtranclp)

lemma steps_trans: "spsc_step\<^sup>*\<^sup>* a b \<Longrightarrow> spsc_step\<^sup>*\<^sup>* b c \<Longrightarrow> spsc_step\<^sup>*\<^sup>* a c"
  by (rule rtranclp_trans)

lemma steps_one: "spsc_step a b \<Longrightarrow> spsc_step\<^sup>*\<^sup>* a b"
  by (rule r_into_rtranclp)

lemma pc_self: "ppc s = x \<Longrightarrow> s\<lparr>ppc := x\<rparr> = s" "cpc s = y \<Longrightarrow> s\<lparr>cpc := y\<rparr> = s"
  by (cases s, simp)+

text \<open>The state when the first \<open>i\<close> bytes of the message and then the rest have been copied.\<close>

definition copied :: "spsc_sys \<Rightarrow> u8 list \<Rightarrow> nat \<Rightarrow> spsc_sys" where
  "copied s m i = (let d = sdev s; slot = slots d ! pslot d in
     s\<lparr>sdev := put_slot (pslot d) (slot\<lparr>bytes := take i (bytes slot) @ drop i m @ drop (length m) (bytes slot)\<rparr>) d,
       ppc := P_Copy m (length m)\<rparr>)"

lemma copy_steps:
  assumes "ppc s = P_Copy m i" "i \<le> length m" "pslot (sdev s) < length (slots (sdev s))"
    and "length m \<le> length (bytes (slots (sdev s) ! pslot (sdev s)))"
  shows "spsc_step\<^sup>*\<^sup>* s (copied s m i)"
  using assms
proof (induction "length m - i" arbitrary: s i)
  case 0
  then have "i = length m" by simp
  then have "copied s m i = s\<lparr>ppc := P_Copy m (length m)\<rparr>"
    using 0 by (simp add: copied_def put_slot_def Let_def)
  then show ?case using 0 \<open>i = length m\<close> by (simp only: pc_self rtranclp.rtrancl_refl)
next
  case (Suc k)
  let ?d = "sdev s" let ?slot = "slots ?d ! pslot ?d"
  let ?s1 = "s\<lparr>sdev := put_slot (pslot ?d) (?slot\<lparr>bytes := (bytes ?slot)[i := m ! i]\<rparr>) ?d, ppc := P_Copy m (Suc i)\<rparr>"
  have i: "i < length m" using Suc.hyps(2) by simp
  have 1: "spsc_step s ?s1" by (rule p_copy [OF Suc.prems(1) i refl refl])
  have len: "i < length (bytes ?slot)" using i Suc.prems(4) by simp
  have sl: "slots (sdev ?s1) ! pslot (sdev ?s1) = ?slot\<lparr>bytes := (bytes ?slot)[i := m ! i]\<rparr>"
    using Suc.prems(3) by (simp add: put_slot_def)
  have b: "take (Suc i) ((bytes ?slot)[i := m ! i]) @ drop (Suc i) m @
      drop (length m) ((bytes ?slot)[i := m ! i]) = take i (bytes ?slot) @ drop i m @ drop (length m) (bytes ?slot)"
    using i len by (simp add: take_Suc_conv_app_nth Cons_nth_drop_Suc)
  have "spsc_step\<^sup>*\<^sup>* ?s1 (copied ?s1 m (Suc i))"
  proof (rule Suc.hyps(1))
    show "k = length m - Suc i" using Suc.hyps(2) by simp
    show "length m \<le> length (bytes (slots (sdev ?s1) ! pslot (sdev ?s1)))" using Suc.prems(4) sl by simp
  qed (use i Suc.prems(3) in \<open>simp_all add: put_slot_def\<close>)
  moreover have "copied ?s1 m (Suc i) = copied s m i"
    unfolding copied_def Let_def sl using b by (simp add: put_slot_def)
  ultimately show ?case using 1 steps_start by (simp only:)
qed

lemma produce_steps:
  assumes ok: "spsc_ok d" and s: "sdev s = d" "ppc s = P_Idle"
    and room: "\<not> kbuf_spsc_is_full d" and n: "n \<le> unat (buffer_size d)"
    and u: "uaccess_ok u" and run: "kbuf_spsc_produce u d ub n = Some (Inr n, d')"
  shows "spsc_step\<^sup>*\<^sup>* s (s\<lparr>sdev := d', p_view := cons_idx d, sent := sent s @ [ubytes ub n]\<rparr>)"
proof -
  let ?m = "ubytes ub n" and ?slot = "slots d ! pslot d"
  note ps = pslot_ok [OF ok]
  obtain new left where cp: "copy_from_user u (bytes ?slot) ?m = (new, left)" by fastforce
  have l: "left = 0"
  proof (rule ccontr)
    assume "left \<noteq> 0"
    then have "\<exists>e. kbuf_spsc_produce u d ub n = Some (Inl EFAULT, e)"
      using cp ps n by (simp add: kbuf_spsc_produce_def Let_def)
    with run show False by auto
  qed
  with copy_from_user_ok [OF u _ cp] n ps have new: "new = ?m @ drop n (bytes ?slot)" by simp
  let ?slot' = "?slot\<lparr>bytes := new\<rparr>"
  let ?d3 = "d\<lparr>slots := (slots d)[pslot d := ?slot'\<lparr>len := n\<rparr>]\<rparr>"
  define s1 where "s1 = s\<lparr>p_view := cons_idx d, ppc := P_Copy ?m 0\<rparr>"
  define s2 where "s2 = s1\<lparr>sdev := put_slot (pslot d) ?slot' d, ppc := P_Copy ?m n\<rparr>"
  define s3 where "s3 = s2\<lparr>sdev := ?d3, ppc := P_Filled ?m\<rparr>"
  define s4 where "s4 = s3\<lparr>sdev := ?d3\<lparr>prod_idx := prod_idx d + 1\<rparr>, ppc := P_Published ?m, sent := sent s @ [?m]\<rparr>"
  have ml: "may_load a b b" for a b by (simp add: may_load_def)
  have 1: "spsc_step s s1"
    unfolding s1_def using room s n ml
    by (intro p_start [where d = d and ub = ub and cnt = n]) (auto simp: kbuf_spsc_is_full_def min_def)
  have "length ?m \<le> length (bytes ?slot)" using n ps by simp
  then have 2: "spsc_step\<^sup>*\<^sup>* s1 s2"
    using copy_steps [of s1 ?m 0] s ps new by (simp add: s1_def s2_def copied_def Let_def)
  have 3: "spsc_step s2 s3"
    unfolding s3_def using s ps p_len [of s2 ?m "sdev s2" "slots (sdev s2) ! pslot (sdev s2)"]
    by (simp add: s2_def put_slot_def)
  have 4: "spsc_step s3 s4"
  proof -
    have e: "ppc s3 = P_Filled ?m" "sdev s3 = ?d3" "sent s3 = sent s" "prod_idx ?d3 = prod_idx d"
      by (simp_all add: s3_def s2_def s1_def)
    show ?thesis unfolding s4_def using p_publish [OF e(1) e(2) [symmetric]] by (simp only: e)
  qed
  define d4 where "d4 = ?d3\<lparr>prod_idx := prod_idx d + 1\<rparr>"
  define occ where "occ = prod_idx d4 - cons_idx d4"
  define d5 where "d5 = d4\<lparr>bytes_produced := bytes_produced d4 + of_nat (length ?m),
    msgs_produced := msgs_produced d4 + 1, peak_count := (if peak_count d4 < occ then occ else peak_count d4)\<rparr>"
  have "kbuf_spsc_produce u d ub n = Some (Inr n, d5)"
    using cp l ps n by (simp add: kbuf_spsc_produce_def Let_def d5_def d4_def occ_def)
  then have d': "d' = d5" using run by simp
  have s4: "sdev s4 = d4" "ppc s4 = P_Published ?m" "p_view s4 = cons_idx d4"
    by (simp_all add: s4_def s3_def s2_def s1_def d4_def)
  have "spsc_step s4 (s4\<lparr>sdev := d5, ppc := P_Idle, p_view := cons_idx d4\<rparr>)"
    unfolding d5_def by (rule p_stats [OF s4(2) s4(1) [symmetric] _ occ_def]) (simp add: ml)
  moreover have "s4\<lparr>sdev := d5, ppc := P_Idle, p_view := cons_idx d4\<rparr> =
      s\<lparr>sdev := d', p_view := cons_idx d, sent := sent s @ [?m]\<rparr>"
    using s by (cases s) (simp add: s4_def s3_def s2_def s1_def d' d4_def)
  ultimately have 5: "spsc_step s4 (s\<lparr>sdev := d', p_view := cons_idx d, sent := sent s @ [?m]\<rparr>)" by (simp only:)
  show ?thesis
    by (rule steps_start [OF 1], rule steps_trans [OF 2], rule steps_start [OF 3], rule steps_start [OF 4],
        rule steps_one [OF 5])
qed

lemma read_steps:
  assumes "cpc s = C_Copy cnt n acc" "length acc \<le> n"
  shows "spsc_step\<^sup>*\<^sup>* s (s\<lparr>cpc := C_Copy cnt n (acc @
    map (\<lambda>i. bytes (slots (sdev s) ! cslot (sdev s)) ! i) [length acc..<n])\<rparr>)"
  using assms
proof (induction "n - length acc" arbitrary: s acc)
  case 0
  then show ?case by (simp add: pc_self)
next
  case (Suc k)
  let ?slot = "slots (sdev s) ! cslot (sdev s)"
  let ?a = "acc @ [bytes ?slot ! length acc]"
  let ?s1 = "s\<lparr>cpc := C_Copy cnt n ?a\<rparr>"
  have l: "length acc < n" using Suc.hyps(2) by simp
  have 1: "spsc_step s ?s1" by (rule c_copy [OF Suc.prems(1) l refl refl])
  have "spsc_step\<^sup>*\<^sup>* ?s1 (?s1\<lparr>cpc := C_Copy cnt n (?a @
      map (\<lambda>i. bytes (slots (sdev ?s1) ! cslot (sdev ?s1)) ! i) [length ?a..<n])\<rparr>)"
    by (rule Suc.hyps(1)) (use Suc.hyps(2) l in simp_all)
  moreover have "?s1\<lparr>cpc := C_Copy cnt n (?a @ map (\<lambda>i. bytes (slots (sdev ?s1) ! cslot (sdev ?s1)) ! i) [length ?a..<n])\<rparr> =
      s\<lparr>cpc := C_Copy cnt n (acc @ map (\<lambda>i. bytes ?slot ! i) [length acc..<n])\<rparr>"
    using l by (simp add: upt_conv_Cons)
  ultimately show ?case using 1 steps_start by (simp only:)
qed

lemma consume_steps:
  assumes ok: "spsc_ok d" and s: "sdev s = d" "cpc s = C_Idle"
    and ne: "\<not> kbuf_spsc_is_empty d" and u: "uaccess_ok u"
    and run: "kbuf_spsc_consume u d cnt = Some (Inr n, out, d')"
  shows "spsc_step\<^sup>*\<^sup>* s (s\<lparr>sdev := d', c_view := prod_idx d, got := got s @ [(cnt, out)]\<rparr>)"
proof -
  let ?slot = "slots d ! cslot d"
  obtain o1 left where cp: "copy_to_user u (take (min cnt (len ?slot)) (bytes ?slot)) = (o1, left)" by fastforce
  have g: "geom_ok d" using ok by (simp add: spsc_ok_def)
  have ix: "cslot d < length (slots d)" by (rule spsc_index(2) [OF ok])
  then have b: "len ?slot \<le> length (bytes ?slot)"
    using g length_slots [OF g] slots_ok_nth [of "unat (num_buffers d)" "unat (buffer_size d)" "slots d" "cslot d"]
    by (simp add: geom_ok_def)
  let ?n = "min cnt (len ?slot)"
  define d3 where "d3 = d\<lparr>cons_idx := cons_idx d + 1\<rparr>"
  define d4 where "d4 = d3\<lparr>bytes_consumed := bytes_consumed d3 + of_nat ?n, msgs_consumed := msgs_consumed d3 + 1\<rparr>"
  have e: "kbuf_spsc_consume u d cnt = Some (if left = 0 then (Inr ?n, o1, d4) else (Inl EFAULT, o1, d))"
    using cp ix b by (simp add: kbuf_spsc_consume_def Let_def d4_def d3_def)
  have r: "left = 0" "n = ?n" "out = o1" "d' = d4" using run e by (simp_all split: if_splits)
  have out: "out = take n (bytes ?slot)" using copy_to_user_ok [OF u] cp r by auto
  have m: "map (\<lambda>i. bytes ?slot ! i) [0..<n] = take n (bytes ?slot)"
    using r(2) b by (intro nth_equalityI) auto
  define s1 where "s1 = s\<lparr>c_view := prod_idx d, cpc := C_Copy cnt n []\<rparr>"
  define s2 where "s2 = s1\<lparr>cpc := C_Copy cnt n out\<rparr>"
  define s3 where "s3 = s2\<lparr>sdev := d3, cpc := C_Published n, got := got s @ [(cnt, out)]\<rparr>"
  have 1: "spsc_step s s1"
    unfolding s1_def using s ne r(2)
    by (intro c_start [where d = d]) (auto simp: kbuf_spsc_is_empty_def may_load_def)
  have 2: "spsc_step\<^sup>*\<^sup>* s1 s2"
    using read_steps [of s1 cnt n "[]"] s m out by (simp add: s1_def s2_def)
  have c: "cpc s2 = C_Copy cnt n out" "sdev s2 = d" "got s2 = got s" "length out = n"
    using s out r(2) b by (simp_all add: s2_def s1_def)
  have 3: "spsc_step s2 s3"
    unfolding s3_def d3_def using c_publish [OF c(1,4) c(2) [symmetric]] by (simp only: c)
  have c3: "cpc s3 = C_Published n" "sdev s3 = d3" by (simp_all add: s3_def)
  have "spsc_step s3 (s3\<lparr>sdev := d4, cpc := C_Idle\<rparr>)"
    unfolding d4_def r(2) [symmetric] by (rule c_stats [OF c3(1) c3(2) [symmetric]])
  moreover have "s3\<lparr>sdev := d4, cpc := C_Idle\<rparr> = s\<lparr>sdev := d', c_view := prod_idx d, got := got s @ [(cnt, out)]\<rparr>"
    using s by (cases s) (simp add: s3_def s2_def s1_def r(4))
  ultimately have 4: "spsc_step s3 (s\<lparr>sdev := d', c_view := prod_idx d, got := got s @ [(cnt, out)]\<rparr>)"
    by (simp only:)
  show ?thesis
    by (rule steps_start [OF 1], rule steps_trans [OF 2], rule steps_start [OF 3], rule steps_one [OF 4])
qed


section \<open>Resizing under a writer\<close>

text \<open>
  \<open>KBUF_IOCRESIZE\<close> checks that the ring is empty, not that it is idle: a writer that has
  found room and is still copying has published nothing yet, so the resize goes ahead and frees the
  slot the writer is copying into.
\<close>

theorem resize_frees_slot_being_written:
  "\<exists>s w d' k'. spsc_step\<^sup>*\<^sup>* (spsc_start demo_spsc) s \<and> ppc s = P_Copy [9] 0 \<and>
     held demo_kst = Some (dev_slots_mem (sdev s)) \<and>
     Mem (data (slots (sdev s) ! pslot (sdev s))) \<in># dev_slots_mem (sdev s) \<and>
     run_state (kbuf_ioc_resize good_user (resize_arg 1 1) (\<lambda>d. d) (sdev s)) demo_kst = ((Inr (), w, d'), k') \<and>
     (\<exists>H. held k' = Some H \<and> Mem (data (slots (sdev s) ! pslot (sdev s))) \<notin># H)"
proof -
  let ?s = "(spsc_start demo_spsc)\<lparr>p_view := 0xFFFFFFFF, ppc := P_Copy [9] 0\<rparr>"
  have 1: "spsc_step\<^sup>*\<^sup>* (spsc_start demo_spsc) ?s"
    by (rule r_into_rtranclp, rule p_start [where d = demo_spsc and ub = "\<lambda>_. 9" and cnt = 1])
      (simp_all add: spsc_start_def demo_simps may_load_def)
  have same: "dev_slots_mem demo_spsc = dev_slots_mem demo_dev" by (simp add: demo_spsc_def)
  then have h: "held demo_kst = Some (dev_slots_mem demo_spsc + {#})" using demo_held by simp
  have "\<exists>k'. run_state (kbuf_ioc_resize good_user (resize_arg 1 1) (\<lambda>d. d) demo_spsc) demo_kst =
      ((Inr (), [WRITE_WQ], resized \<lparr>rq_num_buffers = 1, rq_buffer_size = 1\<rparr> 10
        [\<lparr>data = 11, bytes = [12], len = 0\<rparr>] demo_spsc), k')"
    by (rule resize_succeeds [OF copy_resize_arg])
      (simp_all add: KBUF_MAX_NUM_BUFFERS_def KBUF_MAX_BUFFER_SIZE_def demo_alloc1,
        simp_all add: demo_simps)
  then obtain w d' k' where run: "run_state (kbuf_ioc_resize good_user (resize_arg 1 1) (\<lambda>d. d) demo_spsc) demo_kst =
      ((Inr (), w, d'), k')" and d': "slots_mem (slots_ptr d') (slots d') = {#Mem 10, Mem 11#}"
    by (auto simp: resized_def slots_mem_def)
  have "dev_ok demo_spsc" by simp
  from resize_ledger [OF run this refl h] have "held k' = Some {#Mem 10, Mem 11#}" using d' by simp
  moreover have "data (slots demo_spsc ! pslot demo_spsc) = 3" "Mem 3 \<in># dev_slots_mem demo_spsc"
    by (simp_all add: demo_simps slots_mem_def)
  ultimately show ?thesis using 1 h run
    by (intro exI [of _ ?s] exI [of _ w] exI [of _ d'] exI [of _ k']) (simp add: spsc_start_def)
qed

section \<open>Witnesses\<close>

text \<open>
  One message is written into a ring whose indices are about to wrap; then a second write and the
  first read are in progress at the same time.
\<close>

definition demo_one :: kbuf_dev where
  "demo_one = demo_spsc\<lparr>slots := [\<lparr>data = 2, bytes = [0, 0], len = 0\<rparr>, \<lparr>data = 3, bytes = [7, 0], len = 1\<rparr>],
     prod_idx := 0, bytes_produced := 1, msgs_produced := 1, peak_count := 1\<rparr>"

definition demo_start :: spsc_sys where
  "demo_start = (spsc_start demo_spsc)\<lparr>sdev := demo_one, p_view := 0xFFFFFFFF, sent := [[7]]\<rparr>"

definition demo_busy :: spsc_sys where
  "demo_busy = demo_start\<lparr>ppc := P_Copy [9] 0, c_view := 0, cpc := C_Copy 5 1 []\<rparr>"

lemma demo_produce: "kbuf_spsc_produce good_user demo_spsc (\<lambda>_. 7) 1 = Some (Inr 1, demo_one)"
  by (simp add: kbuf_spsc_produce_def Let_def demo_one_def demo_simps)

lemma demo_spsc_ok: "spsc_ok demo_spsc" "\<not> kbuf_spsc_is_full demo_spsc" "unat (buffer_size demo_spsc) = 2"
  by (simp_all add: demo_simps kbuf_spsc_is_full_def)

lemma demo_first: "spsc_step\<^sup>*\<^sup>* (spsc_start demo_spsc) demo_start"
  using produce_steps [OF demo_spsc_ok(1) _ _ demo_spsc_ok(2) _ uaccess_ok_good demo_produce, of "spsc_start demo_spsc"]
    demo_spsc_ok(3)
  by (simp add: spsc_start_def demo_start_def demo_spsc_def)

lemma demo_second: "spsc_step\<^sup>*\<^sup>* demo_start demo_busy"
proof (rule steps_trans)
  let ?s = "demo_start\<lparr>p_view := 0xFFFFFFFF, ppc := P_Copy [9] 0\<rparr>"
  show "spsc_step\<^sup>*\<^sup>* demo_start ?s"
    by (rule steps_one, rule p_start [where d = demo_one and ub = "\<lambda>_. 9" and cnt = 1])
      (simp_all add: demo_start_def spsc_start_def demo_one_def demo_simps may_load_def)
  have "spsc_step ?s (?s\<lparr>c_view := 0, cpc := C_Copy 5 1 []\<rparr>)"
    by (rule c_start [where d = demo_one])
      (simp_all add: demo_start_def spsc_start_def demo_one_def demo_simps may_load_def)
  then show "spsc_step\<^sup>*\<^sup>* ?s demo_busy"
    by (intro steps_one) (simp add: demo_busy_def demo_start_def spsc_start_def)
qed

lemma demo_reach: "spsc_step\<^sup>*\<^sup>* (spsc_start demo_spsc) demo_busy"
  by (rule steps_trans [OF demo_first demo_second])

theorem spsc_concurrent_fifo_witness:
  "spsc_ok (sdev demo_busy) \<and> (\<exists>gone. spsc_msgs demo_spsc @ [[7]] = gone @ spsc_msgs (sdev demo_busy) \<and>
    list_all2 (\<lambda>(cnt, out) m. out = take cnt m) (got demo_busy) gone)"
  using spsc_concurrent_fifo [OF demo_spsc_ok(1) demo_reach]
  by (simp add: demo_busy_def demo_start_def)

theorem spsc_no_race_witness: "pslot (sdev demo_busy) \<noteq> cslot (sdev demo_busy)"
  using spsc_no_race [OF demo_spsc_ok(1) demo_reach]
  by (simp add: demo_busy_def writing_def reading_def)


end
