(* ===== verification/Kbuf_Spsc_Wait.thy ===== *)
theory Kbuf_Spsc_Wait
  imports Kbuf_Conc
begin

text \<open>
  Sleeping in the lock-free mode: \<open>kbuf_read_spsc\<close> and \<open>kbuf_write_spsc\<close> (src/kbuf_main.c)
  without a mutex. The test that sends a thread to sleep may see an old index of the other side, so
  that no wake-up is lost rests on the wait queues alone. \<open>wait_event_interruptible\<close> is the
  kernel's documented loop: put the thread on the queue, test the condition, sleep unless woken
  since. Queueing and \<open>wake_up_interruptible\<close> take the lock of the queue: a thread that queues
  itself sees what the last waker of that queue had written.
\<close>

section \<open>The two callers\<close>

text \<open>
  Where a caller is: inside or outside the transfer (\<open>Run\<close>), about to wake the other side, on
  its way to the queue, on the queue, past the test there, asleep. The flags tell whether a wake-up
  has arrived since the thread queued itself.
\<close>

datatype side = Run | Wake | Wait | Queued bool | Tested bool | Asleep

text \<open>
  \<open>core\<close> is the device with the steps of the transfers. \<open>r_sync\<close> is the producer's index as of
  its last wake-up of \<open>read_wq\<close>, \<open>w_sync\<close> the consumer's as of its last one of \<open>write_wq\<close>.
\<close>

record wake_sys =
  core :: spsc_sys
  pside :: side
  cside :: side
  r_sync :: u32
  w_sync :: u32

fun wake_side :: "side \<Rightarrow> side" where
  "wake_side (Queued w) = Queued True"
| "wake_side (Tested w) = Tested True"
| "wake_side Asleep = Wait"
| "wake_side x = x"

definition published :: "spsc_sys \<Rightarrow> bool" where
  "published c \<longleftrightarrow> (case ppc c of P_Published m \<Rightarrow> True | _ \<Rightarrow> False)"

definition freed :: "spsc_sys \<Rightarrow> bool" where
  "freed c \<longleftrightarrow> (case cpc c of C_Published n \<Rightarrow> True | _ \<Rightarrow> False)"

text \<open>The conditions of the two loops, on the index of the other side that a load returned.\<close>

definition full_at :: "spsc_sys \<Rightarrow> u32 \<Rightarrow> bool" where
  "full_at c v \<longleftrightarrow> prod_idx (sdev c) - v \<ge> num_buffers (sdev c)"

definition empty_at :: "spsc_sys \<Rightarrow> u32 \<Rightarrow> bool" where
  "empty_at c v \<longleftrightarrow> v = cons_idx (sdev c)"

section \<open>Steps\<close>

text \<open>
  The producer's steps, then the consumer's. A call runs through the steps of \<open>spsc_step\<close> that
  leave the other side alone, and when it has transferred a message it wakes the other side. A
  signal ends the waiting.
\<close>

inductive writer_step :: "wake_sys \<Rightarrow> wake_sys \<Rightarrow> bool" where
  w_run: "\<lbrakk>pside s = Run; spsc_step (core s) c; cpc c = cpc (core s); c_view c = c_view (core s)\<rbrakk>
    \<Longrightarrow> writer_step s (s\<lparr>core := c, pside := (if published (core s) \<and> \<not> published c then Wake else Run)\<rparr>)"
| w_wake: "pside s = Wake
    \<Longrightarrow> writer_step s (s\<lparr>pside := Run, cside := wake_side (cside s), r_sync := prod_idx (sdev (core s))\<rparr>)"
| w_wait: "\<lbrakk>pside s = Run; ppc (core s) = P_Idle; may_load (p_view (core s)) (cons_idx (sdev (core s))) v;
      full_at (core s) v; d = sdev (core s)\<rbrakk>
    \<Longrightarrow> writer_step s (s\<lparr>core := (core s)\<lparr>sdev := d\<lparr>write_sleeps := write_sleeps d + 1\<rparr>, p_view := v\<rparr>,
          pside := Wait\<rparr>)"
| w_queue: "pside s = Wait \<Longrightarrow> writer_step s (s\<lparr>pside := Queued False\<rparr>)"
| w_go: "\<lbrakk>pside s = Wait \<or> pside s = Queued w; may_load (p_view (core s)) (cons_idx (sdev (core s))) v;
      \<not> full_at (core s) v\<rbrakk>
    \<Longrightarrow> writer_step s (s\<lparr>core := (core s)\<lparr>p_view := v\<rparr>, pside := Run\<rparr>)"
| w_test: "\<lbrakk>pside s = Queued w; may_load (p_view (core s)) (cons_idx (sdev (core s))) v;
      \<not> w \<Longrightarrow> may_load (w_sync s) (cons_idx (sdev (core s))) v; full_at (core s) v\<rbrakk>
    \<Longrightarrow> writer_step s (s\<lparr>core := (core s)\<lparr>p_view := v\<rparr>, pside := Tested w\<rparr>)"
| w_sleep: "pside s = Tested w \<Longrightarrow> writer_step s (s\<lparr>pside := (if w then Wait else Asleep)\<rparr>)"
| w_signal: "pside s \<in> {Wait, Queued w, Tested w, Asleep} \<Longrightarrow> writer_step s (s\<lparr>pside := Run\<rparr>)"

inductive reader_step :: "wake_sys \<Rightarrow> wake_sys \<Rightarrow> bool" where
  r_run: "\<lbrakk>cside s = Run; spsc_step (core s) c; ppc c = ppc (core s); p_view c = p_view (core s)\<rbrakk>
    \<Longrightarrow> reader_step s (s\<lparr>core := c, cside := (if freed (core s) \<and> \<not> freed c then Wake else Run)\<rparr>)"
| r_wake: "cside s = Wake
    \<Longrightarrow> reader_step s (s\<lparr>cside := Run, pside := wake_side (pside s), w_sync := cons_idx (sdev (core s))\<rparr>)"
| r_wait: "\<lbrakk>cside s = Run; cpc (core s) = C_Idle; may_load (c_view (core s)) (prod_idx (sdev (core s))) v;
      empty_at (core s) v; d = sdev (core s)\<rbrakk>
    \<Longrightarrow> reader_step s (s\<lparr>core := (core s)\<lparr>sdev := d\<lparr>read_sleeps := read_sleeps d + 1\<rparr>, c_view := v\<rparr>,
          cside := Wait\<rparr>)"
| r_queue: "cside s = Wait \<Longrightarrow> reader_step s (s\<lparr>cside := Queued False\<rparr>)"
| r_go: "\<lbrakk>cside s = Wait \<or> cside s = Queued w; may_load (c_view (core s)) (prod_idx (sdev (core s))) v;
      \<not> empty_at (core s) v\<rbrakk>
    \<Longrightarrow> reader_step s (s\<lparr>core := (core s)\<lparr>c_view := v\<rparr>, cside := Run\<rparr>)"
| r_test: "\<lbrakk>cside s = Queued w; may_load (c_view (core s)) (prod_idx (sdev (core s))) v;
      \<not> w \<Longrightarrow> may_load (r_sync s) (prod_idx (sdev (core s))) v; empty_at (core s) v\<rbrakk>
    \<Longrightarrow> reader_step s (s\<lparr>core := (core s)\<lparr>c_view := v\<rparr>, cside := Tested w\<rparr>)"
| r_sleep: "cside s = Tested w \<Longrightarrow> reader_step s (s\<lparr>cside := (if w then Wait else Asleep)\<rparr>)"
| r_signal: "cside s \<in> {Wait, Queued w, Tested w, Asleep} \<Longrightarrow> reader_step s (s\<lparr>cside := Run\<rparr>)"

definition wake_step :: "wake_sys \<Rightarrow> wake_sys \<Rightarrow> bool" where
  "wake_step s s' \<longleftrightarrow> writer_step s s' \<or> reader_step s s'"

definition wake_start :: "kbuf_dev \<Rightarrow> wake_sys" where
  "wake_start d = \<lparr>core = spsc_start d, pside = Run, cside = Run, r_sync = prod_idx d, w_sync = cons_idx d\<rparr>"

section \<open>The invariant\<close>

text \<open>A side that has moved its index and not yet called \<open>wake_up_interruptible\<close>.\<close>

definition reader_due :: "wake_sys \<Rightarrow> bool" where
  "reader_due s \<longleftrightarrow> pside s = Wake \<or> published (core s)"

definition writer_due :: "wake_sys \<Rightarrow> bool" where
  "writer_due s \<longleftrightarrow> cside s = Wake \<or> freed (core s)"

definition sides_ok :: "wake_sys \<Rightarrow> bool" where
  "sides_ok s \<longleftrightarrow> (pside s \<noteq> Run \<longrightarrow> ppc (core s) = P_Idle) \<and> (cside s \<noteq> Run \<longrightarrow> cpc (core s) = C_Idle)"

definition sync_ok :: "wake_sys \<Rightarrow> bool" where
  "sync_ok s \<longleftrightarrow> (let d = sdev (core s) in
     prod_idx d = r_sync s + (if reader_due s then 1 else 0) \<and>
     cons_idx d = w_sync s + (if writer_due s then 1 else 0))"

definition sleepers_ok :: "wake_sys \<Rightarrow> bool" where
  "sleepers_ok s \<longleftrightarrow> (let d = sdev (core s) in
     (cside s \<in> {Tested False, Asleep} \<longrightarrow> kbuf_spsc_is_empty d \<or> reader_due s) \<and>
     (pside s \<in> {Tested False, Asleep} \<longrightarrow> kbuf_spsc_is_full d \<or> writer_due s))"

definition wake_inv :: "u8 list list \<Rightarrow> wake_sys \<Rightarrow> bool" where
  "wake_inv q s \<longleftrightarrow> spsc_inv q (core s) \<and> sides_ok s \<and> sync_ok s \<and> sleepers_ok s"

section \<open>Steps keep the invariant\<close>

text \<open>What a step of one side does to the indices and to the program counter of that side.\<close>

lemma producer_move:
  assumes "spsc_step c c'" "cpc c' = cpc c" "c_view c' = c_view c"
  shows "cons_idx (sdev c') = cons_idx (sdev c) \<and> num_buffers (sdev c') = num_buffers (sdev c) \<and>
    prod_idx (sdev c') = prod_idx (sdev c) + (if published c' \<and> \<not> published c then 1 else 0) \<and>
    (published c \<and> \<not> published c' \<longrightarrow> ppc c' = P_Idle)"
  using assms by cases (auto simp: published_def put_slot_def)

lemma consumer_move:
  assumes "spsc_step c c'" "ppc c' = ppc c" "p_view c' = p_view c"
  shows "prod_idx (sdev c') = prod_idx (sdev c) \<and> num_buffers (sdev c') = num_buffers (sdev c) \<and>
    cons_idx (sdev c') = cons_idx (sdev c) + (if freed c' \<and> \<not> freed c then 1 else 0) \<and>
    (freed c \<and> \<not> freed c' \<longrightarrow> cpc c' = C_Idle)"
  using assms by cases (auto simp: freed_def put_slot_def)

lemma due_frame [simp]:
  "published (c\<lparr>p_view := v\<rparr>) = published c" "freed (c\<lparr>p_view := v\<rparr>) = freed c"
  "published (c\<lparr>c_view := v\<rparr>) = published c" "freed (c\<lparr>c_view := v\<rparr>) = freed c"
  "published (c\<lparr>sdev := d\<rparr>) = published c" "freed (c\<lparr>sdev := d\<rparr>) = freed c"
  by (simp_all add: published_def freed_def)

lemma not_due: "ppc c = P_Idle \<Longrightarrow> \<not> published c" "cpc c = C_Idle \<Longrightarrow> \<not> freed c"
  by (simp_all add: published_def freed_def)

lemma sleeps_inv:
  "spsc_inv q c \<Longrightarrow> spsc_inv q (c\<lparr>sdev := (sdev c)\<lparr>read_sleeps := n\<rparr>\<rparr>)"
  "spsc_inv q c \<Longrightarrow> spsc_inv q (c\<lparr>sdev := (sdev c)\<lparr>write_sleeps := n\<rparr>\<rparr>)"
  by (simp_all add: spsc_inv_def producer_ok_def consumer_ok_def views_ok_def stream_ok_def Let_def
      spsc_ok_def geom_ok_def spsc_msgs_def split: producer.splits consumer.splits)

lemmas wake_defs = sides_ok_def sync_ok_def sleepers_ok_def reader_due_def writer_due_def Let_def
  kbuf_spsc_is_empty_def kbuf_spsc_is_full_def

definition same_idx :: "spsc_sys \<Rightarrow> spsc_sys \<Rightarrow> bool" where
  "same_idx c c' \<longleftrightarrow> prod_idx (sdev c) = prod_idx (sdev c') \<and> cons_idx (sdev c) = cons_idx (sdev c') \<and>
     num_buffers (sdev c) = num_buffers (sdev c')"

text \<open>A caller that waits changes nothing the other side or the wake-ups depend on.\<close>

lemma waiting_writer:
  assumes inv: "wake_inv q s" and s: "pside s \<noteq> Wake" "ppc (core s) = P_Idle"
    and c: "spsc_inv q c" "ppc c = ppc (core s)" "cpc c = cpc (core s)" "same_idx c (core s)"
    and x: "x \<noteq> Wake" "x = Tested False \<or> x = Asleep \<Longrightarrow> kbuf_spsc_is_full (sdev (core s)) \<or> writer_due s"
  shows "wake_inv q (s\<lparr>core := c, pside := x\<rparr>)"
proof -
  let ?s = "s\<lparr>core := c, pside := x\<rparr>"
  have due: "reader_due ?s = reader_due s" "writer_due ?s = writer_due s"
    using s x(1) c(2,3) by (simp_all add: reader_due_def writer_due_def published_def freed_def)
  have idx: "prod_idx (sdev c) = prod_idx (sdev (core s))" "cons_idx (sdev c) = cons_idx (sdev (core s))"
    "kbuf_spsc_is_empty (sdev c) = kbuf_spsc_is_empty (sdev (core s))"
    "kbuf_spsc_is_full (sdev c) = kbuf_spsc_is_full (sdev (core s))"
    using c(4) by (simp_all add: same_idx_def kbuf_spsc_is_empty_def kbuf_spsc_is_full_def)
  have "sides_ok ?s" using inv s c(2,3) by (simp add: wake_inv_def sides_ok_def)
  moreover have "sync_ok ?s" using inv by (simp add: wake_inv_def sync_ok_def due idx Let_def)
  moreover have "sleepers_ok ?s" using inv x(2) by (simp add: wake_inv_def sleepers_ok_def due idx Let_def)
  ultimately show ?thesis using c(1) by (simp add: wake_inv_def)
qed

lemma writer_step_inv:
  assumes "writer_step s s'" and inv: "wake_inv q s"
  shows "wake_inv q s'"
proof -
  have i: "spsc_inv q (core s)" "sides_ok s" "sync_ok s" "sleepers_ok s" using inv by (auto simp: wake_inv_def)
  have idle: "pside s \<noteq> Run \<Longrightarrow> ppc (core s) = P_Idle" using i(2) by (simp add: sides_ok_def)
  note ww = waiting_writer [OF inv]
  from assms(1) show ?thesis
  proof cases
    case (w_run c)
    note m = producer_move [OF w_run(3-5)]
    have f: "freed c = freed (core s)" using w_run(4) by (simp add: freed_def)
    have due: "reader_due s = published (core s)" "reader_due s' = (published (core s) \<or> published c)"
      "writer_due s' = writer_due s"
      using w_run(1,2) f by (auto simp: reader_due_def writer_due_def)
    have "sides_ok s'" using i(2) m w_run by (simp add: sides_ok_def)
    moreover have "sync_ok s'" using i(3) m due w_run(1) by (simp add: sync_ok_def Let_def)
    moreover have "sleepers_ok s'" using i(4) m due w_run(1)
      by (cases "published (core s) \<or> published c") (simp_all add: sleepers_ok_def Let_def kbuf_spsc_is_empty_def)
    ultimately show ?thesis using spsc_step_inv [OF w_run(3) i(1)] w_run(1) by (simp add: wake_inv_def)
  next
    case w_wake
    then have "\<not> published (core s)" using idle not_due by simp
    with w_wake i show ?thesis by (cases "cside s") (auto simp: wake_inv_def wake_defs)
  next
    case (w_wait v d)
    have "spsc_inv q ((core s)\<lparr>sdev := d\<lparr>write_sleeps := write_sleeps d + 1\<rparr>, p_view := v\<rparr>)"
      using load_view_inv(1) [OF sleeps_inv(2) [OF i(1), of "write_sleeps d + 1"], of v] w_wait by simp
    then show ?thesis unfolding w_wait(1) using w_wait by (intro ww) (simp_all add: same_idx_def)
  next
    case w_queue
    then show ?thesis using ww [of "core s" "Queued False"] i(1) idle by (simp add: same_idx_def)
  next
    case (w_go w v)
    then show ?thesis unfolding w_go(1)
      using idle by (intro ww load_view_inv(1) [OF i(1)]) (auto simp: same_idx_def)
  next
    case (w_test w v)
    have "\<not> w \<Longrightarrow> \<not> writer_due s \<Longrightarrow> v = cons_idx (sdev (core s))"
      using w_test(4) i(3) by (simp add: sync_ok_def Let_def may_load_same)
    then have "\<not> w \<Longrightarrow> kbuf_spsc_is_full (sdev (core s)) \<or> writer_due s"
      using w_test(5) by (auto simp: full_at_def kbuf_spsc_is_full_def)
    then show ?thesis unfolding w_test(1)
      using w_test idle by (intro ww load_view_inv(1) [OF i(1)]) (simp_all add: same_idx_def)
  next
    case (w_sleep w)
    have "w = False \<Longrightarrow> kbuf_spsc_is_full (sdev (core s)) \<or> writer_due s"
      using w_sleep(2) i(4) by (simp add: sleepers_ok_def Let_def)
    then show ?thesis using ww [of "core s" "if w then Wait else Asleep"] w_sleep i(1) idle
      by (cases w) (simp_all add: same_idx_def)
  next
    case (w_signal w)
    then have "pside s \<noteq> Wake" "pside s \<noteq> Run" by auto
    then show ?thesis using ww [of "core s" Run] w_signal(1) i(1) idle by (simp add: same_idx_def)
  qed
qed

lemma waiting_reader:
  assumes inv: "wake_inv q s" and s: "cside s \<noteq> Wake" "cpc (core s) = C_Idle"
    and c: "spsc_inv q c" "cpc c = cpc (core s)" "ppc c = ppc (core s)" "same_idx c (core s)"
    and x: "x \<noteq> Wake" "x = Tested False \<or> x = Asleep \<Longrightarrow> kbuf_spsc_is_empty (sdev (core s)) \<or> reader_due s"
  shows "wake_inv q (s\<lparr>core := c, cside := x\<rparr>)"
proof -
  let ?s = "s\<lparr>core := c, cside := x\<rparr>"
  have due: "writer_due ?s = writer_due s" "reader_due ?s = reader_due s"
    using s x(1) c(2,3) by (simp_all add: writer_due_def reader_due_def published_def freed_def)
  have idx: "prod_idx (sdev c) = prod_idx (sdev (core s))" "cons_idx (sdev c) = cons_idx (sdev (core s))"
    "kbuf_spsc_is_full (sdev c) = kbuf_spsc_is_full (sdev (core s))"
    "kbuf_spsc_is_empty (sdev c) = kbuf_spsc_is_empty (sdev (core s))"
    using c(4) by (simp_all add: same_idx_def kbuf_spsc_is_full_def kbuf_spsc_is_empty_def)
  have "sides_ok ?s" using inv s c(2,3) by (simp add: wake_inv_def sides_ok_def)
  moreover have "sync_ok ?s" using inv by (simp add: wake_inv_def sync_ok_def due idx Let_def)
  moreover have "sleepers_ok ?s" using inv x(2) by (simp add: wake_inv_def sleepers_ok_def due idx Let_def)
  ultimately show ?thesis using c(1) by (simp add: wake_inv_def)
qed

lemma reader_step_inv:
  assumes "reader_step s s'" and inv: "wake_inv q s"
  shows "wake_inv q s'"
proof -
  have i: "spsc_inv q (core s)" "sides_ok s" "sync_ok s" "sleepers_ok s" using inv by (auto simp: wake_inv_def)
  have idle: "cside s \<noteq> Run \<Longrightarrow> cpc (core s) = C_Idle" using i(2) by (simp add: sides_ok_def)
  note ww = waiting_reader [OF inv]
  from assms(1) show ?thesis
  proof cases
    case (r_run c)
    note m = consumer_move [OF r_run(3-5)]
    have f: "published c = published (core s)" using r_run(4) by (simp add: published_def)
    have due: "writer_due s = freed (core s)" "writer_due s' = (freed (core s) \<or> freed c)"
      "reader_due s' = reader_due s"
      using r_run(1,2) f by (auto simp: writer_due_def reader_due_def)
    have "sides_ok s'" using i(2) m r_run by (simp add: sides_ok_def)
    moreover have "sync_ok s'" using i(3) m due r_run(1) by (simp add: sync_ok_def Let_def)
    moreover have "sleepers_ok s'" using i(4) m due r_run(1)
      by (cases "freed (core s) \<or> freed c") (simp_all add: sleepers_ok_def Let_def kbuf_spsc_is_full_def)
    ultimately show ?thesis using spsc_step_inv [OF r_run(3) i(1)] r_run(1) by (simp add: wake_inv_def)
  next
    case r_wake
    then have "\<not> freed (core s)" using idle not_due by simp
    with r_wake i show ?thesis by (cases "pside s") (auto simp: wake_inv_def wake_defs)
  next
    case (r_wait v d)
    have "spsc_inv q ((core s)\<lparr>sdev := d\<lparr>read_sleeps := read_sleeps d + 1\<rparr>, c_view := v\<rparr>)"
      using c_load_inv [OF sleeps_inv(1) [OF i(1), of "read_sleeps d + 1"], of v] r_wait by simp
    then show ?thesis unfolding r_wait(1) using r_wait by (intro ww) (simp_all add: same_idx_def)
  next
    case r_queue
    then show ?thesis using ww [of "core s" "Queued False"] i(1) idle by (simp add: same_idx_def)
  next
    case (r_go w v)
    then show ?thesis unfolding r_go(1)
      using idle by (intro ww c_load_inv [OF i(1)]) (auto simp: same_idx_def)
  next
    case (r_test w v)
    have "\<not> w \<Longrightarrow> \<not> reader_due s \<Longrightarrow> v = prod_idx (sdev (core s))"
      using r_test(4) i(3) by (simp add: sync_ok_def Let_def may_load_same)
    then have "\<not> w \<Longrightarrow> kbuf_spsc_is_empty (sdev (core s)) \<or> reader_due s"
      using r_test(5) by (auto simp: empty_at_def kbuf_spsc_is_empty_def)
    then show ?thesis unfolding r_test(1)
      using r_test idle by (intro ww c_load_inv [OF i(1)]) (simp_all add: same_idx_def)
  next
    case (r_sleep w)
    have "w = False \<Longrightarrow> kbuf_spsc_is_empty (sdev (core s)) \<or> reader_due s"
      using r_sleep(2) i(4) by (simp add: sleepers_ok_def Let_def)
    then show ?thesis using ww [of "core s" "if w then Wait else Asleep"] r_sleep i(1) idle
      by (cases w) (simp_all add: same_idx_def)
  next
    case (r_signal w)
    then have "cside s \<noteq> Wake" "cside s \<noteq> Run" by auto
    then show ?thesis using ww [of "core s" Run] r_signal(1) i(1) idle by (simp add: same_idx_def)
  qed
qed

lemma wake_steps_inv: "wake_step\<^sup>*\<^sup>* s s' \<Longrightarrow> wake_inv q s \<Longrightarrow> wake_inv q s'"
  by (induction rule: rtranclp_induct) (auto simp: wake_step_def intro: writer_step_inv reader_step_inv)

lemma wake_start_inv: "spsc_ok d \<Longrightarrow> wake_inv (spsc_msgs d) (wake_start d)"
  using spsc_start_inv [of d]
  by (simp add: wake_inv_def wake_start_def wake_defs published_def freed_def spsc_start_def)

text \<open>A wake-up that is due comes, whatever the other side does: the steps of its own side lead there.\<close>

lemma reader_due_wakes:
  assumes "wake_inv q s" "reader_due s"
  shows "\<exists>s'. writer_step\<^sup>*\<^sup>* s s' \<and> cside s' = wake_side (cside s)"
proof (cases "pside s = Wake")
  case True
  from r_into_rtranclp [of writer_step, OF w_wake [OF True]] show ?thesis by auto
next
  case False
  then have "published (core s)" using assms(2) by (simp add: reader_due_def)
  then obtain m where m: "ppc (core s) = P_Published m" by (auto simp: published_def split: producer.splits)
  have run: "pside s = Run" using assms(1) m by (auto simp: wake_inv_def sides_ok_def)
  define c where "c = (core s)\<lparr>sdev := (sdev (core s))\<lparr>
      bytes_produced := bytes_produced (sdev (core s)) + of_nat (length m),
      msgs_produced := msgs_produced (sdev (core s)) + 1,
      peak_count := (if peak_count (sdev (core s)) < prod_idx (sdev (core s)) - cons_idx (sdev (core s))
        then prod_idx (sdev (core s)) - cons_idx (sdev (core s)) else peak_count (sdev (core s)))\<rparr>,
    ppc := P_Idle, p_view := cons_idx (sdev (core s))\<rparr>"
  have "spsc_step (core s) c"
    unfolding c_def by (rule p_stats [OF m refl _ refl]) (simp add: may_load_def)
  from w_run [OF run this] have "writer_step s (s\<lparr>core := c, pside := Wake\<rparr>)"
    using m by (simp add: c_def published_def)
  moreover have "writer_step (s\<lparr>core := c, pside := Wake\<rparr>) (s\<lparr>core := c, pside := Run,
      cside := wake_side (cside s), r_sync := prod_idx (sdev c)\<rparr>)"
    using w_wake [of "s\<lparr>core := c, pside := Wake\<rparr>"] by simp
  ultimately have "writer_step\<^sup>*\<^sup>* s (s\<lparr>core := c, pside := Run, cside := wake_side (cside s), r_sync := prod_idx (sdev c)\<rparr>)"
    by (meson converse_rtranclp_into_rtranclp r_into_rtranclp)
  moreover have "cside (s\<lparr>core := c, pside := Run, cside := wake_side (cside s), r_sync := prod_idx (sdev c)\<rparr>) = wake_side (cside s)" by simp
  ultimately show ?thesis by blast
qed

lemma writer_due_wakes:
  assumes "wake_inv q s" "writer_due s"
  shows "\<exists>s'. reader_step\<^sup>*\<^sup>* s s' \<and> pside s' = wake_side (pside s)"
proof (cases "cside s = Wake")
  case True
  from r_into_rtranclp [of reader_step, OF r_wake [OF True]] show ?thesis by auto
next
  case False
  then have "freed (core s)" using assms(2) by (simp add: writer_due_def)
  then obtain n where n: "cpc (core s) = C_Published n" by (auto simp: freed_def split: consumer.splits)
  have run: "cside s = Run" using assms(1) n by (auto simp: wake_inv_def sides_ok_def)
  define c where "c = (core s)\<lparr>sdev := (sdev (core s))\<lparr>
      bytes_consumed := bytes_consumed (sdev (core s)) + of_nat n,
      msgs_consumed := msgs_consumed (sdev (core s)) + 1\<rparr>, cpc := C_Idle\<rparr>"
  have "spsc_step (core s) c" unfolding c_def by (rule c_stats [OF n refl])
  from r_run [OF run this] have "reader_step s (s\<lparr>core := c, cside := Wake\<rparr>)"
    using n by (simp add: c_def freed_def)
  moreover have "reader_step (s\<lparr>core := c, cside := Wake\<rparr>) (s\<lparr>core := c, cside := Run,
      pside := wake_side (pside s), w_sync := cons_idx (sdev c)\<rparr>)"
    using r_wake [of "s\<lparr>core := c, cside := Wake\<rparr>"] by simp
  ultimately have "reader_step\<^sup>*\<^sup>* s (s\<lparr>core := c, cside := Run, pside := wake_side (pside s), w_sync := cons_idx (sdev c)\<rparr>)"
    by (meson converse_rtranclp_into_rtranclp r_into_rtranclp)
  moreover have "pside (s\<lparr>core := c, cside := Run, pside := wake_side (pside s), w_sync := cons_idx (sdev c)\<rparr>) = wake_side (pside s)" by simp
  ultimately show ?thesis by blast
qed

section \<open>Properties\<close>

text \<open>
  C7: no wake-up is lost in the lock-free mode. However the steps interleave and however late an
  index is observed, a reader that sleeps although there is a message is about to be woken: the
  producer has published and not yet called \<open>wake_up_interruptible\<close>, and its own next steps put
  the reader back to testing; likewise for a writer that sleeps although there is a free slot. So
  the two never sleep at the same time.
\<close>

theorem spsc_no_lost_wakeup:
  assumes "spsc_ok d" "wake_step\<^sup>*\<^sup>* (wake_start d) s"
  shows "(cside s = Asleep \<and> \<not> kbuf_spsc_is_empty (sdev (core s)) \<longrightarrow>
      reader_due s \<and> (\<exists>s'. writer_step\<^sup>*\<^sup>* s s' \<and> cside s' = Wait)) \<and>
    (pside s = Asleep \<and> \<not> kbuf_spsc_is_full (sdev (core s)) \<longrightarrow>
      writer_due s \<and> (\<exists>s'. reader_step\<^sup>*\<^sup>* s s' \<and> pside s' = Wait)) \<and>
    \<not> (pside s = Asleep \<and> cside s = Asleep)"
proof -
  have inv: "wake_inv (spsc_msgs d) s" by (rule wake_steps_inv [OF assms(2) wake_start_inv [OF assms(1)]])
  have r: "cside s = Asleep \<and> \<not> kbuf_spsc_is_empty (sdev (core s)) \<Longrightarrow> reader_due s"
    and w: "pside s = Asleep \<and> \<not> kbuf_spsc_is_full (sdev (core s)) \<Longrightarrow> writer_due s"
    using inv by (auto simp: wake_inv_def sleepers_ok_def Let_def)
  have "\<not> (pside s = Asleep \<and> cside s = Asleep)"
  proof
    assume a: "pside s = Asleep \<and> cside s = Asleep"
    then have "\<not> reader_due s" "\<not> writer_due s"
      using inv not_due by (auto simp: wake_inv_def sides_ok_def reader_due_def writer_due_def)
    with a r w have "kbuf_spsc_is_empty (sdev (core s))" "kbuf_spsc_is_full (sdev (core s))" by auto
    moreover have "1 \<le> unat (num_buffers (sdev (core s)))"
      using inv by (simp add: wake_inv_def spsc_inv_def spsc_ok_def geom_ok_def)
    ultimately show False by (simp add: kbuf_spsc_is_empty_def kbuf_spsc_is_full_def)
  qed
  with r w reader_due_wakes [OF inv] writer_due_wakes [OF inv] show ?thesis by fastforce
qed

section \<open>A concrete run\<close>

text \<open>
  A reader finds the ring of the demonstration device empty and sleeps; then the producer publishes
  an empty message. The reader is asleep with a message in the ring, and due to be woken.
\<close>

definition demo_asleep :: wake_sys where
  "demo_asleep = \<lparr>core = (spsc_start demo_spsc)\<lparr>sdev := demo_spsc\<lparr>read_sleeps := 1\<rparr>\<rparr>, pside = Run, cside = Asleep,
     r_sync = prod_idx demo_spsc, w_sync = cons_idx demo_spsc\<rparr>"

lemma wake_trans:
  "wake_step\<^sup>*\<^sup>* a b \<Longrightarrow> writer_step b c \<Longrightarrow> wake_step\<^sup>*\<^sup>* a c" "wake_step\<^sup>*\<^sup>* a b \<Longrightarrow> reader_step b c \<Longrightarrow> wake_step\<^sup>*\<^sup>* a c"
  by (auto simp: wake_step_def intro: rtranclp.rtrancl_into_rtrancl)

lemma demo_falls_asleep: "wake_step\<^sup>*\<^sup>* (wake_start demo_spsc) demo_asleep"
proof -
  let ?c = "(spsc_start demo_spsc)\<lparr>sdev := demo_spsc\<lparr>read_sleeps := 1\<rparr>\<rparr>"
  have l: "may_load a a a" for a :: u32 by (simp add: may_load_def)
  have c: "(spsc_start demo_spsc)\<lparr>sdev := demo_spsc\<lparr>read_sleeps := 1\<rparr>, c_view := prod_idx demo_spsc\<rparr> = ?c"
    by (simp add: spsc_start_def)
  have "reader_step (wake_start demo_spsc) ((wake_start demo_spsc)\<lparr>core := ?c, cside := Wait\<rparr>)"
    using r_wait [of "wake_start demo_spsc" "prod_idx demo_spsc", OF _ _ _ _ refl] l
    by (simp add: wake_start_def spsc_start_def empty_at_def demo_simps)
  moreover have "reader_step ((wake_start demo_spsc)\<lparr>core := ?c, cside := Wait\<rparr>)
      ((wake_start demo_spsc)\<lparr>core := ?c, cside := Queued False\<rparr>)"
    using r_queue [of "(wake_start demo_spsc)\<lparr>core := ?c, cside := Wait\<rparr>"] by simp
  moreover have "reader_step ((wake_start demo_spsc)\<lparr>core := ?c, cside := Queued False\<rparr>)
      ((wake_start demo_spsc)\<lparr>core := ?c, cside := Tested False\<rparr>)"
    using r_test [of "(wake_start demo_spsc)\<lparr>core := ?c, cside := Queued False\<rparr>" False "prod_idx demo_spsc"] l
    by (simp add: wake_start_def spsc_start_def empty_at_def demo_simps)
  moreover have "reader_step ((wake_start demo_spsc)\<lparr>core := ?c, cside := Tested False\<rparr>) demo_asleep"
    using r_sleep [of "(wake_start demo_spsc)\<lparr>core := ?c, cside := Tested False\<rparr>" False]
    by (simp add: wake_start_def demo_asleep_def)
  ultimately show ?thesis by (meson wake_trans(2) rtranclp.rtrancl_refl)
qed

theorem spsc_no_lost_wakeup_witness:
  "\<exists>s. wake_step\<^sup>*\<^sup>* (wake_start demo_spsc) s \<and> cside s = Asleep \<and> \<not> kbuf_spsc_is_empty (sdev (core s)) \<and>
     reader_due s \<and> (\<exists>s'. writer_step\<^sup>*\<^sup>* s s' \<and> cside s' = Wait)"
proof -
  let ?c0 = "core demo_asleep"
  let ?c1 = "?c0\<lparr>p_view := cons_idx demo_spsc, ppc := P_Copy [] 0\<rparr>"
  let ?c2 = "?c1\<lparr>sdev := put_slot (pslot demo_spsc) ((slots demo_spsc ! pslot demo_spsc)\<lparr>len := 0\<rparr>) (sdev ?c1), ppc := P_Filled []\<rparr>"
  let ?c3 = "?c2\<lparr>sdev := (sdev ?c2)\<lparr>prod_idx := prod_idx demo_spsc + 1\<rparr>, ppc := P_Published [], sent := [[]]\<rparr>"
  let ?s = "\<lambda>c. demo_asleep\<lparr>core := c\<rparr>"
  have l: "may_load a a a" for a :: u32 by (simp add: may_load_def)
  have idle: "ppc (spsc_start demo_spsc) = P_Idle" by (simp add: spsc_start_def)
  have "spsc_step ?c0 ?c1"
    using p_start [of ?c0 "sdev ?c0" "cons_idx demo_spsc" "[]" "\<lambda>_. 0" 0] l
    by (simp add: demo_asleep_def spsc_start_def demo_simps)
  moreover have "spsc_step ?c1 ?c2"
    using p_len [of ?c1 "[]" "sdev ?c1" "slots (sdev ?c1) ! pslot (sdev ?c1)"]
    by (simp add: demo_asleep_def spsc_start_def)
  moreover have "spsc_step ?c2 ?c3"
    using p_publish [of ?c2 "[]" "sdev ?c2"] by (simp add: demo_asleep_def spsc_start_def put_slot_def)
  ultimately have "writer_step demo_asleep (?s ?c1)" "writer_step (?s ?c1) (?s ?c2)" "writer_step (?s ?c2) (?s ?c3)"
    using w_run [of demo_asleep ?c1] w_run [of "?s ?c1" ?c2] w_run [of "?s ?c2" ?c3]
    by (simp_all add: demo_asleep_def published_def idle)
  with demo_falls_asleep have "wake_step\<^sup>*\<^sup>* (wake_start demo_spsc) (?s ?c3)" by (meson wake_trans(1))
  moreover have "\<not> kbuf_spsc_is_empty (sdev ?c3)"
    by (simp add: kbuf_spsc_is_empty_def put_slot_def demo_asleep_def demo_simps)
  moreover have "cside (?s ?c3) = Asleep" by (simp add: demo_asleep_def)
  moreover have "spsc_ok demo_spsc" using demo_ok(2) by (simp add: dev_ok_def demo_simps)
  ultimately show ?thesis using spsc_no_lost_wakeup [of demo_spsc "?s ?c3"] by auto
qed

end
