(* ===== verification/Kbuf_Map_Conc.thy ===== *)
theory Kbuf_Map_Conc
  imports Kbuf_Libkbuf
begin

text \<open>
  The user-space library with its producer and its consumer running at the same time. Each takes the
  steps of \<open>kbuf_map_write\<close> or \<open>kbuf_map_read\<close> (include/libkbuf.h): the acquire load of the
  other side's index, the bytes of \<open>memcpy\<close> one by one in any order, the release store of its own
  index. Any interleaving is possible, and an acquire load may return an old value of the index, only
  never one older than it returned before.
\<close>

section \<open>The two processes\<close>

text \<open>
  A producer in \<open>memcpy\<close> has the bytes to write and the set of those written; a consumer the number
  of bytes to read and what it has read of them.
\<close>

datatype map_producer = MP_Idle | MP_Copy "u8 list" "nat set"
datatype map_consumer = MC_Idle | MC_Copy nat "nat \<rightharpoonup> u8"

record map_sys =
  mdev :: kbuf_dev
  mpc :: map_producer
  mcc :: map_consumer
  tail_seen :: u64
  head_seen :: u64
  written :: "u8 list"
  taken :: "u8 list"

text \<open>The offset in the mapping of the byte an index stands for, and the clamped count.\<close>

definition map_off :: "kbuf_map \<Rightarrow> u64 \<Rightarrow> nat" where
  "map_off m x = nat (km_data m - km_base m) + unat (x AND (km_cap m - 1))"

definition write_count :: "kbuf_map \<Rightarrow> map_sys \<Rightarrow> u64 \<Rightarrow> u64 \<Rightarrow> u64" where
  "write_count m s t n = (let space = km_cap m - (head (ctrl_page (mdev s)) - t) in if n > space then space else n)"

definition read_count :: "map_sys \<Rightarrow> u64 \<Rightarrow> u64 \<Rightarrow> u64" where
  "read_count s h n = (let avail = h - tail (ctrl_page (mdev s)) in if n > avail then avail else n)"

section \<open>Steps\<close>

inductive map_step :: "nat \<Rightarrow> kbuf_map \<Rightarrow> map_sys \<Rightarrow> map_sys \<Rightarrow> bool" for ps m where
  mp_none: "\<lbrakk>mpc s = MP_Idle; may_load (tail_seen s) (tail (ctrl_page (mdev s))) t; write_count m s t n = 0\<rbrakk>
    \<Longrightarrow> map_step ps m s (s\<lparr>tail_seen := t\<rparr>)"
| mp_start: "\<lbrakk>mpc s = MP_Idle; may_load (tail_seen s) (tail (ctrl_page (mdev s))) t; write_count m s t n \<noteq> 0\<rbrakk>
    \<Longrightarrow> map_step ps m s (s\<lparr>tail_seen := t, mpc := MP_Copy (ubytes buf (unat (write_count m s t n))) {}\<rparr>)"
| mp_copy: "\<lbrakk>mpc s = MP_Copy bs S; i < length bs;
      memcpy_to ps (mdev s) (map_off m (head (ctrl_page (mdev s))) + i) [bs ! i] = Some d\<rbrakk>
    \<Longrightarrow> map_step ps m s (s\<lparr>mdev := d, mpc := MP_Copy bs (insert i S)\<rparr>)"
| mp_publish: "\<lbrakk>mpc s = MP_Copy bs S; {..<length bs} \<subseteq> S; d = mdev s\<rbrakk>
    \<Longrightarrow> map_step ps m s (s\<lparr>mdev := d\<lparr>ctrl_page := (ctrl_page d)\<lparr>head := head (ctrl_page d) + of_nat (length bs)\<rparr>\<rparr>,
          mpc := MP_Idle, written := written s @ bs\<rparr>)"
| mc_none: "\<lbrakk>mcc s = MC_Idle; may_load (head_seen s) (head (ctrl_page (mdev s))) h; read_count s h n = 0\<rbrakk>
    \<Longrightarrow> map_step ps m s (s\<lparr>head_seen := h\<rparr>)"
| mc_start: "\<lbrakk>mcc s = MC_Idle; may_load (head_seen s) (head (ctrl_page (mdev s))) h; read_count s h n \<noteq> 0\<rbrakk>
    \<Longrightarrow> map_step ps m s (s\<lparr>head_seen := h, mcc := MC_Copy (unat (read_count s h n)) Map.empty\<rparr>)"
| mc_copy: "\<lbrakk>mcc s = MC_Copy k acc; i < k;
      memcpy_from ps (mdev s) (map_off m (tail (ctrl_page (mdev s))) + i) 1 = Some [b]\<rbrakk>
    \<Longrightarrow> map_step ps m s (s\<lparr>mcc := MC_Copy k (acc(i \<mapsto> b))\<rparr>)"
| mc_publish: "\<lbrakk>mcc s = MC_Copy k acc; {..<k} \<subseteq> dom acc; d = mdev s\<rbrakk>
    \<Longrightarrow> map_step ps m s (s\<lparr>mdev := d\<lparr>ctrl_page := (ctrl_page d)\<lparr>tail := tail (ctrl_page d) + of_nat k\<rparr>\<rparr>,
          mcc := MC_Idle, taken := taken s @ map (\<lambda>i. the (acc i)) [0..<k]\<rparr>)"

definition map_start :: "kbuf_dev \<Rightarrow> map_sys" where
  "map_start d = \<lparr>mdev = d, mpc = MP_Idle, mcc = MC_Idle, tail_seen = tail (ctrl_page d),
     head_seen = head (ctrl_page d), written = [], taken = []\<rparr>"

section \<open>The invariant\<close>

text \<open>Place of the \<open>i\<close>-th byte after an index in the data pages.\<close>

abbreviation place :: "u64 \<Rightarrow> nat \<Rightarrow> nat" where
  "place x i \<equiv> (unat x + i) mod KBUF_MMAP_CAPACITY"

definition seen_ok :: "u64 \<Rightarrow> u64 \<Rightarrow> u64 \<Rightarrow> u64 \<Rightarrow> bool" where
  "seen_ok ts t hs h \<longleftrightarrow> unat (t - ts) + unat (h - t) = unat (h - ts) \<and> unat (h - ts) \<le> KBUF_MMAP_CAPACITY \<and>
     unat (hs - t) + unat (h - hs) = unat (h - t)"

fun mp_ok :: "u64 \<Rightarrow> u64 \<Rightarrow> u8 list \<Rightarrow> map_producer \<Rightarrow> bool" where
  "mp_ok ts h xs MP_Idle = True"
| "mp_ok ts h xs (MP_Copy bs S) = (unat (h - ts) + length bs \<le> KBUF_MMAP_CAPACITY \<and>
     (\<forall>i \<in> S. i < length bs \<and> xs ! place h i = bs ! i))"

fun mc_ok :: "u64 \<Rightarrow> u64 \<Rightarrow> u8 list \<Rightarrow> map_consumer \<Rightarrow> bool" where
  "mc_ok hs t xs MC_Idle = True"
| "mc_ok hs t xs (MC_Copy k acc) = (k \<le> unat (hs - t) \<and>
     (\<forall>i b. acc i = Some b \<longrightarrow> i < k \<and> b = xs ! place t i))"

definition map_inv :: "nat \<Rightarrow> kbuf_map \<Rightarrow> u8 list \<Rightarrow> map_sys \<Rightarrow> bool" where
  "map_inv ps m q s \<longleftrightarrow> (let d = mdev s; h = head (ctrl_page d); t = tail (ctrl_page d) in
     map_ok ps m d \<and> seen_ok (tail_seen s) t (head_seen s) h \<and>
     mp_ok (tail_seen s) h (data_bytes d) (mpc s) \<and> mc_ok (head_seen s) t (data_bytes d) (mcc s) \<and>
     q @ written s = taken s @ map_bytes d)"

section \<open>Copies\<close>

lemma map_off_eq:
  assumes "map_ok ps m d"
  shows "map_off m x = ps + unat x mod KBUF_MMAP_CAPACITY"
  using assms by (simp add: map_off_def map_ok_def unat_mask_cap)

lemma copy_byte_to:
  assumes "map_ok ps m d" "i < KBUF_MMAP_CAPACITY"
  shows "memcpy_to ps d (map_off m x + i) [b] = Some (d\<lparr>data_bytes := (data_bytes d)[place x i := b]\<rparr>)"
proof -
  have "0 < ps" "ps dvd KBUF_MMAP_CAPACITY" and len: "length (data_bytes d) = KBUF_MMAP_CAPACITY"
    using assms(1) by (auto simp: map_ok_def)
  moreover have "unat x mod KBUF_MMAP_CAPACITY + i + length [b] \<le> 2 * KBUF_MMAP_CAPACITY"
    using assms(2) mod_less_divisor [of KBUF_MMAP_CAPACITY "unat x"] by (simp add: KBUF_MMAP_CAPACITY_def)
  ultimately show ?thesis
    using memcpy_to_fill [of ps d "unat x mod KBUF_MMAP_CAPACITY + i" "[b]"]
    by (simp add: map_off_eq [OF assms(1)] add.assoc mod_add_left_eq)
qed

lemma copy_byte_from:
  assumes "map_ok ps m d" "i < KBUF_MMAP_CAPACITY"
  shows "memcpy_from ps d (map_off m x + i) 1 = Some [data_bytes d ! place x i]"
proof -
  have "0 < ps" "ps dvd KBUF_MMAP_CAPACITY" and len: "length (data_bytes d) = KBUF_MMAP_CAPACITY"
    using assms(1) by (auto simp: map_ok_def)
  moreover have "unat x mod KBUF_MMAP_CAPACITY + i + 1 \<le> 2 * KBUF_MMAP_CAPACITY"
    using assms(2) mod_less_divisor [of KBUF_MMAP_CAPACITY "unat x"] by (simp add: KBUF_MMAP_CAPACITY_def)
  ultimately show ?thesis
    using memcpy_from_window [of ps d "unat x mod KBUF_MMAP_CAPACITY + i" 1]
    by (simp add: map_off_eq [OF assms(1)] add.assoc mod_add_left_eq window_def)
qed

text \<open>Places past the head are counted on from the tail.\<close>

lemma place_head: "place h i = place t (unat (h - t) + i)"
proof -
  have "place h i = (unat h mod KBUF_MMAP_CAPACITY + i) mod KBUF_MMAP_CAPACITY" by (simp add: mod_add_left_eq)
  also have "unat h mod KBUF_MMAP_CAPACITY = place t (unat (h - t))" using unat_add_mod_cap [of t "h - t"] by simp
  also have "(place t (unat (h - t)) + i) mod KBUF_MMAP_CAPACITY = place t (unat (h - t) + i)"
    by (simp add: mod_add_left_eq add.assoc)
  finally show ?thesis .
qed

text \<open>A byte the producer may write is neither in flight nor being read.\<close>

lemma place_outside:
  assumes "j < unat (h - t)" "unat (h - t) + i < KBUF_MMAP_CAPACITY"
  shows "place h i \<noteq> place t j"
  using mod_add_cong_less [of "unat t" "unat (h - t) + i" KBUF_MMAP_CAPACITY j] assms
  unfolding place_head [of h i t] by auto

section \<open>Steps keep the invariant\<close>

lemma map_invD:
  assumes "map_inv ps m q s"
  shows "map_ok ps m (mdev s)" "length (data_bytes (mdev s)) = KBUF_MMAP_CAPACITY"
    "seen_ok (tail_seen s) (tail (ctrl_page (mdev s))) (head_seen s) (head (ctrl_page (mdev s)))"
    "mp_ok (tail_seen s) (head (ctrl_page (mdev s))) (data_bytes (mdev s)) (mpc s)"
    "mc_ok (head_seen s) (tail (ctrl_page (mdev s))) (data_bytes (mdev s)) (mcc s)"
    "q @ written s = taken s @ map_bytes (mdev s)"
  using assms by (auto simp: map_inv_def Let_def map_ok_def)

lemma load_tail_inv:
  assumes inv: "map_inv ps m q s" and t: "may_load (tail_seen s) (tail (ctrl_page (mdev s))) t" "mpc s = MP_Idle"
  shows "map_inv ps m q (s\<lparr>tail_seen := t\<rparr>)"
proof -
  note l = load_cons [OF _ t(1), of "head (ctrl_page (mdev s))"]
  have "seen_ok t (tail (ctrl_page (mdev s))) (head_seen s) (head (ctrl_page (mdev s)))"
    using map_invD(3) [OF inv] l by (auto simp: seen_ok_def)
  with inv t(2) show ?thesis by (simp add: map_inv_def Let_def)
qed

lemma load_head_inv:
  assumes inv: "map_inv ps m q s" and h: "may_load (head_seen s) (head (ctrl_page (mdev s))) h" "mcc s = MC_Idle"
  shows "map_inv ps m q (s\<lparr>head_seen := h\<rparr>)"
proof -
  have "seen_ok (tail_seen s) (tail (ctrl_page (mdev s))) h (head (ctrl_page (mdev s)))"
    using map_invD(3) [OF inv] load_prod [OF _ h(1)] by (auto simp: seen_ok_def)
  with inv h(2) show ?thesis by (simp add: map_inv_def Let_def)
qed

lemma write_count_room:
  assumes "map_ok ps m (mdev s)" "unat (head (ctrl_page (mdev s)) - t) \<le> KBUF_MMAP_CAPACITY"
  shows "unat (head (ctrl_page (mdev s)) - t) + unat (write_count m s t n) \<le> KBUF_MMAP_CAPACITY"
proof -
  let ?h = "head (ctrl_page (mdev s))"
  have "km_cap m = of_nat KBUF_MMAP_CAPACITY" using assms(1) by (simp add: map_ok_def)
  then have "unat (km_cap m - (?h - t)) = KBUF_MMAP_CAPACITY - unat (?h - t)"
    using assms(2) by (simp only:) (subst unat_sub_exact, simp_all add: word_le_nat_alt unat_cap)
  with assms(2) show ?thesis by (auto simp: write_count_def Let_def word_less_nat_alt)
qed

lemma read_count_avail: "unat (read_count s h n) \<le> unat (h - tail (ctrl_page (mdev s)))"
  by (simp add: read_count_def Let_def word_less_nat_alt)

lemma mp_copy_inv:
  assumes inv: "map_inv ps m q s" and pc: "mpc s = MP_Copy bs S" "i < length bs"
    and d: "d = (mdev s)\<lparr>data_bytes := (data_bytes (mdev s))[place (head (ctrl_page (mdev s))) i := bs ! i]\<rparr>"
  shows "map_inv ps m q (s\<lparr>mdev := d, mpc := MP_Copy bs (insert i S)\<rparr>)"
proof -
  let ?h = "head (ctrl_page (mdev s))" and ?t = "tail (ctrl_page (mdev s))" and ?C = KBUF_MMAP_CAPACITY
  note i = map_invD [OF inv]
  have room: "unat (?h - tail_seen s) + length bs \<le> ?C" using i(4) pc(1) by simp
  then have out: "place ?h i \<noteq> place ?t j" if "j < unat (?h - ?t)" for j
    using that i(3) pc(2) by (intro place_outside) (auto simp: seen_ok_def)
  have pl: "place x j < length (data_bytes (mdev s))" for x j by (simp add: i(2) KBUF_MMAP_CAPACITY_def)
  have "data_bytes d ! place ?h j = bs ! j" if "j \<in> insert i S" for j
  proof (cases "place ?h i = place ?h j")
    case True
    have "i < ?C" "j < ?C" using that i(4) pc room by auto
    with True have "i = j" by (rule mod_add_cong_less)
    then show ?thesis using pl by (simp add: d)
  next
    case False
    then show ?thesis using that i(4) pc(1) by (auto simp: d)
  qed
  then have "mp_ok (tail_seen s) ?h (data_bytes d) (MP_Copy bs (insert i S))"
    using i(4) pc room by auto
  moreover have "mc_ok (head_seen s) ?t (data_bytes d) (mcc s)"
  proof (cases "mcc s")
    case (MC_Copy k acc)
    have "data_bytes d ! place ?t j = data_bytes (mdev s) ! place ?t j" if "acc j = Some b" for j b
    proof -
      have "j < unat (?h - ?t)" using i(3,5) MC_Copy that by (fastforce simp: seen_ok_def)
      from out [OF this] show ?thesis by (simp add: d)
    qed
    then show ?thesis using i(5) MC_Copy by auto
  qed simp
  moreover have "map_bytes d = map_bytes (mdev s)"
    by (rule nth_equalityI) (use out in \<open>auto simp: map_bytes_def d i(2)\<close>)
  moreover have "map_ok ps m d" using i(1) by (simp add: map_ok_def d)
  ultimately show ?thesis using i(3,6) by (simp add: map_inv_def d Let_def)
qed

lemma unat_of_nat_cap: "k \<le> KBUF_MMAP_CAPACITY \<Longrightarrow> unat (of_nat k :: u64) = k"
  by (simp add: unat_of_nat KBUF_MMAP_CAPACITY_def)

lemma mp_publish_inv:
  assumes inv: "map_inv ps m q s" and pc: "mpc s = MP_Copy bs S" "{..<length bs} \<subseteq> S"
    and d: "d = (mdev s)\<lparr>ctrl_page := (ctrl_page (mdev s))\<lparr>head := head (ctrl_page (mdev s)) + of_nat (length bs)\<rparr>\<rparr>"
  shows "map_inv ps m q (s\<lparr>mdev := d, mpc := MP_Idle, written := written s @ bs\<rparr>)"
proof -
  let ?h = "head (ctrl_page (mdev s))" and ?t = "tail (ctrl_page (mdev s))" and ?C = KBUF_MMAP_CAPACITY
  let ?n = "of_nat (length bs) :: u64"
  note i = map_invD [OF inv]
  have room: "unat (?h - tail_seen s) + length bs \<le> ?C" using i(4) pc(1) by simp
  then have n: "unat ?n = length bs" by (intro unat_of_nat_cap) simp
  have add: "unat (?h + ?n - x) = unat (?h - x) + length bs" if "unat (?h - x) + length bs \<le> ?C" for x
  proof -
    have "?h + ?n - x = (?h - x) + ?n" by simp
    then show ?thesis using that n by (simp only:) (subst unat_add_exact, simp_all add: KBUF_MMAP_CAPACITY_def)
  qed
  have le: "unat (?h - ?t) + length bs \<le> ?C" "unat (?h - head_seen s) + length bs \<le> ?C"
    using i(3) room by (auto simp: seen_ok_def)
  note adds = add [OF room] add [OF le(1)] add [OF le(2)]
  have seen: "seen_ok (tail_seen s) ?t (head_seen s) (?h + ?n)" using i(3) room by (simp add: seen_ok_def adds)
  have ok: "map_ok ps m d" using i(1) le(1) by (simp add: map_ok_def d adds)
  have "window (data_bytes (mdev s)) (unat ?t + unat (?h - ?t)) (length bs) = bs"
  proof (rule nth_equalityI)
    fix j assume "j < length (window (data_bytes (mdev s)) (unat ?t + unat (?h - ?t)) (length bs))"
    then have j: "j < length bs" by simp
    have "place ?h j = (unat ?t + unat (?h - ?t) + j) mod ?C" using place_head [of ?h j ?t] by (simp add: add.assoc)
    moreover have "data_bytes (mdev s) ! place ?h j = bs ! j" using i(4) pc j by auto
    ultimately show "window (data_bytes (mdev s)) (unat ?t + unat (?h - ?t)) (length bs) ! j = bs ! j"
      using j i(2) by simp
  qed simp
  then have "map_bytes d = map_bytes (mdev s) @ bs" by (simp add: map_bytes_def d adds window_add)
  with seen ok i(5,6) show ?thesis by (simp add: map_inv_def d Let_def)
qed

lemma mc_publish_inv:
  assumes inv: "map_inv ps m q s" and pc: "mcc s = MC_Copy k acc" "{..<k} \<subseteq> dom acc"
    and d: "d = (mdev s)\<lparr>ctrl_page := (ctrl_page (mdev s))\<lparr>tail := tail (ctrl_page (mdev s)) + of_nat k\<rparr>\<rparr>"
  shows "map_inv ps m q (s\<lparr>mdev := d, mcc := MC_Idle, taken := taken s @ map (\<lambda>i. the (acc i)) [0..<k]\<rparr>)"
proof -
  let ?h = "head (ctrl_page (mdev s))" and ?t = "tail (ctrl_page (mdev s))" and ?C = KBUF_MMAP_CAPACITY
  let ?k = "of_nat k :: u64"
  note i = map_invD [OF inv]
  have k: "k \<le> unat (head_seen s - ?t)" using i(5) pc(1) by simp
  have used: "unat (?h - ?t) \<le> ?C" and ku: "k \<le> unat (?h - ?t)" using i(3) k by (auto simp: seen_ok_def)
  then have n: "unat ?k = k" by (intro unat_of_nat_cap) simp
  have sub: "unat (x - (?t + ?k)) = unat (x - ?t) - k" if "k \<le> unat (x - ?t)" for x
  proof -
    have "x - (?t + ?k) = (x - ?t) - ?k" by simp
    then show ?thesis using that n by (simp only:) (subst unat_sub_exact, simp_all add: word_le_nat_alt)
  qed
  have "?t + ?k - tail_seen s = (?t - tail_seen s) + ?k" by simp
  then have ts: "unat (?t + ?k - tail_seen s) = unat (?t - tail_seen s) + k"
    using i(3) ku n by (simp only:) (subst unat_add_exact, simp_all add: seen_ok_def KBUF_MMAP_CAPACITY_def)
  have seen: "seen_ok (tail_seen s) (?t + ?k) (head_seen s) ?h"
    using i(3) k ku by (simp add: seen_ok_def sub [OF k] sub [OF ku] ts)
  have ok: "map_ok ps m d" using i(1) used by (simp add: map_ok_def d sub [OF ku])
  have out: "map (\<lambda>i. the (acc i)) [0..<k] = window (data_bytes (mdev s)) (unat ?t) k"
  proof (rule nth_equalityI)
    fix j assume "j < length (map (\<lambda>i. the (acc i)) [0..<k])"
    then have j: "j < k" by simp
    then obtain b where b: "acc j = Some b" using pc(2) by (auto simp: dom_def)
    then have "b = data_bytes (mdev s) ! place ?t j" using i(5) pc(1) by simp
    with j b show "map (\<lambda>i. the (acc i)) [0..<k] ! j = window (data_bytes (mdev s)) (unat ?t) k ! j"
      by (simp add: i(2))
  qed simp
  have "unat (?t + ?k) mod ?C = (unat ?t + k) mod ?C" using unat_add_mod_cap [of ?t ?k] n by simp
  from window_cap_cong [OF i(2) this]
  have "map_bytes d = window (data_bytes (mdev s)) (unat ?t + k) (unat (?h - ?t) - k)"
    by (simp add: map_bytes_def d sub [OF ku])
  then have "map_bytes (mdev s) = map (\<lambda>i. the (acc i)) [0..<k] @ map_bytes d"
    using ku window_add [of "data_bytes (mdev s)" "unat ?t" k "unat (?h - ?t) - k"] by (simp add: out map_bytes_def)
  with seen ok i(4,6) show ?thesis by (simp add: map_inv_def d Let_def)
qed

lemma map_step_inv:
  assumes "map_step ps m s s'" "map_inv ps m q s"
  shows "map_inv ps m q s'"
proof -
  note i = map_invD [OF assms(2)]
  from assms(1) show ?thesis
  proof cases
    case (mp_none t n)
    then show ?thesis using load_tail_inv [OF assms(2)] by simp
  next
    case (mp_start t n buf)
    have l: "map_inv ps m q (s\<lparr>tail_seen := t\<rparr>)" using load_tail_inv [OF assms(2)] mp_start by simp
    have "unat (head (ctrl_page (mdev s)) - t) \<le> KBUF_MMAP_CAPACITY" using map_invD(3) [OF l] by (simp add: seen_ok_def)
    from write_count_room [OF i(1) this, of n] l mp_start(1) show ?thesis by (simp add: map_inv_def Let_def)
  next
    case (mp_copy bs S i' d)
    have "length bs \<le> KBUF_MMAP_CAPACITY" using i(4) mp_copy(2) by simp
    with mp_copy(3) have "i' < KBUF_MMAP_CAPACITY" by simp
    from copy_byte_to [OF i(1) this] mp_copy(4) show ?thesis
      unfolding mp_copy(1) by (intro mp_copy_inv [OF assms(2) mp_copy(2,3)]) simp
  next
    case (mp_publish bs S d)
    then show ?thesis using mp_publish_inv [OF assms(2)] by simp
  next
    case (mc_none h n)
    then show ?thesis using load_head_inv [OF assms(2)] by simp
  next
    case (mc_start h n)
    have l: "map_inv ps m q (s\<lparr>head_seen := h\<rparr>)" using load_head_inv [OF assms(2)] mc_start by simp
    with read_count_avail [of s h n] mc_start(1) show ?thesis by (simp add: map_inv_def Let_def)
  next
    case (mc_copy k acc i' b)
    have "k \<le> KBUF_MMAP_CAPACITY" using i(3,5) mc_copy(2) by (simp add: seen_ok_def)
    with mc_copy(3) have "i' < KBUF_MMAP_CAPACITY" by simp
    from copy_byte_from [OF i(1) this] mc_copy(4) have b: "b = data_bytes (mdev s) ! place (tail (ctrl_page (mdev s))) i'" by simp
    have "mc_ok (head_seen s) (tail (ctrl_page (mdev s))) (data_bytes (mdev s)) (MC_Copy k (acc(i' \<mapsto> b)))"
      using i(5) mc_copy(2,3) b by auto
    then show ?thesis using assms(2) mc_copy(1) by (simp add: map_inv_def Let_def)
  next
    case (mc_publish k acc d)
    then show ?thesis using mc_publish_inv [OF assms(2)] by simp
  qed
qed

lemma map_steps_inv: "(map_step ps m)\<^sup>*\<^sup>* s s' \<Longrightarrow> map_inv ps m q s \<Longrightarrow> map_inv ps m q s'"
  by (induction rule: rtranclp_induct) (auto intro: map_step_inv)

lemma map_start_inv: "map_ok ps m d \<Longrightarrow> map_inv ps m (map_bytes d) (map_start d)"
  by (simp add: map_inv_def map_start_def seen_ok_def map_ok_def)

section \<open>Properties\<close>

text \<open>
  C6: the library is correct under concurrency. However the steps of one producer and one consumer
  interleave, with indices observed late and the bytes of a copy moved in any order, the bytes
  returned by the reads are, in order and exactly once, the bytes published by the writes; every
  byte a process is about to copy lies inside the mapping; and while one is being written and one
  is being read, they are at different places of the ring.
\<close>

theorem map_concurrent_stream:
  assumes "map_ok ps m d" "(map_step ps m)\<^sup>*\<^sup>* (map_start d) s"
    and "h = head (ctrl_page (mdev s))" "t = tail (ctrl_page (mdev s))"
  shows "map_ok ps m (mdev s) \<and> map_bytes d @ written s = taken s @ map_bytes (mdev s) \<and>
    (\<forall>bs S i. mpc s = MP_Copy bs S \<and> i < length bs \<longrightarrow>
      memcpy_to ps (mdev s) (map_off m h + i) [bs ! i] \<noteq> None \<and>
      (\<forall>k acc j. mcc s = MC_Copy k acc \<and> j < k \<longrightarrow> place h i \<noteq> place t j)) \<and>
    (\<forall>k acc j. mcc s = MC_Copy k acc \<and> j < k \<longrightarrow> memcpy_from ps (mdev s) (map_off m t + j) 1 \<noteq> None)"
proof -
  note i = map_invD [OF map_steps_inv [OF assms(2) map_start_inv [OF assms(1)]], folded assms(3,4)]
  have p: "unat (h - t) + length bs \<le> KBUF_MMAP_CAPACITY" if "mpc s = MP_Copy bs S" for bs S
    using i(3,4) that by (auto simp: seen_ok_def)
  have c: "k \<le> unat (h - t)" "k \<le> KBUF_MMAP_CAPACITY" if "mcc s = MC_Copy k acc" for k acc
    using i(3,5) that by (auto simp: seen_ok_def)
  have "memcpy_to ps (mdev s) (map_off m h + j) [bs ! j] \<noteq> None" if "mpc s = MP_Copy bs S" "j < length bs" for bs S j
    using copy_byte_to [OF i(1), of j] p [OF that(1)] that(2) by simp
  moreover have "memcpy_from ps (mdev s) (map_off m t + j) 1 \<noteq> None" if "mcc s = MC_Copy k acc" "j < k" for k acc j
    using copy_byte_from [OF i(1), of j] c(2) [OF that(1)] that(2) by simp
  moreover have "place h i \<noteq> place t j" if "mpc s = MP_Copy bs S" "i < length bs" "mcc s = MC_Copy k acc" "j < k"
    for bs S i k acc j
    using p [OF that(1)] c(1) [OF that(3)] that(2,4) by (intro place_outside) simp_all
  ultimately show ?thesis using i(1,6) by blast
qed

section \<open>One process alone\<close>

lemma memcpy_to_Cons:
  "memcpy_to ps d off (v # vs) = Option.bind (memcpy_to ps d off [v]) (\<lambda>d. memcpy_to ps d (Suc off) vs)"
  by (simp split: option.split)

lemma memcpy_to_ctrl: "memcpy_to ps d off vs = Some d' \<Longrightarrow> ctrl_page d' = ctrl_page d"
  by (induction vs arbitrary: d off) (auto split: option.splits if_splits)

lemma copy_to_steps:
  assumes "mpc s = MP_Copy bs {..<i}" "i \<le> length bs"
    "memcpy_to ps (mdev s) (map_off m (head (ctrl_page (mdev s))) + i) (drop i bs) = Some d"
  shows "(map_step ps m)\<^sup>*\<^sup>* s (s\<lparr>mdev := d, mpc := MP_Copy bs {..<length bs}\<rparr>)"
  using assms
proof (induction "length bs - i" arbitrary: s i)
  case 0
  then have "s\<lparr>mdev := d, mpc := MP_Copy bs {..<length bs}\<rparr> = s" by (cases s) simp
  then show ?case by simp
next
  case (Suc l)
  then have i: "i < length bs" by simp
  then have "drop i bs = bs ! i # drop (Suc i) bs" by (rule Cons_nth_drop_Suc [symmetric])
  with Suc.prems(3) obtain d1 where
    1: "memcpy_to ps (mdev s) (map_off m (head (ctrl_page (mdev s))) + i) [bs ! i] = Some d1"
      "memcpy_to ps d1 (map_off m (head (ctrl_page (mdev s))) + Suc i) (drop (Suc i) bs) = Some d"
    by (auto simp: memcpy_to_Cons [of ps _ _ _ "drop (Suc i) bs"] simp del: memcpy_to.simps split: bind_splits)
  let ?s = "s\<lparr>mdev := d1, mpc := MP_Copy bs {..<Suc i}\<rparr>"
  have "map_step ps m s ?s" using mp_copy [OF Suc.prems(1) i 1(1)] by (simp add: lessThan_Suc)
  moreover have "(map_step ps m)\<^sup>*\<^sup>* ?s (?s\<lparr>mdev := d, mpc := MP_Copy bs {..<length bs}\<rparr>)"
    by (rule Suc.hyps(1) [where i = "Suc i"]) (use Suc.hyps(2) i 1(2) memcpy_to_ctrl [OF 1(1)] in simp_all)
  ultimately show ?case by (simp add: converse_rtranclp_into_rtranclp)
qed

lemma copy_from_steps:
  assumes "mcc s = MC_Copy k acc" "i \<le> k" "dom acc = {..<i}" "map (\<lambda>j. the (acc j)) [0..<i] = out1"
    "memcpy_from ps (mdev s) (map_off m (tail (ctrl_page (mdev s))) + i) (k - i) = Some out2"
  shows "\<exists>acc'. (map_step ps m)\<^sup>*\<^sup>* s (s\<lparr>mcc := MC_Copy k acc'\<rparr>) \<and> dom acc' = {..<k} \<and>
    map (\<lambda>j. the (acc' j)) [0..<k] = out1 @ out2"
  using assms
proof (induction "k - i" arbitrary: s i acc out1 out2)
  case 0
  then have k: "k = i" and e: "s\<lparr>mcc := MC_Copy i acc\<rparr> = s" by (cases s, simp)+
  show ?case using 0 by (intro exI [of _ acc]) (simp add: k e)
next
  case (Suc l)
  then have i: "i < k" and ki: "k - i = Suc (k - Suc i)" by simp_all
  from Suc.prems(5) obtain b bs where
    1: "memcpy_from ps (mdev s) (map_off m (tail (ctrl_page (mdev s))) + i) 1 = Some [b]"
      "memcpy_from ps (mdev s) (map_off m (tail (ctrl_page (mdev s))) + Suc i) (k - Suc i) = Some bs" "out2 = b # bs"
    unfolding ki by (auto split: option.splits if_splits)
  let ?s = "s\<lparr>mcc := MC_Copy k (acc(i \<mapsto> b))\<rparr>"
  have "map_step ps m s ?s" by (rule mc_copy [OF Suc.prems(1) i 1(1)])
  moreover have "\<exists>acc'. (map_step ps m)\<^sup>*\<^sup>* ?s (?s\<lparr>mcc := MC_Copy k acc'\<rparr>) \<and> dom acc' = {..<k} \<and>
      map (\<lambda>j. the (acc' j)) [0..<k] = (out1 @ [b]) @ bs"
    by (rule Suc.hyps(1) [where i = "Suc i" and acc = "acc(i \<mapsto> b)"])
      (use Suc.hyps(2) Suc.prems(3,4) i 1(2) in \<open>auto simp: lessThan_Suc\<close>)
  ultimately show ?case using 1(3) by (auto intro: converse_rtranclp_into_rtranclp)
qed

lemma steps_enclosed: "R a b \<Longrightarrow> R\<^sup>*\<^sup>* b c \<Longrightarrow> R c e \<Longrightarrow> R\<^sup>*\<^sup>* a e"
  by (rule converse_rtranclp_into_rtranclp [of R], assumption, rule rtranclp.rtrancl_into_rtrancl)

lemma may_load_now: "may_load a (b :: u64) b"
  by (simp add: may_load_def)

lemma map_write_cases:
  assumes "kbuf_map_write ps m d buf n = Some (w, d')" "mdev s = d"
  obtains (none) "write_count m s (tail (ctrl_page d)) n = 0" "w = 0" "d' = d"
  | (some) d1 where "w \<noteq> 0" "write_count m s (tail (ctrl_page d)) n = w"
    "memcpy_to ps d (map_off m (head (ctrl_page d))) (ubytes buf (unat w)) = Some d1"
    "d' = d1\<lparr>ctrl_page := (ctrl_page d1)\<lparr>head := head (ctrl_page d) + w\<rparr>\<rparr>"
proof -
  have e: "kbuf_map_write ps m d buf n = (let k = write_count m s (tail (ctrl_page d)) n in
      if k = 0 then Some (0, d) else case memcpy_to ps d (map_off m (head (ctrl_page d))) (ubytes buf (unat k)) of
        None \<Rightarrow> None | Some d1 \<Rightarrow> Some (k, d1\<lparr>ctrl_page := (ctrl_page d1)\<lparr>head := head (ctrl_page d) + k\<rparr>\<rparr>))"
    unfolding kbuf_map_write_def write_count_def map_off_def Let_def assms(2) by (rule refl)
  with assms(1) that show ?thesis unfolding e Let_def by (auto split: if_splits option.splits)
qed

lemma map_read_cases:
  assumes "kbuf_map_read ps m d n = Some (r, out, d')" "mdev s = d"
  obtains (none) "read_count s (head (ctrl_page d)) n = 0" "out = []" "d' = d"
  | (some) k where "k \<noteq> 0" "read_count s (head (ctrl_page d)) n = k"
    "memcpy_from ps d (map_off m (tail (ctrl_page d))) (unat k) = Some out"
    "d' = d\<lparr>ctrl_page := (ctrl_page d)\<lparr>tail := tail (ctrl_page d) + k\<rparr>\<rparr>"
proof -
  have e: "kbuf_map_read ps m d n = (let k = read_count s (head (ctrl_page d)) n in
      if k = 0 then Some (0, [], d) else case memcpy_from ps d (map_off m (tail (ctrl_page d))) (unat k) of
        None \<Rightarrow> None | Some out \<Rightarrow> Some (k, out, d\<lparr>ctrl_page := (ctrl_page d)\<lparr>tail := tail (ctrl_page d) + k\<rparr>\<rparr>))"
    unfolding kbuf_map_read_def read_count_def map_off_def Let_def assms(2) by (rule refl)
  with assms(1) that show ?thesis unfolding e Let_def by (auto split: if_splits option.splits)
qed

text \<open>A whole call of the library, run without interruption, is a sequence of these steps.\<close>

theorem map_write_is_steps:
  assumes s: "mdev s = d" "mpc s = MP_Idle" and run: "kbuf_map_write ps m d buf n = Some (w, d')"
  shows "(map_step ps m)\<^sup>*\<^sup>* s (s\<lparr>mdev := d', tail_seen := tail (ctrl_page d), written := written s @ ubytes buf (unat w)\<rparr>)"
  using run s(1)
proof (cases rule: map_write_cases)
  case none
  have "map_step ps m s (s\<lparr>tail_seen := tail (ctrl_page d)\<rparr>)"
    using mp_none [OF s(2), of "tail (ctrl_page d)" m n ps] may_load_now none(1) s(1) by simp
  moreover have "s\<lparr>mdev := d', tail_seen := tail (ctrl_page d), written := written s @ ubytes buf (unat w)\<rparr> =
      s\<lparr>tail_seen := tail (ctrl_page d)\<rparr>"
    using none(2,3) s(1) by (cases s) simp
  ultimately show ?thesis by (simp only: r_into_rtranclp)
next
  case (some d1)
  let ?bs = "ubytes buf (unat w)"
  let ?s1 = "s\<lparr>tail_seen := tail (ctrl_page d), mpc := MP_Copy ?bs {}\<rparr>"
  let ?s2 = "?s1\<lparr>mdev := d1, mpc := MP_Copy ?bs {..<length ?bs}\<rparr>"
  have "map_step ps m s ?s1"
    using mp_start [OF s(2), of "tail (ctrl_page d)" m n ps buf] may_load_now some(1,2) s(1) by simp
  moreover have "(map_step ps m)\<^sup>*\<^sup>* ?s1 ?s2"
    by (rule copy_to_steps [of _ _ 0]) (use some(3) s(1) in simp_all)
  moreover have "map_step ps m ?s2 (?s2\<lparr>mdev := d', mpc := MP_Idle, written := written s @ ?bs\<rparr>)"
    using mp_publish [of ?s2 ?bs "{..<length ?bs}" d1 ps m] memcpy_to_ctrl [OF some(3)] some(4) by simp
  ultimately have "(map_step ps m)\<^sup>*\<^sup>* s (?s2\<lparr>mdev := d', mpc := MP_Idle, written := written s @ ?bs\<rparr>)"
    by (rule steps_enclosed)
  moreover have "?s2\<lparr>mdev := d', mpc := MP_Idle, written := written s @ ?bs\<rparr> =
      s\<lparr>mdev := d', tail_seen := tail (ctrl_page d), written := written s @ ?bs\<rparr>"
    using s(2) by (cases s) simp
  ultimately show ?thesis by (simp only:)
qed

theorem map_read_is_steps:
  assumes s: "mdev s = d" "mcc s = MC_Idle" and run: "kbuf_map_read ps m d n = Some (r, out, d')"
  shows "(map_step ps m)\<^sup>*\<^sup>* s (s\<lparr>mdev := d', head_seen := head (ctrl_page d), taken := taken s @ out\<rparr>)"
  using run s(1)
proof (cases rule: map_read_cases)
  case none
  have "map_step ps m s (s\<lparr>head_seen := head (ctrl_page d)\<rparr>)"
    using mc_none [OF s(2), of "head (ctrl_page d)" n ps m] may_load_now none(1) s(1) by simp
  moreover have "s\<lparr>mdev := d', head_seen := head (ctrl_page d), taken := taken s @ out\<rparr> =
      s\<lparr>head_seen := head (ctrl_page d)\<rparr>"
    using none(2,3) s(1) by (cases s) simp
  ultimately show ?thesis by (simp only: r_into_rtranclp)
next
  case (some k)
  let ?s1 = "s\<lparr>head_seen := head (ctrl_page d), mcc := MC_Copy (unat k) Map.empty\<rparr>"
  have 1: "map_step ps m s ?s1"
    using mc_start [OF s(2), of "head (ctrl_page d)" n ps m] may_load_now some(1,2) s(1) by simp
  have "memcpy_from ps (mdev ?s1) (map_off m (tail (ctrl_page (mdev ?s1))) + 0) (unat k - 0) = Some out"
    using some(3) s(1) by simp
  from copy_from_steps [OF _ _ _ _ this, of Map.empty "[]"] obtain acc where
    2: "(map_step ps m)\<^sup>*\<^sup>* ?s1 (?s1\<lparr>mcc := MC_Copy (unat k) acc\<rparr>)"
    and acc: "dom acc = {..<unat k}" "map (\<lambda>j. the (acc j)) [0..<unat k] = out" by auto
  let ?s2 = "?s1\<lparr>mcc := MC_Copy (unat k) acc\<rparr>"
  have "map_step ps m ?s2 (?s2\<lparr>mdev := d', mcc := MC_Idle, taken := taken s @ out\<rparr>)"
    using mc_publish [of ?s2 "unat k" acc d ps m] acc some(4) s(1) by simp
  with 1 2 have "(map_step ps m)\<^sup>*\<^sup>* s (?s2\<lparr>mdev := d', mcc := MC_Idle, taken := taken s @ out\<rparr>)"
    by (rule steps_enclosed)
  moreover have "?s2\<lparr>mdev := d', mcc := MC_Idle, taken := taken s @ out\<rparr> =
      s\<lparr>mdev := d', head_seen := head (ctrl_page d), taken := taken s @ out\<rparr>"
    using s(2) by (cases s) simp
  ultimately show ?thesis by (simp only:)
qed

section \<open>A concrete run\<close>

text \<open>Three bytes have been written to an empty ring and a reader is about to copy two of them.\<close>

theorem map_concurrent_stream_witness:
  "\<exists>s. (map_step 4096 demo_map)\<^sup>*\<^sup>* (map_start demo_shared) s \<and> mcc s = MC_Copy 2 Map.empty \<and>
     [7, 7, 7] = taken s @ map_bytes (mdev s) \<and>
     memcpy_from 4096 (mdev s) (map_off demo_map (tail (ctrl_page (mdev s))) + 1) 1 \<noteq> None"
proof -
  have k: "min (unat (3 :: u64)) (KBUF_MMAP_CAPACITY - length (map_bytes demo_shared)) = 3"
    unfolding demo_map_bytes by (simp add: KBUF_MMAP_CAPACITY_def)
  from map_write_appends [OF demo_map_ok k [symmetric], of "\<lambda>_. 7"] obtain d where
    d: "kbuf_map_write 4096 demo_map demo_shared (\<lambda>_. 7) 3 = Some (3, d)" "map_bytes d = [7, 7, 7]"
    by (auto simp: demo_map_bytes eval_nat_numeral)
  let ?s1 = "(map_start demo_shared)\<lparr>mdev := d, tail_seen := tail (ctrl_page demo_shared),
    written := written (map_start demo_shared) @ ubytes (\<lambda>_. 7) (unat (3 :: u64))\<rparr>"
  let ?s = "?s1\<lparr>head_seen := head (ctrl_page d), mcc := MC_Copy 2 Map.empty\<rparr>"
  have 1: "(map_step 4096 demo_map)\<^sup>*\<^sup>* (map_start demo_shared) ?s1"
    by (rule map_write_is_steps [OF _ _ d(1)]) (simp_all add: map_start_def)
  have "unat (head (ctrl_page d) - tail (ctrl_page d)) = 3" using d(2) by (simp flip: length_map_bytes)
  then have "read_count ?s1 (head (ctrl_page d)) 2 = 2" by (simp add: read_count_def Let_def word_less_nat_alt)
  then have "map_step 4096 demo_map ?s1 ?s"
    using mc_start [of ?s1 "head (ctrl_page d)" 2 4096 demo_map] may_load_now by (simp add: map_start_def)
  with 1 have r: "(map_step 4096 demo_map)\<^sup>*\<^sup>* (map_start demo_shared) ?s" by (rule rtranclp.rtrancl_into_rtrancl)
  have "mcc ?s = MC_Copy 2 Map.empty" "(1 :: nat) < 2" by simp_all
  with map_concurrent_stream [OF demo_map_ok r refl refl]
  have "memcpy_from 4096 (mdev ?s) (map_off demo_map (tail (ctrl_page (mdev ?s))) + 1) 1 \<noteq> None" by blast
  with r show ?thesis by (intro exI [of _ ?s] conjI) (simp_all only: d(2) map_sys.simps map_start_def append_Nil not_False_eq_True)
qed

end
