(* ===== verification/Kbuf_Wait.thy ===== *)
theory Kbuf_Wait
  imports Kbuf_Ioctl
begin

text \<open>
  The blocking mode with any number of readers and writers running at the same time. Each thread
  takes the steps of \<open>kbuf_read_blocking\<close> or \<open>kbuf_write_blocking\<close>
  (src/kbuf_main.c): lock, test, unlock and wait, test again, transfer and unlock, wake the other
  side. \<open>wait_event_interruptible\<close> is the kernel's documented loop: put the thread on the
  queue, test the condition without the lock, sleep unless woken since, start again when woken;
  \<open>wake_up_interruptible\<close> wakes every thread of the queue, since none waits exclusively.
  Reconfiguration while calls are in progress is not part of these steps; the slot size does not
  change, so a write clamps its count to the same value here, at the transfer, as the code does when
  it first has the lock.
\<close>

section \<open>Threads\<close>

datatype task =
    T_Idle | T_Start | T_Locked | T_Wait | T_Queued bool | T_Asleep | T_Relock | T_Wake reply | T_Exit reply

text \<open>
  \<open>T_Queued w\<close>: on the wait queue and still running, \<open>w\<close> telling whether a wake-up has
  arrived since. \<open>hist\<close> lists the transfers in the order they happened.
\<close>

record wait_sys =
  bdev :: kbuf_dev
  owner :: "nat option"
  pc :: "nat \<Rightarrow> task"
  hist :: "(call \<times> reply) list"

fun wq_of :: "call \<Rightarrow> wq" where
  "wq_of (Read n) = READ_WQ"
| "wq_of (Write ub n) = WRITE_WQ"

fun wakes :: "call \<Rightarrow> wq" where
  "wakes (Read n) = WRITE_WQ"
| "wakes (Write ub n) = READ_WQ"

fun ready :: "call \<Rightarrow> kbuf_dev \<Rightarrow> bool" where
  "ready (Read n) d \<longleftrightarrow> \<not> kbuf_ring_is_empty d"
| "ready (Write ub n) d \<longleftrightarrow> \<not> kbuf_ring_is_full d"

fun count_sleep :: "call \<Rightarrow> kbuf_dev \<Rightarrow> kbuf_dev" where
  "count_sleep (Read n) d = d\<lparr>read_sleeps := read_sleeps d + 1\<rparr>"
| "count_sleep (Write ub n) d = d\<lparr>write_sleeps := write_sleeps d + 1\<rparr>"

fun transfer :: "uaccess \<Rightarrow> call \<Rightarrow> kbuf_dev \<Rightarrow> (nat result \<times> u8 list \<times> kbuf_dev) option" where
  "transfer u (Read n) d = kbuf_ring_consume u d n"
| "transfer u (Write ub n) d = map_option (\<lambda>(r, d'). (r, [], d'))
     (kbuf_ring_produce u d ub (min n (unat (buffer_size d))))"

definition wait_reply :: "nat result \<Rightarrow> u8 list \<Rightarrow> reply" where
  "wait_reply r out = (case r of Inl e \<Rightarrow> Failed e | Inr k \<Rightarrow> Done k out)"

definition after_unlock :: "nat result \<Rightarrow> u8 list \<Rightarrow> task" where
  "after_unlock r out = (if isl r then T_Exit (wait_reply r out) else T_Wake (wait_reply r out))"

fun wake_task :: "task \<Rightarrow> task" where
  "wake_task T_Asleep = T_Wait"
| "wake_task (T_Queued w) = T_Queued True"
| "wake_task p = p"

definition wake_up :: "(nat \<Rightarrow> call) \<Rightarrow> wq \<Rightarrow> (nat \<Rightarrow> task) \<Rightarrow> nat \<Rightarrow> task" where
  "wake_up prog q p t = (if wq_of (prog t) = q then wake_task (p t) else p t)"

section \<open>Steps\<close>

inductive task_step :: "(nat \<Rightarrow> call) \<Rightarrow> (nat \<Rightarrow> bool) \<Rightarrow> (nat \<Rightarrow> uaccess) \<Rightarrow> wait_sys \<Rightarrow> wait_sys \<Rightarrow> bool"
  for prog nonblock mem where
  lock: "\<lbrakk>pc s t = T_Start \<or> pc s t = T_Relock; owner s = None\<rbrakk>
    \<Longrightarrow> task_step prog nonblock mem s (s\<lparr>owner := Some t, pc := (pc s)(t := T_Locked)\<rparr>)"
| again: "\<lbrakk>pc s t = T_Locked; \<not> ready (prog t) (bdev s); nonblock t\<rbrakk>
    \<Longrightarrow> task_step prog nonblock mem s (s\<lparr>owner := None, pc := (pc s)(t := T_Exit (Failed EAGAIN))\<rparr>)"
| give_up: "\<lbrakk>pc s t = T_Locked; \<not> ready (prog t) (bdev s); \<not> nonblock t\<rbrakk>
    \<Longrightarrow> task_step prog nonblock mem s (s\<lparr>bdev := count_sleep (prog t) (bdev s), owner := None,
          pc := (pc s)(t := T_Wait)\<rparr>)"
| enqueue: "pc s t = T_Wait \<Longrightarrow> task_step prog nonblock mem s (s\<lparr>pc := (pc s)(t := T_Queued False)\<rparr>)"
| go_on: "\<lbrakk>pc s t = T_Queued w; ready (prog t) (bdev s)\<rbrakk>
    \<Longrightarrow> task_step prog nonblock mem s (s\<lparr>pc := (pc s)(t := T_Relock)\<rparr>)"
| retry: "\<lbrakk>pc s t = T_Queued True; \<not> ready (prog t) (bdev s)\<rbrakk>
    \<Longrightarrow> task_step prog nonblock mem s (s\<lparr>pc := (pc s)(t := T_Wait)\<rparr>)"
| sleep: "\<lbrakk>pc s t = T_Queued False; \<not> ready (prog t) (bdev s)\<rbrakk>
    \<Longrightarrow> task_step prog nonblock mem s (s\<lparr>pc := (pc s)(t := T_Asleep)\<rparr>)"
| move: "\<lbrakk>pc s t = T_Locked; ready (prog t) (bdev s);
      transfer (mem t) (prog t) (bdev s) = Some (r, out, d')\<rbrakk>
    \<Longrightarrow> task_step prog nonblock mem s (s\<lparr>bdev := d', owner := None,
          pc := (pc s)(t := after_unlock r out), hist := hist s @ [(prog t, wait_reply r out)]\<rparr>)"
| wake: "pc s t = T_Wake r
    \<Longrightarrow> task_step prog nonblock mem s (s\<lparr>pc := (wake_up prog (wakes (prog t)) (pc s))(t := T_Exit r)\<rparr>)"

text \<open>A signal ends an interruptible wait for the lock or for the condition.\<close>

inductive task_signal :: "wait_sys \<Rightarrow> wait_sys \<Rightarrow> bool" where
  intr: "pc s t = T_Start \<or> pc s t = T_Relock \<or> pc s t = T_Wait \<or> pc s t = T_Queued w \<or> pc s t = T_Asleep
    \<Longrightarrow> task_signal s (s\<lparr>pc := (pc s)(t := T_Exit (Failed ERESTARTSYS))\<rparr>)"

definition task_any :: "(nat \<Rightarrow> call) \<Rightarrow> (nat \<Rightarrow> bool) \<Rightarrow> (nat \<Rightarrow> uaccess) \<Rightarrow> wait_sys \<Rightarrow> wait_sys \<Rightarrow> bool" where
  "task_any prog nonblock mem s s' \<longleftrightarrow> task_step prog nonblock mem s s' \<or> task_signal s s'"

text \<open>The threads of \<open>A\<close> are about to enter the driver; nobody has the lock.\<close>

definition wait_start :: "nat set \<Rightarrow> kbuf_dev \<Rightarrow> wait_sys" where
  "wait_start A d = \<lparr>bdev = d, owner = None, pc = (\<lambda>t. if t \<in> A then T_Start else T_Idle), hist = []\<rparr>"

section \<open>The invariant\<close>

definition waker :: "(nat \<Rightarrow> call) \<Rightarrow> wait_sys \<Rightarrow> nat \<Rightarrow> nat \<Rightarrow> bool" where
  "waker prog s t t' \<longleftrightarrow> (\<exists>r. pc s t' = T_Wake r) \<and> wakes (prog t') = wq_of (prog t)"

definition wait_inv :: "(nat \<Rightarrow> call) \<Rightarrow> u8 list list \<Rightarrow> wait_sys \<Rightarrow> bool" where
  "wait_inv prog q s \<longleftrightarrow> ring_ok (bdev s) \<and>
     (\<forall>t. pc s t = T_Locked \<longleftrightarrow> owner s = Some t) \<and>
     (\<forall>t. pc s t = T_Asleep \<longrightarrow> ready (prog t) (bdev s) \<longrightarrow> (\<exists>t'. waker prog s t t')) \<and>
     fifo_law q (hist s) (ring_msgs (bdev s))"

lemma wakes_neq [simp]: "wakes c \<noteq> wq_of c" "wq_of c \<noteq> wakes c"
  by (cases c; simp)+

lemma wakes_or_same: "wq_of c' = wq_of c \<or> wakes c = wq_of c'"
  by (cases c; cases c') simp_all

lemma sleep_frame [simp]:
  "ring_ok (count_sleep c d) = ring_ok d" "ring_msgs (count_sleep c d) = ring_msgs d"
  "ready c' (count_sleep c d) = ready c' d"
  by (cases c; cases c'; simp add: ring_ok_def ring_msgs_def geom_ok_def kbuf_ring_is_empty_def
      kbuf_ring_is_full_def)+

lemma ready_iff:
  "ring_ok d \<Longrightarrow> ready (Read n) d \<longleftrightarrow> ring_msgs d \<noteq> []"
  "ring_ok d \<Longrightarrow> ready (Write ub n) d \<longleftrightarrow> length (ring_msgs d) \<noteq> unat (num_buffers d)"
  by (simp_all add: blocking.is_empty_iff blocking.is_full_iff)

text \<open>
  A transfer that finds its condition true is defined and follows the queue. If it moved a message,
  no thread of its own side can have become ready; if it faulted, none at all.
\<close>

lemma transfer_spec:
  assumes "ring_ok d" "uaccess_ok u" "ready c d"
  shows "\<exists>r out d'. transfer u c d = Some (r, out, d') \<and> ring_ok d' \<and>
    fifo_law (ring_msgs d) [(c, wait_reply r out)] (ring_msgs d') \<and>
    (\<forall>c'. ready c' d' \<longrightarrow> ready c' d \<or> \<not> isl r \<and> wakes c = wq_of c')"
proof (cases c)
  case (Read n)
  with assms have "\<not> kbuf_ring_is_empty d" by simp
  with assms obtain m ms where q: "ring_msgs d = m # ms"
    by (auto simp: blocking.is_empty_iff neq_Nil_conv)
  from blocking.consume_spec [OF assms(1,2) q, of n] obtain r out d' where
    c: "kbuf_ring_consume u d n = Some (r, out, d')" "ring_ok d'" "unat (num_buffers d') = unat (num_buffers d)"
      "r = Inl EFAULT \<and> ring_msgs d' = ring_msgs d \<or>
       r = Inr (min n (length m)) \<and> out = take n m \<and> ring_msgs d' = ms"
    by auto
  have "ready c' d' \<longrightarrow> ready c' d \<or> \<not> isl r \<and> wakes c = wq_of c'" for c'
    using c q assms(1) by (cases c') (auto simp: ready_iff Read simp del: ready.simps length_ring_msgs)
  moreover have "fifo_law (ring_msgs d) [(c, wait_reply r out)] (ring_msgs d')"
    using c(4) q Read fifo_law_read [OF fifo_law_nil] fifo_law_failed [OF fifo_law_nil]
    by (auto simp: wait_reply_def)
  ultimately show ?thesis using c Read by auto
next
  case (Write ub n)
  let ?n = "min n (unat (buffer_size d))"
  from assms Write have "length (ring_msgs d) < unat (num_buffers d)"
    using blocking.is_full_iff blocking.msgs_bounded by (simp add: order_less_le)
  from blocking.produce_spec [OF assms(1,2) this, of ?n ub] obtain r d' where
    c: "kbuf_ring_produce u d ub ?n = Some (r, d')" "ring_ok d'" "unat (num_buffers d') = unat (num_buffers d)"
      "r = Inl EFAULT \<and> ring_msgs d' = ring_msgs d \<or>
       r = Inr ?n \<and> ring_msgs d' = ring_msgs d @ [ubytes ub ?n]"
    by auto
  have "ready c' d' \<longrightarrow> ready c' d \<or> \<not> isl r \<and> wakes c = wq_of c'" for c'
    using c assms(1) \<open>length (ring_msgs d) < unat (num_buffers d)\<close>
    by (cases c') (auto simp: ready_iff Write simp del: ready.simps length_ring_msgs)
  moreover have "fifo_law (ring_msgs d) [(c, wait_reply r [])] (ring_msgs d')"
    using c(4) Write fifo_law_write [OF fifo_law_nil] fifo_law_failed [OF fifo_law_nil]
    by (auto simp: wait_reply_def)
  ultimately show ?thesis using c Write by auto
qed

section \<open>Every step keeps it\<close>

text \<open>Threads that change their state without touching the ring, the lock or a pending wake-up.\<close>

lemma quiet_inv:
  assumes "wait_inv prog q s" "pc s t \<noteq> T_Locked" "\<forall>r. pc s t \<noteq> T_Wake r" "p \<noteq> T_Locked"
    and "p = T_Asleep \<Longrightarrow> \<not> ready (prog t) (bdev s)"
  shows "wait_inv prog q (s\<lparr>pc := (pc s)(t := p)\<rparr>)"
proof -
  have "waker prog s t1 t' \<Longrightarrow> waker prog (s\<lparr>pc := (pc s)(t := p)\<rparr>) t1 t'" for t1 t'
    using assms(3) by (auto simp: waker_def)
  with assms show ?thesis by (fastforce simp: wait_inv_def)
qed

text \<open>The owner of the lock leaves the critical section with a device on which nobody became ready.\<close>

lemma unlock_inv:
  assumes "wait_inv prog q s" "pc s t = T_Locked" "p \<noteq> T_Locked" "p \<noteq> T_Asleep" "ring_ok d'"
    and "fifo_law (ring_msgs (bdev s)) tr (ring_msgs d')"
    and "\<And>c'. ready c' d' \<Longrightarrow> ready c' (bdev s) \<or> (\<exists>r. p = T_Wake r) \<and> wakes (prog t) = wq_of c'"
  shows "wait_inv prog q (s\<lparr>bdev := d', owner := None, pc := (pc s)(t := p), hist := hist s @ tr\<rparr>)"
proof -
  let ?s = "s\<lparr>bdev := d', owner := None, pc := (pc s)(t := p), hist := hist s @ tr\<rparr>"
  have own: "pc s t1 = T_Locked \<longleftrightarrow> t1 = t" for t1 using assms(1,2) by (auto simp: wait_inv_def)
  have "\<exists>t'. waker prog ?s t1 t'" if z: "pc ?s t1 = T_Asleep" "ready (prog t1) d'" for t1
  proof (cases "ready (prog t1) (bdev s)")
    case True
    with z assms(1,4) obtain t' where w: "waker prog s t1 t'"
      by (auto simp: wait_inv_def split: if_splits)
    with assms(2) have "t' \<noteq> t" by (auto simp: waker_def)
    with w have "waker prog ?s t1 t'" by (simp add: waker_def)
    then show ?thesis ..
  next
    case False
    with assms(7) [OF z(2)] have "waker prog ?s t1 t" by (auto simp: waker_def)
    then show ?thesis ..
  qed
  moreover have "fifo_law q (hist s @ tr) (ring_msgs d')"
    using assms(1,6) fifo_law_trans by (auto simp: wait_inv_def)
  ultimately show ?thesis using assms(3,5) own by (auto simp: wait_inv_def)
qed

lemma wake_task_simps [simp]:
  "wake_task p = T_Locked \<longleftrightarrow> p = T_Locked" "wake_task p = T_Wake r \<longleftrightarrow> p = T_Wake r"
  "wake_task p \<noteq> T_Asleep"
  by (cases p; simp)+

lemma wake_inv:
  assumes "wait_inv prog q s" "pc s t = T_Wake r"
  shows "wait_inv prog q (s\<lparr>pc := (wake_up prog (wakes (prog t)) (pc s))(t := T_Exit r)\<rparr>)"
    (is "wait_inv prog q ?s")
proof -
  have lock: "pc ?s t1 = T_Locked \<longleftrightarrow> owner s = Some t1" for t1
  proof -
    have "pc ?s t1 = T_Locked \<longleftrightarrow> pc s t1 = T_Locked" using assms(2) by (auto simp: wake_up_def)
    with assms(1) show ?thesis by (simp add: wait_inv_def)
  qed
  have "\<exists>t'. waker prog ?s t1 t'" if z: "pc ?s t1 = T_Asleep" "ready (prog t1) (bdev s)" for t1
  proof -
    from z have q: "wq_of (prog t1) \<noteq> wakes (prog t)" "pc s t1 = T_Asleep"
      by (auto simp: wake_up_def split: if_splits)
    with z assms(1) obtain t' where w: "waker prog s t1 t'" by (auto simp: wait_inv_def)
    with q(1) have "t' \<noteq> t" by (auto simp: waker_def)
    with w have "waker prog ?s t1 t'" by (auto simp: waker_def wake_up_def)
    then show ?thesis ..
  qed
  with lock assms(1) show ?thesis by (auto simp: wait_inv_def)
qed

lemma task_step_inv:
  assumes "task_step prog nonblock mem s s'" "wait_inv prog q s" "\<And>t. uaccess_ok (mem t)"
  shows "wait_inv prog q s'"
  using assms(1)
proof cases
  case (lock t)
  then have "\<forall>t'. pc s t' \<noteq> T_Locked" using assms(2) by (auto simp: wait_inv_def)
  moreover have "waker prog s t1 t' \<Longrightarrow> waker prog s' t1 t'" for t1 t'
    using lock by (auto simp: waker_def)
  ultimately show ?thesis using lock assms(2) by (fastforce simp: wait_inv_def)
next
  case (again t)
  with assms(2) unlock_inv [OF assms(2), of t "T_Exit (Failed EAGAIN)" "bdev s" "[]"]
  show ?thesis by (simp add: wait_inv_def fifo_law_nil)
next
  case (give_up t)
  with assms(2) unlock_inv [OF assms(2), of t T_Wait "count_sleep (prog t) (bdev s)" "[]"]
  show ?thesis by (simp add: wait_inv_def fifo_law_nil)
next
  case (move t r out d')
  have rs: "ring_ok (bdev s)" using assms(2) by (simp add: wait_inv_def)
  from transfer_spec [OF rs assms(3) [of t] move(3)] move(4)
  have "ring_ok d'" "fifo_law (ring_msgs (bdev s)) [(prog t, wait_reply r out)] (ring_msgs d')"
    "\<And>c'. ready c' d' \<Longrightarrow> ready c' (bdev s) \<or> \<not> isl r \<and> wakes (prog t) = wq_of c'" by auto
  from unlock_inv [OF assms(2) move(2) _ _ this(1,2), of "after_unlock r out"] this(3) move(1)
  show ?thesis by (auto simp: after_unlock_def split: if_splits)
next
  case (wake t r)
  then show ?thesis using wake_inv [OF assms(2)] by simp
qed (auto intro: quiet_inv [OF assms(2)])

lemma task_signal_inv: "task_signal s s' \<Longrightarrow> wait_inv prog q s \<Longrightarrow> wait_inv prog q s'"
  by (erule task_signal.cases) (auto intro: quiet_inv)

lemma task_run_inv:
  assumes "(task_any prog nonblock mem)\<^sup>*\<^sup>* s s'" "wait_inv prog q s" "\<And>t. uaccess_ok (mem t)"
  shows "wait_inv prog q s'"
  using assms(1,2)
proof (induction rule: rtranclp_induct)
  case (step s1 s2)
  then show ?case using task_step_inv assms(3) task_signal_inv by (auto simp: task_any_def)
qed

lemma wait_start_inv: "ring_ok d \<Longrightarrow> wait_inv prog (ring_msgs d) (wait_start A d)"
  by (simp add: wait_inv_def wait_start_def fifo_law_nil)

section \<open>Nothing runs for ever\<close>

text \<open>
  How far a thread is from its transfer and its wake-up, and, while the ring does not change, from
  its next transfer or its bed.
\<close>

fun stage :: "task \<Rightarrow> nat" where
  "stage T_Idle = 0"
| "stage (T_Exit r) = 0"
| "stage (T_Wake r) = 1"
| "stage p = 2"

fun distance :: "bool \<Rightarrow> task \<Rightarrow> nat" where
  "distance rdy T_Start = (if rdy then 2 else 6)"
| "distance rdy T_Relock = (if rdy then 2 else 6)"
| "distance rdy T_Locked = (if rdy then 1 else 5)"
| "distance rdy T_Wait = (if rdy then 4 else 3)"
| "distance rdy (T_Queued w) = (if rdy then 3 else if w then 4 else 2)"
| "distance rdy T_Asleep = (if rdy then 5 else 1)"
| "distance rdy p = 0"

definition stages :: "nat set \<Rightarrow> wait_sys \<Rightarrow> nat" where
  "stages A s = (\<Sum>t\<in>A. stage (pc s t))"

definition distances :: "nat set \<Rightarrow> (nat \<Rightarrow> call) \<Rightarrow> wait_sys \<Rightarrow> nat" where
  "distances A prog s = (\<Sum>t\<in>A. distance (ready (prog t) (bdev s)) (pc s t))"

definition effort :: "nat set \<Rightarrow> (nat \<Rightarrow> call) \<Rightarrow> wait_sys \<Rightarrow> nat" where
  "effort A prog s = stages A s * (6 * card A + 1) + distances A prog s"

definition only :: "nat set \<Rightarrow> wait_sys \<Rightarrow> bool" where
  "only A s \<longleftrightarrow> (\<forall>t. t \<notin> A \<longrightarrow> pc s t = T_Idle)"

lemma stage_le: "stage p \<le> 2"
  by (cases p) simp_all

lemma distance_le: "distance rdy p \<le> 6"
  by (cases p) simp_all

lemma stage_wake_task [simp]: "stage (wake_task p) = stage p"
  by (cases p) simp_all

lemma sum_le_card: "(\<And>t. f t \<le> (n::nat)) \<Longrightarrow> (\<Sum>t\<in>A. f t) \<le> n * card A"
  by (metis mult.commute sum_bounded_above of_nat_id)

lemma sum_less: "finite A \<Longrightarrow> t \<in> A \<Longrightarrow> f t < g t \<Longrightarrow> (\<And>x. x \<noteq> t \<Longrightarrow> f x = g x) \<Longrightarrow> sum f A < sum g (A::nat set)"
  for f g :: "nat \<Rightarrow> nat"
  by (rule sum_strict_mono_ex1) (assumption, metis order.refl order_less_imp_le, blast)

lemma effort_major:
  assumes "finite A" "stages A s' < stages A s"
  shows "effort A prog s' < effort A prog s"
proof -
  let ?w = "6 * card A + 1"
  have "distances A prog s' \<le> 6 * card A"
    unfolding distances_def by (rule sum_le_card) (rule distance_le)
  then have "effort A prog s' < Suc (stages A s') * ?w" by (simp add: effort_def)
  also have "\<dots> \<le> stages A s * ?w" using assms(2) by (intro mult_le_mono1) simp
  finally show ?thesis by (simp add: effort_def)
qed

lemma advance_effort:
  assumes "finite A" "t \<in> A" "pc s' = (pc s)(t := p)" "stage p < stage (pc s t)"
  shows "effort A prog s' < effort A prog s"
proof (rule effort_major [OF assms(1)])
  show "stages A s' < stages A s"
    unfolding stages_def using assms by (intro sum_less [of A t]) simp_all
qed

lemma local_effort:
  assumes "finite A" "t \<in> A" "pc s' = (pc s)(t := p)" "stage p = stage (pc s t)"
    and "\<And>c. ready c (bdev s') = ready c (bdev s)"
    and "distance (ready (prog t) (bdev s)) p < distance (ready (prog t) (bdev s)) (pc s t)"
  shows "effort A prog s' < effort A prog s"
proof -
  have "stages A s' = stages A s" unfolding stages_def using assms(3,4) by (intro sum.cong) auto
  moreover have "distances A prog s' < distances A prog s"
    unfolding distances_def using assms by (intro sum_less [of A t]) simp_all
  ultimately show ?thesis by (simp add: effort_def)
qed

lemma wake_effort:
  assumes "finite A" "t \<in> A" "pc s t = T_Wake r" "pc s' = (wake_up prog q (pc s))(t := T_Exit r)"
  shows "effort A prog s' < effort A prog s"
proof (rule effort_major [OF assms(1)])
  show "stages A s' < stages A s"
    unfolding stages_def using assms by (intro sum_less [of A t]) (simp_all add: wake_up_def)
qed

lemma task_step_effort:
  assumes "task_step prog nonblock mem s s'" "finite A" "only A s"
  shows "effort A prog s' < effort A prog s"
  using assms(1)
proof cases
  case (lock t)
  then have "t \<in> A" using assms(3) by (auto simp: only_def)
  with lock show ?thesis by (intro local_effort [OF assms(2), of t s' s T_Locked]) auto
next
  case (again t)
  then have "t \<in> A" using assms(3) by (auto simp: only_def)
  with again show ?thesis by (intro advance_effort [OF assms(2), of t s' s]) auto
next
  case (give_up t)
  then have "t \<in> A" using assms(3) by (auto simp: only_def)
  with give_up show ?thesis by (intro local_effort [OF assms(2), of t s' s T_Wait]) auto
next
  case (enqueue t)
  then have "t \<in> A" using assms(3) by (auto simp: only_def)
  with enqueue show ?thesis by (intro local_effort [OF assms(2), of t s' s "T_Queued False"]) auto
next
  case (go_on t w)
  then have "t \<in> A" using assms(3) by (auto simp: only_def)
  with go_on show ?thesis by (intro local_effort [OF assms(2), of t s' s T_Relock]) auto
next
  case (retry t)
  then have "t \<in> A" using assms(3) by (auto simp: only_def)
  with retry show ?thesis by (intro local_effort [OF assms(2), of t s' s T_Wait]) auto
next
  case (sleep t)
  then have "t \<in> A" using assms(3) by (auto simp: only_def)
  with sleep show ?thesis by (intro local_effort [OF assms(2), of t s' s T_Asleep]) auto
next
  case (move t r out d')
  then have "t \<in> A" using assms(3) by (auto simp: only_def)
  with move show ?thesis by (intro advance_effort [OF assms(2), of t s' s]) (auto simp: after_unlock_def)
next
  case (wake t r)
  then have "t \<in> A" using assms(3) by (auto simp: only_def)
  with wake show ?thesis by (intro wake_effort [OF assms(2), of t s r s']) auto
qed

lemma task_any_effort:
  assumes "task_any prog nonblock mem s s'" "finite A" "only A s"
  shows "effort A prog s' < effort A prog s" "only A s'"
proof -
  show "effort A prog s' < effort A prog s"
  proof (cases "task_step prog nonblock mem s s'")
    case False
    with assms(1) have "task_signal s s'" by (simp add: task_any_def)
    then obtain t where "pc s' = (pc s)(t := T_Exit (Failed ERESTARTSYS))" "stage (pc s t) = 2"
      by (cases rule: task_signal.cases) auto
    moreover from this have "t \<in> A" using assms(3) by (auto simp: only_def)
    ultimately show ?thesis by (intro advance_effort [OF assms(2)]) auto
  qed (use task_step_effort assms in blast)
  show "only A s'" using assms(1,3)
    by (auto simp: task_any_def only_def wake_up_def elim!: task_step.cases task_signal.cases)
qed

lemma task_run_effort:
  "(task_any prog nonblock mem ^^ n) s s' \<Longrightarrow> finite A \<Longrightarrow> only A s \<Longrightarrow>
   n + effort A prog s' \<le> effort A prog s \<and> only A s'"
proof (induction n arbitrary: s')
  case (Suc n)
  then obtain s1 where "(task_any prog nonblock mem ^^ n) s s1" "task_any prog nonblock mem s1 s'"
    by auto
  with Suc task_any_effort [of prog nonblock mem s1 s' A] show ?case by fastforce
qed simp

section \<open>Properties\<close>

text \<open>
  C4: the mutex keeps the blocking ring correct for any number of readers and writers. However
  their steps interleave, with signals and faulting user memory, the ring stays well formed, at most
  one thread is between lock and unlock, and the transfers, in the order they happened, deliver the
  messages whole, in order and exactly once.
\<close>

theorem blocking_concurrent_fifo:
  assumes "ring_ok d" "\<And>t. uaccess_ok (mem t)" "(task_any prog nonblock mem)\<^sup>*\<^sup>* (wait_start A d) s"
  shows "ring_ok (bdev s) \<and> fifo_law (ring_msgs d) (hist s) (ring_msgs (bdev s)) \<and>
    (pc s t1 = T_Locked \<and> pc s t2 = T_Locked \<longrightarrow> t1 = t2)"
  using task_run_inv [OF assms(3) wait_start_inv [OF assms(1)] assms(2)] by (auto simp: wait_inv_def)

text \<open>
  C5: no wake-up is lost. Whenever a thread sleeps although what it waits for is there, another
  thread is on its way to wake it: one that has moved a message and has not yet called
  \<open>wake_up_interruptible\<close>, and whose call puts the sleeper back to testing its condition.
\<close>

theorem no_lost_wakeup:
  assumes "ring_ok d" "\<And>t. uaccess_ok (mem t)" "(task_any prog nonblock mem)\<^sup>*\<^sup>* (wait_start A d) s"
    and "pc s t = T_Asleep" "ready (prog t) (bdev s)"
  shows "\<exists>t' r s'. pc s t' = T_Wake r \<and> task_step prog nonblock mem s s' \<and> pc s' t' = T_Exit r \<and> pc s' t = T_Wait"
proof -
  from task_run_inv [OF assms(3) wait_start_inv [OF assms(1)] assms(2)] assms(4,5)
  obtain t' r where w: "pc s t' = T_Wake r" "wakes (prog t') = wq_of (prog t)"
    by (auto simp: wait_inv_def waker_def)
  with assms(4) have "t \<noteq> t'" by auto
  then show ?thesis using w assms(4) wake [OF w(1), where prog = prog and nonblock = nonblock and mem = mem]
    by (intro exI [where x = t'] exI [where x = r]
        exI [where x = "s\<lparr>pc := (wake_up prog (wakes (prog t')) (pc s))(t' := T_Exit r)\<rparr>"])
      (simp add: wake_up_def)
qed

lemma locked_steps:
  assumes "ring_ok (bdev s)" "uaccess_ok (mem t)" "pc s t = T_Locked"
  shows "\<exists>s'. task_step prog nonblock mem s s'"
proof (cases "ready (prog t) (bdev s)")
  case True
  with transfer_spec [OF assms(1,2)] move assms(3) show ?thesis by metis
next
  case False
  then show ?thesis using again give_up assms(3) by metis
qed

lemma stuck_thread:
  assumes "wait_inv prog q s" "\<And>t. uaccess_ok (mem t)" "\<nexists>s'. task_step prog nonblock mem s s'"
  shows "pc s t = T_Idle \<or> (\<exists>r. pc s t = T_Exit r) \<or> pc s t = T_Asleep \<and> \<not> ready (prog t) (bdev s)"
proof -
  have inv: "ring_ok (bdev s)" "\<And>t. owner s = Some t \<Longrightarrow> pc s t = T_Locked"
    using assms(1) by (auto simp: wait_inv_def)
  have free: "owner s = None"
    using locked_steps [where mem = mem and prog = prog and nonblock = nonblock] assms(2,3) inv
    by (cases "owner s") blast+
  have "pc s t' \<noteq> T_Wake r" for t' r using assms(3) wake by blast
  then have asleep: "pc s t = T_Asleep \<Longrightarrow> \<not> ready (prog t) (bdev s)"
    using assms(1) by (auto simp: wait_inv_def waker_def)
  show ?thesis
  proof (cases "pc s t")
    case (T_Queued w)
    then show ?thesis using assms(3) go_on retry sleep by (cases w) metis+
  next
    case T_Locked
    then show ?thesis using locked_steps [OF inv(1), of mem t] assms(2,3) by blast
  qed (use assms(3) lock [OF _ free] enqueue wake asleep in blast)+
qed

text \<open>
  C15: there is no deadlock. When no thread can take a step without a signal, every call has
  returned or sleeps for a reason: the readers on an empty ring, the writers on a full one, and so
  never both at once.
\<close>

theorem blocking_no_deadlock:
  assumes "ring_ok d" "\<And>t. uaccess_ok (mem t)" "(task_any prog nonblock mem)\<^sup>*\<^sup>* (wait_start A d) s"
    and "\<nexists>s'. task_step prog nonblock mem s s'"
  shows "(pc s t = T_Idle \<or> (\<exists>r. pc s t = T_Exit r) \<or> pc s t = T_Asleep \<and> \<not> ready (prog t) (bdev s)) \<and>
    (pc s t1 = T_Asleep \<and> pc s t2 = T_Asleep \<longrightarrow> wq_of (prog t1) = wq_of (prog t2))"
proof -
  note inv = task_run_inv [OF assms(3) wait_start_inv [OF assms(1)] assms(2)]
  have ok: "ring_ok (bdev s)" using inv by (simp add: wait_inv_def)
  then have "0 < unat (num_buffers (bdev s))" by (simp add: ring_ok_def)
  then have "\<not> (\<not> ready (Read n) (bdev s) \<and> \<not> ready (Write ub m) (bdev s))" for n ub m
    unfolding ready_iff [OF ok] by (auto simp del: length_ring_msgs)
  then have "wq_of (prog t1) = wq_of (prog t2)"
    if "\<not> ready (prog t1) (bdev s)" "\<not> ready (prog t2) (bdev s)"
    using that by (cases "prog t1"; cases "prog t2") (auto simp del: ready.simps)
  with stuck_thread [OF inv assms(2,4)] show ?thesis by (metis task.distinct)
qed

text \<open>
  C16: nothing runs for ever. With \<open>k\<close> calls every interleaving ends after at most
  \<open>2 k (6 k + 1) + 6 k\<close> steps: waking, re-locking and finding the message taken by another
  thread cannot go round in circles.
\<close>

theorem blocking_calls_settle:
  assumes "finite A" "(task_any prog nonblock mem ^^ n) (wait_start A d) s"
  shows "n \<le> 2 * card A * (6 * card A + 1) + 6 * card A"
proof -
  let ?s = "wait_start A d"
  have "only A ?s" by (simp add: only_def wait_start_def)
  with task_run_effort [OF assms(2,1)] have "n \<le> effort A prog ?s" by simp
  moreover have "stages A ?s \<le> 2 * card A"
    unfolding stages_def by (rule sum_le_card) (rule stage_le)
  moreover have "distances A prog ?s \<le> 6 * card A"
    unfolding distances_def by (rule sum_le_card) (rule distance_le)
  ultimately show ?thesis unfolding effort_def
    by (meson add_mono mult_le_mono1 order_trans)
qed

section \<open>One call alone\<close>

text \<open>
  A call that runs without interruption from any state of the other threads reaches through these
  steps what the sequential \<open>kbuf_read_blocking\<close> and \<open>kbuf_write_blocking\<close> compute.
\<close>

lemma steps_via: "task_step prog nonblock mem a b \<Longrightarrow> (task_step prog nonblock mem)\<^sup>*\<^sup>* b c \<Longrightarrow>
    (task_step prog nonblock mem)\<^sup>*\<^sup>* a c"
  by (rule converse_rtranclp_into_rtranclp)

lemma call_sleeps:
  assumes "pc s t = T_Start" "owner s = None" "\<not> ready (prog t) (bdev s)" "\<not> nonblock t"
  shows "(task_step prog nonblock mem)\<^sup>*\<^sup>* s
    (s\<lparr>bdev := count_sleep (prog t) (bdev s), owner := None, pc := (pc s)(t := T_Asleep)\<rparr>)"
proof -
  let ?R = "task_step prog nonblock mem"
  let ?d = "count_sleep (prog t) (bdev s)"
  let ?at = "\<lambda>p. s\<lparr>bdev := ?d, owner := None, pc := (pc s)(t := p)\<rparr>"
  have 1: "?R s (s\<lparr>owner := Some t, pc := (pc s)(t := T_Locked)\<rparr>)" using lock assms(1,2) by blast
  have 2: "?R (s\<lparr>owner := Some t, pc := (pc s)(t := T_Locked)\<rparr>) (?at T_Wait)"
    using give_up [of "s\<lparr>owner := Some t, pc := (pc s)(t := T_Locked)\<rparr>" t prog nonblock mem] assms by simp
  have 3: "?R (?at T_Wait) (?at (T_Queued False))"
    using enqueue [of "?at T_Wait" t prog nonblock mem] by simp
  have 4: "?R (?at (T_Queued False)) (?at T_Asleep)"
    using sleep [of "?at (T_Queued False)" t prog nonblock mem] assms(3) by simp
  show ?thesis by (rule steps_via [OF 1], rule steps_via [OF 2], rule steps_via [OF 3], rule r_into_rtranclp [of ?R, OF 4])
qed

lemma call_transfers:
  assumes "pc s t = T_Start" "owner s = None" "ready (prog t) (bdev s)"
    and "transfer (mem t) (prog t) (bdev s) = Some (r, out, d')"
  shows "(task_step prog nonblock mem)\<^sup>*\<^sup>* s
    (s\<lparr>bdev := d', owner := None, pc := (pc s)(t := after_unlock r out), hist := hist s @ [(prog t, wait_reply r out)]\<rparr>)"
proof -
  let ?R = "task_step prog nonblock mem"
  have 1: "?R s (s\<lparr>owner := Some t, pc := (pc s)(t := T_Locked)\<rparr>)" using lock assms(1,2) by blast
  have 2: "?R (s\<lparr>owner := Some t, pc := (pc s)(t := T_Locked)\<rparr>)
    (s\<lparr>bdev := d', owner := None, pc := (pc s)(t := after_unlock r out), hist := hist s @ [(prog t, wait_reply r out)]\<rparr>)"
    using move [of "s\<lparr>owner := Some t, pc := (pc s)(t := T_Locked)\<rparr>" t prog mem r out d' nonblock] assms by simp
  show ?thesis by (rule steps_via [OF 1], rule r_into_rtranclp [of ?R, OF 2])
qed

lemma blocking_call_transfers:
  assumes "ready c d"
  shows "c = Read n \<Longrightarrow> kbuf_read_blocking calm u nb n d =
      Some (map_option (\<lambda>(r, out, d'). (r, out, if isl r then [] else [wakes c], d')) (transfer u c d))"
    and "c = Write ub n \<Longrightarrow> kbuf_write_blocking calm u nb ub n d =
      Some (map_option (\<lambda>(r, out, d'). (r, out, if isl r then [] else [wakes c], d')) (transfer u c d))"
  using assms
  by (auto simp: kbuf_read_blocking_def kbuf_write_blocking_def read_blocking_loop.simps
      write_blocking_loop.simps finish_read_def finish_write_def Let_def min_def option.map_comp comp_def
      intro!: option.map_cong)

section \<open>A reader and a writer\<close>

definition demo_prog :: "nat \<Rightarrow> call" where
  "demo_prog t = (if t = 0 then Read 2 else Write (\<lambda>_. 7) 1)"

definition demo_written :: kbuf_dev where
  "demo_written = demo_dev\<lparr>slots := [\<lparr>data = 2, bytes = [7, 0], len = 1\<rparr>, slots demo_dev ! 1],
     write_pos := 1, ring_count := 1, peak_count := 1, bytes_produced := 1, msgs_produced := 1, read_sleeps := 1\<rparr>"

text \<open>The reader sleeps; the writer has put its message into the ring and is about to wake it.\<close>

definition demo_missed :: wait_sys where
  "demo_missed = \<lparr>bdev = demo_written, owner = None,
     pc = (\<lambda>_. T_Idle)(0 := T_Asleep, 1 := T_Wake (Done 1 [])), hist = [(Write (\<lambda>_. 7) 1, Done 1 [])]\<rparr>"

definition demo_waiting :: "nat \<Rightarrow> task \<Rightarrow> wait_sys" where
  "demo_waiting n p = \<lparr>bdev = demo_dev\<lparr>read_sleeps := 1\<rparr>, owner = None,
     pc = (\<lambda>t. if t < n then T_Start else T_Idle)(0 := p), hist = []\<rparr>"

lemma demo_sleeps:
  assumes "0 < n"
  shows "(task_step demo_prog (\<lambda>_. False) (\<lambda>_. good_user))\<^sup>*\<^sup>* (wait_start {..<n} demo_dev) (demo_waiting n T_Asleep)"
proof -
  have "(\<lambda>t. if t \<in> {..<n} then T_Start else T_Idle)(0 := T_Asleep) =
      (\<lambda>t. if t < n then T_Start else T_Idle)(0 := T_Asleep)" by auto
  with call_sleeps [of "wait_start {..<n} demo_dev" 0 demo_prog "\<lambda>_. False" "\<lambda>_. good_user"] assms
  show ?thesis
    by (simp add: wait_start_def demo_waiting_def demo_prog_def kbuf_ring_is_empty_def demo_dev_def zero_dev_def)
qed

lemma demo_missed_reached:
  "(task_step demo_prog (\<lambda>_. False) (\<lambda>_. good_user))\<^sup>*\<^sup>* (wait_start {..<2} demo_dev) demo_missed"
proof -
  let ?R = "task_step demo_prog (\<lambda>_. False) (\<lambda>_. good_user)"
  let ?s = "demo_waiting 2 T_Asleep"
  have t: "transfer good_user (demo_prog 1) (bdev ?s) = Some (Inr 1, [], demo_written)"
    by (simp add: demo_prog_def demo_waiting_def demo_written_def op_simps demo_simps)
  have r: "ready (demo_prog 1) (bdev ?s)"
    by (simp add: demo_prog_def demo_waiting_def op_simps demo_simps)
  have "?R\<^sup>*\<^sup>* ?s (?s\<lparr>bdev := demo_written, owner := None,
      pc := (pc ?s)(1 := after_unlock (Inr 1) []), hist := hist ?s @ [(demo_prog 1, wait_reply (Inr 1) [])]\<rparr>)"
    by (rule call_transfers) (simp_all only: t r, simp_all add: demo_waiting_def)
  moreover have "(\<lambda>t. if t < (2::nat) then T_Start else T_Idle)(0 := T_Asleep, 1 := x) =
      (\<lambda>_. T_Idle)(0 := T_Asleep, 1 := x)" for x by (auto simp: fun_eq_iff less_2_cases_iff)
  ultimately have "?R\<^sup>*\<^sup>* ?s demo_missed"
    by (simp add: demo_missed_def demo_waiting_def demo_prog_def after_unlock_def wait_reply_def)
  with demo_sleeps [of 2] show ?thesis by simp
qed

lemma any_steps: "(task_step prog nonblock mem)\<^sup>*\<^sup>* s s' \<Longrightarrow> (task_any prog nonblock mem)\<^sup>*\<^sup>* s s'"
  by (erule rtranclp_mono [THEN predicate2D, rotated]) (auto simp: task_any_def)

lemma demo_ring_ok: "ring_ok demo_dev"
  by (simp add: demo_simps)

theorem blocking_concurrent_fifo_witness:
  "fifo_law [] [(Write (\<lambda>_. 7) 1, Done 1 [])] (ring_msgs demo_written)"
proof -
  have "ring_msgs demo_dev = []" by (simp add: demo_simps)
  with blocking_concurrent_fifo [OF demo_ring_ok uaccess_ok_good any_steps [OF demo_missed_reached]]
  show ?thesis by (simp add: demo_missed_def)
qed

theorem no_lost_wakeup_witness:
  "\<exists>s'. task_step demo_prog (\<lambda>_. False) (\<lambda>_. good_user) demo_missed s' \<and> pc s' 0 = T_Wait"
proof -
  have "pc demo_missed 0 = T_Asleep" "ready (demo_prog 0) (bdev demo_missed)"
    by (simp_all add: demo_missed_def demo_prog_def demo_written_def kbuf_ring_is_empty_def)
  from no_lost_wakeup [OF demo_ring_ok uaccess_ok_good any_steps [OF demo_missed_reached] this]
  show ?thesis by blast
qed

theorem blocking_no_deadlock_witness: "\<not> ready (demo_prog 0) (bdev (demo_waiting 1 T_Asleep))"
proof -
  have r: "\<not> ready (demo_prog 0) (bdev (demo_waiting 1 T_Asleep))"
    by (simp add: demo_waiting_def demo_prog_def op_simps demo_simps)
  have p: "pc (demo_waiting 1 T_Asleep) = (\<lambda>t. if t = 0 then T_Asleep else T_Idle)"
    by (auto simp: demo_waiting_def)
  have "\<nexists>s'. task_step demo_prog (\<lambda>_. False) (\<lambda>_. good_user) (demo_waiting 1 T_Asleep) s'"
    by (auto simp: p [simplified] split: if_splits elim!: task_step.cases)
  from blocking_no_deadlock [OF demo_ring_ok uaccess_ok_good any_steps [OF demo_sleeps] this, of 0]
  show ?thesis unfolding p by simp
qed

theorem blocking_calls_settle_witness:
  "(task_any demo_prog (\<lambda>_. False) (\<lambda>_. good_user) ^^ 1) (wait_start {..<2} demo_dev)
     (wait_start {..<2} demo_dev\<lparr>owner := Some 0, pc := (pc (wait_start {..<2} demo_dev))(0 := T_Locked)\<rparr>) \<and>
   (1::nat) \<le> 64"
proof -
  let ?s = "wait_start {..<2} demo_dev"
  have "task_any demo_prog (\<lambda>_. False) (\<lambda>_. good_user) ?s (?s\<lparr>owner := Some 0, pc := (pc ?s)(0 := T_Locked)\<rparr>)"
    unfolding task_any_def by (rule disjI1, rule lock) (simp_all add: wait_start_def)
  then have r: "(task_any demo_prog (\<lambda>_. False) (\<lambda>_. good_user) ^^ 1) ?s
      (?s\<lparr>owner := Some 0, pc := (pc ?s)(0 := T_Locked)\<rparr>)" by (simp add: OO_def)
  have "(1::nat) \<le> 64" using blocking_calls_settle [OF _ r] by simp
  with r show ?thesis by blast
qed

end
