(* ===== verification/Kbuf_Trace.thy ===== *)
theory Kbuf_Trace
  imports Kbuf_Proc
begin

text \<open>
  The tracepoints of src/kbuf_trace.h as the ring operations (src/kbuf_ring.c) and the file
  operations (src/kbuf_main.c) fire them: the device index they carry, the events of a call and the
  lines they print, and that the occupancies in a trace replay the queue.
\<close>

section \<open>Events\<close>

datatype trace_event =
    kbuf_produce u32 u32 u32
  | kbuf_consume u32 u32 u32
  | kbuf_wakeup u32 bool

text \<open>The difference of two pointers into an array of structures of \<open>sz\<close> bytes.\<close>

definition kbuf_id :: "int \<Rightarrow> int \<Rightarrow> int \<Rightarrow> u32" where
  "kbuf_id sz devices dev = word_of_int ((dev - devices) div sz)"

definition event_text :: "trace_event \<Rightarrow> string" where
  "event_text e = (case e of
     kbuf_produce i n occ \<Rightarrow> ''kbuf'' @ dec (unat i) @ '' bytes='' @ dec (unat n) @ '' occ='' @ dec (unat occ)
   | kbuf_consume i n occ \<Rightarrow> ''kbuf'' @ dec (unat i) @ '' bytes='' @ dec (unat n) @ '' occ='' @ dec (unat occ)
   | kbuf_wakeup i readers \<Rightarrow> ''kbuf'' @ dec (unat i) @ '' wake '' @ (if readers then ''readers'' else ''writers''))"

text \<open>What the four ring operations trace, from the device before and after and the result.\<close>

definition ring_consume_trace :: "u32 \<Rightarrow> reply \<Rightarrow> kbuf_dev \<Rightarrow> trace_event list" where
  "ring_consume_trace i r d' = (case r of Done n out \<Rightarrow> [kbuf_consume i (of_nat n) (ring_count d')] | _ \<Rightarrow> [])"

definition ring_produce_trace :: "u32 \<Rightarrow> reply \<Rightarrow> kbuf_dev \<Rightarrow> trace_event list" where
  "ring_produce_trace i r d' = (case r of Done n out \<Rightarrow> [kbuf_produce i (of_nat n) (ring_count d')] | _ \<Rightarrow> [])"

definition spsc_consume_trace :: "u32 \<Rightarrow> reply \<Rightarrow> kbuf_dev \<Rightarrow> kbuf_dev \<Rightarrow> trace_event list" where
  "spsc_consume_trace i r d d' =
     (case r of Done n out \<Rightarrow> [kbuf_consume i (of_nat n) (prod_idx d' - (cons_idx d + 1))] | _ \<Rightarrow> [])"

definition spsc_produce_trace :: "u32 \<Rightarrow> reply \<Rightarrow> kbuf_dev \<Rightarrow> kbuf_dev \<Rightarrow> trace_event list" where
  "spsc_produce_trace i r d d' =
     (case r of Done n out \<Rightarrow> [kbuf_produce i (of_nat n) (prod_idx d + 1 - cons_idx d')] | _ \<Rightarrow> [])"

text \<open>A successful call wakes the other side and traces that too.\<close>

definition wakeup_trace :: "u32 \<Rightarrow> bool \<Rightarrow> reply \<Rightarrow> trace_event list" where
  "wakeup_trace i readers r = (case r of Done n out \<Rightarrow> [kbuf_wakeup i readers] | _ \<Rightarrow> [])"

fun call_trace :: "u32 \<Rightarrow> kbuf_dev \<Rightarrow> call \<Rightarrow> reply \<Rightarrow> kbuf_dev \<Rightarrow> trace_event list" where
  "call_trace i d (Read n) r d' =
     (if mode d = KBUF_MODE_SPSC then spsc_consume_trace i r d d' else ring_consume_trace i r d') @
     wakeup_trace i False r"
| "call_trace i d (Write ub n) r d' =
     (if mode d = KBUF_MODE_SPSC then spsc_produce_trace i r d d' else ring_produce_trace i r d') @
     wakeup_trace i True r"

fun traced :: "u32 \<Rightarrow> kbuf_dev \<Rightarrow> (uaccess \<times> call) list \<Rightarrow> (trace_event list \<times> kbuf_dev) option" where
  "traced i d [] = Some ([], d)"
| "traced i d ((u, c) # cs) = (case syscall d u c of
     None \<Rightarrow> None
   | Some (r, d') \<Rightarrow> map_option (\<lambda>(es, d''). (call_trace i d c r d' @ es, d'')) (traced i d' cs))"

section \<open>Replaying a trace\<close>

text \<open>
  A reader of the trace that knows the depth at the start follows it: every transfer changes the
  depth by one, to the value traced, and is followed by the wake-up of the other side.
\<close>

fun replay :: "u32 \<Rightarrow> nat \<Rightarrow> trace_event list \<Rightarrow> nat option" where
  "replay i n [] = Some n"
| "replay i n (kbuf_produce j b occ # kbuf_wakeup k readers # es) =
     (if j = i \<and> k = i \<and> readers \<and> unat occ = Suc n then replay i (Suc n) es else None)"
| "replay i n (kbuf_consume j b occ # kbuf_wakeup k readers # es) =
     (if j = i \<and> k = i \<and> \<not> readers \<and> Suc (unat occ) = n then replay i (unat occ) es else None)"
| "replay i n es = None"

lemma spsc_consume_idx:
  "kbuf_spsc_consume u d n = Some (Inr k, out, d') \<Longrightarrow> prod_idx d' - (cons_idx d + 1) = prod_idx d' - cons_idx d'"
  by (auto simp: kbuf_spsc_consume_def Let_def split: if_splits prod.splits)

lemma spsc_produce_idx:
  "kbuf_spsc_produce u d ub n = Some (Inr k, d') \<Longrightarrow> prod_idx d + 1 - cons_idx d' = prod_idx d' - cons_idx d'"
  by (auto simp: kbuf_spsc_produce_def Let_def split: if_splits prod.splits)

lemma done_read:
  assumes "syscall d u (Read k) = Some (Done n out, d')"
  shows "if mode d = KBUF_MODE_SPSC then kbuf_spsc_consume u d k = Some (Inr n, out, d')
    else kbuf_ring_consume u d k = Some (Inr n, out, d')"
  using assms
  by (auto simp: read_nonblock finish_read_def reply_of_def split: if_splits sum.split_asm) (metis sum.exhaust)+

lemma done_write:
  assumes "syscall d u (Write ub k) = Some (Done n out, d')"
  shows "if mode d = KBUF_MODE_SPSC then kbuf_spsc_produce u d ub (min k (unat (buffer_size d))) = Some (Inr n, d')
    else kbuf_ring_produce u d ub (min k (unat (buffer_size d))) = Some (Inr n, d')"
  using assms
  by (auto simp: write_nonblock finish_write_def reply_of_def split: if_splits sum.split_asm) (metis sum.exhaust)+

text \<open>The occupancy traced is the occupancy after the call.\<close>

lemma read_trace:
  assumes "syscall d u (Read k) = Some (Done n out, d')"
  shows "call_trace i d (Read k) (Done n out) d' = [kbuf_consume i (of_nat n) (kbuf_occupancy d'), kbuf_wakeup i False]"
proof (cases "mode d = KBUF_MODE_SPSC")
  case True
  with done_read [OF assms] have c: "kbuf_spsc_consume u d k = Some (Inr n, out, d')" by simp
  with spsc_consume_frame [OF c] spsc_consume_idx [OF c] True show ?thesis
    by (simp add: spsc_consume_trace_def wakeup_trace_def kbuf_occupancy_def)
next
  case False
  with done_read [OF assms] have c: "kbuf_ring_consume u d k = Some (Inr n, out, d')" by simp
  with ring_consume_frame [OF c] False show ?thesis
    by (simp add: ring_consume_trace_def wakeup_trace_def kbuf_occupancy_def)
qed

lemma write_trace:
  assumes "syscall d u (Write ub k) = Some (Done n out, d')"
  shows "call_trace i d (Write ub k) (Done n out) d' = [kbuf_produce i (of_nat n) (kbuf_occupancy d'), kbuf_wakeup i True]"
proof (cases "mode d = KBUF_MODE_SPSC")
  case True
  with done_write [OF assms] have c: "kbuf_spsc_produce u d ub (min k (unat (buffer_size d))) = Some (Inr n, d')" by simp
  with spsc_produce_frame [OF c] spsc_produce_idx [OF c] True show ?thesis
    by (simp add: spsc_produce_trace_def wakeup_trace_def kbuf_occupancy_def)
next
  case False
  with done_write [OF assms] have c: "kbuf_ring_produce u d ub (min k (unat (buffer_size d))) = Some (Inr n, d')" by simp
  with ring_produce_frame [OF c] False show ?thesis
    by (simp add: ring_produce_trace_def wakeup_trace_def kbuf_occupancy_def)
qed

lemma failed_trace: "call_trace i d c (Failed e) d' = []"
  by (cases c) (simp_all add: ring_consume_trace_def ring_produce_trace_def spsc_consume_trace_def
      spsc_produce_trace_def wakeup_trace_def)

text \<open>
  C40: the trace follows the queue: for any sequence of non-blocking calls on a well-formed device, in
  either mode, replaying the events from the depth at the start succeeds and ends at the depth at
  the end.
\<close>

theorem trace_replays:
  assumes "dev_ok d" "\<forall>(u, c) \<in> set cs. uaccess_ok u"
  shows "\<exists>es d'. traced i d cs = Some (es, d') \<and> dev_ok d' \<and>
    replay i (length (dev_msgs d)) es = Some (length (dev_msgs d'))"
  using assms
proof (induction cs arbitrary: d)
  case (Cons uc cs)
  obtain u c where uc: "uc = (u, c)" by fastforce
  have u: "uaccess_ok u" using Cons.prems(2) uc by simp
  from device.serves [OF Cons.prems(1) u, of c] obtain r d1 where
    1: "syscall d u c = Some (r, d1)" "dev_ok d1"
      "spec_step (unat (num_buffers d)) (unat (buffer_size d)) (dev_msgs d) c r (dev_msgs d1)" by blast
  from Cons.IH [OF 1(2)] Cons.prems(2) obtain es d2 where
    2: "traced i d1 cs = Some (es, d2)" "dev_ok d2" "replay i (length (dev_msgs d1)) es = Some (length (dev_msgs d2))"
    by auto
  have "replay i (length (dev_msgs d)) (call_trace i d c r d1 @ es) = replay i (length (dev_msgs d1)) es"
  proof (cases r)
    case (Failed e)
    with 1(3) have "dev_msgs d1 = dev_msgs d" by (auto elim: spec_step.cases)
    then show ?thesis by (simp add: Failed failed_trace)
  next
    case (Done n out)
    show ?thesis
    proof (cases c)
      case (Read k)
      with 1(3) Done have "length (dev_msgs d) = Suc (length (dev_msgs d1))" by (auto elim: spec_step.cases)
      with read_trace [of d u k n out d1 i] 1(1) Read Done show ?thesis
        by (simp add: length_dev_msgs del: syscall.simps call_trace.simps)
    next
      case (Write ub k)
      with 1(3) Done have "length (dev_msgs d1) = Suc (length (dev_msgs d))" by (auto elim: spec_step.cases)
      with write_trace [of d u ub k n out d1 i] 1(1) Write Done show ?thesis
        by (simp add: length_dev_msgs del: syscall.simps call_trace.simps)
    qed
  qed
  with 1 2 uc show ?case by (simp del: syscall.simps)
qed simp

text \<open>
  The index traced is the position in the device array, for the devices of the array. A dynamic
  device is not in the array: what is traced for it is some number, possibly that of another device.
\<close>

lemma kbuf_id_static: "0 < sz \<Longrightarrow> kbuf_id sz devices (devices + int i * sz) = of_nat i"
  by (simp add: kbuf_id_def)

theorem kbuf_id_aliases:
  assumes "0 < sz"
  shows "\<exists>dev. dev \<notin> {devices ..< devices + 4 * sz} \<and> kbuf_id sz devices dev = kbuf_id sz devices devices"
proof -
  have "kbuf_id sz devices (devices + 2 ^ 32 * sz) = kbuf_id sz devices devices"
    using assms by (simp add: kbuf_id_def)
  then show ?thesis using assms by (intro exI [of _ "devices + 2 ^ 32 * sz"]) simp
qed

section \<open>A trace\<close>

theorem trace_replays_witness:
  "\<exists>es d'. traced 3 demo_spsc demo_calls = Some (es, d') \<and> replay 3 0 es = Some (length (dev_msgs d'))"
proof -
  have "dev_msgs demo_spsc = []" by (simp add: demo_simps)
  with trace_replays [OF demo_ok(2) demo_calls_ok, of 3] show ?thesis by auto
qed

end
