(* ===== verification/Kbuf_Cpp.thy ===== *)
theory Kbuf_Cpp
  imports Kbuf_Ioctl Kbuf_Libkbuf Kbuf_Dmabuf
begin

text \<open>
  The C++ wrapper include/kbufpp.hpp: move-only handles that own a descriptor or a mapping, and the
  methods of \<open>kbuf::Device\<close>. The first half follows which object owns which resource through
  constructors that may throw, moves, self-moves, resets and destructors; closing what is not open
  is \<open>None\<close>. The answers of \<open>open\<close>, \<open>ioctl\<close> and \<open>mmap\<close> are parameters of
  the statements. The second half runs the methods on the driver.
\<close>

section \<open>Objects\<close>

datatype res = Fd int | Map ptr u64

datatype cobj = Unique_fd int | Device int | Mapped_ring kbuf_map

text \<open>The open descriptors and mappings of the process, and the objects in scope by name.\<close>

record cpp =
  res_table :: "res set"
  objs :: "nat \<Rightarrow> cobj option"

definition give_back :: "res \<Rightarrow> cpp \<Rightarrow> cpp option" where
  "give_back r w = (if r \<in> res_table w then Some (w\<lparr>res_table := res_table w - {r}\<rparr>) else None)"

definition obtain_res :: "res \<Rightarrow> cpp \<Rightarrow> cpp" where
  "obtain_res r w = w\<lparr>res_table := insert r (res_table w)\<rparr>"

definition put_obj :: "nat \<Rightarrow> cobj option \<Rightarrow> cpp \<Rightarrow> cpp" where
  "put_obj v c w = w\<lparr>objs := (objs w)(v := c)\<rparr>"

section \<open>unique_fd\<close>

text \<open>The new value of \<open>fd_\<close>; what was there is closed.\<close>

definition unique_fd_reset :: "int \<Rightarrow> int \<Rightarrow> cpp \<Rightarrow> (int \<times> cpp) option" where
  "unique_fd_reset cur fd w =
     map_option (Pair fd) (if cur \<ge> 0 then give_back (Fd cur) w else Some w)"

text \<open>\<open>std::exchange (fd_, -1)\<close>: the value taken and the value left behind.\<close>

definition unique_fd_exchange :: "int \<Rightarrow> int \<times> int" where
  "unique_fd_exchange cur = (cur, - 1)"

section \<open>Destructors and moves\<close>

fun dtor :: "cobj \<Rightarrow> cpp \<Rightarrow> cpp option" where
  "dtor (Unique_fd cur) w = map_option snd (unique_fd_reset cur (- 1) w)"
| "dtor (Device cur) w = map_option snd (unique_fd_reset cur (- 1) w)"
| "dtor (Mapped_ring m) w =
     (case fst (kbuf_map_close m) of None \<Rightarrow> Some w | Some (b, l) \<Rightarrow> give_back (Map b l) w)"

text \<open>The object built from a moved-from one, and what is left of that one.\<close>

fun moved :: "cobj \<Rightarrow> cobj \<times> cobj" where
  "moved (Unique_fd cur) = map_prod Unique_fd Unique_fd (unique_fd_exchange cur)"
| "moved (Device cur) = map_prod Device Device (unique_fd_exchange cur)"
| "moved (Mapped_ring m) = (Mapped_ring m, Mapped_ring (m\<lparr>km_base := 0\<rparr>))"

definition move_ctor :: "nat \<Rightarrow> nat \<Rightarrow> cpp \<Rightarrow> cpp" where
  "move_ctor v s w = (case objs w s of
     None \<Rightarrow> w
   | Some c \<Rightarrow> let (new, old) = moved c in put_obj v (Some new) (put_obj s (Some old) w))"

definition move_assign :: "nat \<Rightarrow> nat \<Rightarrow> cpp \<Rightarrow> cpp option" where
  "move_assign v s w =
     (if v = s then Some w
      else case objs w v of
        None \<Rightarrow> None
      | Some c \<Rightarrow> map_option (move_ctor v s) (dtor c w))"

section \<open>Constructors\<close>

text \<open>The exception thrown, if any. When \<open>Device\<close> throws, its member is already built and is destroyed.\<close>

definition Device_ctor :: "nat \<Rightarrow> int \<Rightarrow> errno \<Rightarrow> cpp \<Rightarrow> (errno option \<times> cpp) option" where
  "Device_ctor v fd e w =
     (if \<not> fd \<ge> 0 then map_option (\<lambda>w. (Some e, w)) (dtor (Unique_fd fd) w)
      else Some (None, put_obj v (Some (Device fd)) (obtain_res (Fd fd) w)))"

definition export_dmabuf :: "nat \<Rightarrow> int \<Rightarrow> errno \<Rightarrow> int \<Rightarrow> cpp \<Rightarrow> (errno option \<times> cpp) option" where
  "export_dmabuf v ret e dfd w =
     (if ret \<noteq> 0 then Some (Some e, w)
      else Some (None, put_obj v (Some (Unique_fd dfd)) (obtain_res (Fd dfd) w)))"

definition zero_map :: kbuf_map where
  "zero_map = \<lparr>km_base = 0, km_ctrl = 0, km_data = 0, km_cap = 0, km_maplen = 0\<rparr>"

definition MappedRing_ctor :: "nat \<Rightarrow> u64 \<Rightarrow> ptr option \<Rightarrow> errno \<Rightarrow> cpp \<Rightarrow> (errno option \<times> cpp) option" where
  "MappedRing_ctor v pg base e w =
     (let (ret, m) = kbuf_map_open pg (\<lambda>_. base) zero_map in
      if ret \<noteq> 0 then Some (Some e, w)
      else Some (None, put_obj v (Some (Mapped_ring m)) (obtain_res (Map (km_base m) (km_maplen m)) w)))"

section \<open>Programs\<close>

datatype stmt =
    Open nat int errno
  | Export nat nat int errno int
  | Map_ring nat nat u64 "ptr option" errno
  | Adopt nat int
  | Move nat nat
  | Assign nat nat
  | Release nat
  | Reset_fd nat int
  | Scope_end nat

fun cpp_step :: "stmt \<Rightarrow> cpp \<Rightarrow> (errno option \<times> cpp) option" where
  "cpp_step (Open v fd e) w = Device_ctor v fd e w"
| "cpp_step (Export v d ret e dfd) w = export_dmabuf v ret e dfd w"
| "cpp_step (Map_ring v d pg base e) w = MappedRing_ctor v pg base e w"
| "cpp_step (Adopt v fd) w = Some (None, put_obj v (Some (Unique_fd fd)) w)"
| "cpp_step (Move v s) w = Some (None, move_ctor v s w)"
| "cpp_step (Assign v s) w = map_option (Pair None) (move_assign v s w)"
| "cpp_step (Release v) w = (case objs w v of
     Some (Unique_fd cur) \<Rightarrow> Some (None, put_obj v (Some (Unique_fd (snd (unique_fd_exchange cur)))) w)
   | _ \<Rightarrow> None)"
| "cpp_step (Reset_fd v fd) w = (case objs w v of
     Some (Unique_fd cur) \<Rightarrow> map_option (\<lambda>(fd', w). (None, put_obj v (Some (Unique_fd fd')) w)) (unique_fd_reset cur fd w)
   | _ \<Rightarrow> None)"
| "cpp_step (Scope_end v) w = (case objs w v of
     Some c \<Rightarrow> map_option (\<lambda>w. (None, put_obj v None w)) (dtor c w)
   | None \<Rightarrow> None)"

fun cpp_run :: "stmt list \<Rightarrow> cpp \<Rightarrow> cpp option" where
  "cpp_run [] w = Some w"
| "cpp_run (s # ss) w = (case cpp_step s w of None \<Rightarrow> None | Some (x, w') \<Rightarrow> cpp_run ss w')"

section \<open>Ownership\<close>

fun owns :: "cobj \<Rightarrow> res set" where
  "owns (Unique_fd cur) = (if cur \<ge> 0 then {Fd cur} else {})"
| "owns (Device cur) = (if cur \<ge> 0 then {Fd cur} else {})"
| "owns (Mapped_ring m) = (if km_base m \<noteq> 0 then {Map (km_base m) (km_maplen m)} else {})"

definition owns_at :: "cpp \<Rightarrow> nat \<Rightarrow> res set" where
  "owns_at w v = (case objs w v of None \<Rightarrow> {} | Some c \<Rightarrow> owns c)"

definition unowned :: "cpp \<Rightarrow> res set" where
  "unowned w = res_table w - (\<Union>v. owns_at w v)"

text \<open>What a handle holds is open, and no two handles hold the same thing.\<close>

definition own_ok :: "(nat \<Rightarrow> res set) \<Rightarrow> res set \<Rightarrow> bool" where
  "own_ok f T \<longleftrightarrow> (\<forall>v. f v \<subseteq> T) \<and> (\<forall>v v'. v \<noteq> v' \<longrightarrow> f v \<inter> f v' = {})"

definition cpp_inv :: "cpp \<Rightarrow> bool" where
  "cpp_inv w \<longleftrightarrow> own_ok (owns_at w) (res_table w)"

text \<open>
  What the language and the system guarantee: names are fresh when an object is built and alive when
  it is used, a descriptor or mapping handed out is not one already open; and what the programmer
  owes: a descriptor put into a handle is open and in no other handle.
\<close>

fun same_class :: "cobj \<Rightarrow> cobj \<Rightarrow> bool" where
  "same_class (Unique_fd _) (Unique_fd _) = True"
| "same_class (Device _) (Device _) = True"
| "same_class (Mapped_ring _) (Mapped_ring _) = True"
| "same_class _ _ = False"

fun legal :: "stmt \<Rightarrow> cpp \<Rightarrow> bool" where
  "legal (Open v fd e) w \<longleftrightarrow> objs w v = None \<and> Fd fd \<notin> res_table w"
| "legal (Export v d ret e dfd) w \<longleftrightarrow> objs w v = None \<and> (\<exists>fd. objs w d = Some (Device fd)) \<and>
     (ret = 0 \<longrightarrow> dfd \<ge> 0 \<and> Fd dfd \<notin> res_table w)"
| "legal (Map_ring v d pg base e) w \<longleftrightarrow> objs w v = None \<and> (\<exists>fd. objs w d = Some (Device fd)) \<and>
     (\<forall>b. base = Some b \<longrightarrow> b \<noteq> 0 \<and> (\<forall>l. Map b l \<notin> res_table w))"
| "legal (Adopt v fd) w \<longleftrightarrow> objs w v = None \<and> (fd < 0 \<or> Fd fd \<in> unowned w)"
| "legal (Move v s) w \<longleftrightarrow> objs w v = None \<and> objs w s \<noteq> None"
| "legal (Assign v s) w \<longleftrightarrow> (\<exists>c c'. objs w v = Some c \<and> objs w s = Some c' \<and> same_class c c')"
| "legal (Release v) w \<longleftrightarrow> (\<exists>fd. objs w v = Some (Unique_fd fd))"
| "legal (Reset_fd v fd) w \<longleftrightarrow> (\<exists>fd. objs w v = Some (Unique_fd fd)) \<and> (fd < 0 \<or> Fd fd \<in> unowned w)"
| "legal (Scope_end v) w \<longleftrightarrow> objs w v \<noteq> None"

fun legal_run :: "stmt list \<Rightarrow> cpp \<Rightarrow> bool" where
  "legal_run [] w = True"
| "legal_run (s # ss) w \<longleftrightarrow> legal s w \<and> (case cpp_step s w of None \<Rightarrow> True | Some (x, w') \<Rightarrow> legal_run ss w')"

text \<open>Statements by which a descriptor leaves or enters the care of the handles.\<close>

fun escapes :: "stmt \<Rightarrow> bool" where
  "escapes (Adopt v fd) \<longleftrightarrow> fd \<ge> 0"
| "escapes (Release v) = True"
| "escapes (Reset_fd v fd) \<longleftrightarrow> fd \<ge> 0"
| "escapes _ = False"

section \<open>Families of disjoint sets\<close>

lemma own_add:
  assumes "own_ok f T" "f v = {}" "r \<notin> T"
  shows "own_ok (f(v := {r})) (insert r T)" "insert r T - \<Union> (range (f(v := {r}))) = T - \<Union> (range f)"
  using assms by (auto simp: own_ok_def subset_iff disjoint_iff)

lemma own_kill:
  assumes "own_ok f T"
  shows "own_ok (f(v := {})) (T - f v)" "T - f v - \<Union> (range (f(v := {}))) = T - \<Union> (range f)"
  using assms by (auto simp: own_ok_def subset_iff disjoint_iff)

lemma own_move:
  assumes "own_ok f T" "f v = {}"
  shows "own_ok (f(s := {}, v := f s)) T" "T - \<Union> (range (f(s := {}, v := f s))) = T - \<Union> (range f)"
  using assms by (auto simp: own_ok_def subset_iff disjoint_iff fun_upd_def)

lemma own_adopt: "own_ok f T \<Longrightarrow> r \<in> T - \<Union> (range f) \<Longrightarrow> own_ok (f(v := {r})) T"
  by (auto simp: own_ok_def subset_iff disjoint_iff)

lemma own_drop: "own_ok f T \<Longrightarrow> own_ok (f(v := {})) T"
  by (auto simp: own_ok_def)

section \<open>Every statement keeps ownership\<close>

lemma put_simps [simp]:
  "res_table (put_obj v c w) = res_table w" "objs (put_obj v c w) = (objs w)(v := c)"
  "res_table (obtain_res r w) = insert r (res_table w)" "objs (obtain_res r w) = objs w"
  by (simp_all add: put_obj_def obtain_res_def)

lemma owns_at_simps [simp]:
  "owns_at (put_obj v c w) = (owns_at w)(v := case c of None \<Rightarrow> {} | Some c \<Rightarrow> owns c)"
  "owns_at (obtain_res r w) = owns_at w" "owns_at (w\<lparr>res_table := T\<rparr>) = owns_at w"
  by (simp_all add: owns_at_def fun_eq_iff)

lemma owns_at_None [simp]: "objs w v = None \<Longrightarrow> owns_at w v = {}"
  by (simp add: owns_at_def)

lemma owns_at_Some [simp]: "objs w v = Some c \<Longrightarrow> owns_at w v = owns c"
  by (simp add: owns_at_def)

lemma moved_owns [simp]: "owns (fst (moved c)) = owns c" "owns (snd (moved c)) = {}"
  by (cases c; simp add: unique_fd_exchange_def)+

definition keeps :: "cpp \<Rightarrow> cpp \<Rightarrow> bool" where
  "keeps w w' \<longleftrightarrow> cpp_inv w' \<and> unowned w' = unowned w"

lemma add_keeps:
  assumes "cpp_inv w" "objs w v = None" "owns c = {r}" "r \<notin> res_table w"
  shows "keeps w (put_obj v (Some c) (obtain_res r w))"
  using own_add [of "owns_at w" "res_table w" v r] assms by (simp add: keeps_def cpp_inv_def unowned_def)

lemma dtor_eq:
  assumes "cpp_inv w" "objs w v = Some c"
  shows "dtor c w = Some (w\<lparr>res_table := res_table w - owns c\<rparr>)"
proof -
  have "owns c \<subseteq> res_table w"
    using assms(1) owns_at_Some [of w v, OF assms(2)] unfolding cpp_inv_def own_ok_def by metis
  then show ?thesis
    by (cases c) (auto simp: unique_fd_reset_def give_back_def kbuf_map_close_def split: if_splits)
qed

lemma kill_keeps:
  assumes "cpp_inv w" "objs w v = Some c" "case x of None \<Rightarrow> True | Some c' \<Rightarrow> owns c' = {}"
  shows "keeps w (put_obj v x (w\<lparr>res_table := res_table w - owns c\<rparr>))"
proof -
  have "(case x of None \<Rightarrow> {} | Some c \<Rightarrow> owns c) = {}" using assms(3) by (auto split: option.splits)
  then show ?thesis
    using own_kill [of "owns_at w" "res_table w" v] assms(1,2) by (simp add: keeps_def cpp_inv_def unowned_def)
qed

lemma move_keeps:
  assumes "cpp_inv w" "objs w s = Some c" "owns_at w v = {}"
  shows "keeps w (move_ctor v s w)"
proof -
  have "move_ctor v s w = put_obj v (Some (fst (moved c))) (put_obj s (Some (snd (moved c))) w)"
    using assms(2) by (simp add: move_ctor_def split_beta)
  then show ?thesis
    using own_move [of "owns_at w" "res_table w" v s] assms by (simp add: keeps_def cpp_inv_def unowned_def)
qed

lemma keeps_trans: "keeps w w1 \<Longrightarrow> keeps w1 w2 \<Longrightarrow> keeps w w2"
  by (simp add: keeps_def)

lemma assign_keeps:
  assumes "cpp_inv w" "objs w v = Some c" "objs w s = Some c'"
  shows "\<exists>w'. move_assign v s w = Some w' \<and> keeps w w'"
proof (cases "v = s")
  case True
  with assms(1) show ?thesis by (simp add: move_assign_def keeps_def)
next
  case False
  let ?w = "w\<lparr>res_table := res_table w - owns c\<rparr>"
  define w1 where "w1 = put_obj v (Some (snd (moved c))) ?w"
  have k: "keeps w w1" unfolding w1_def by (rule kill_keeps [OF assms(1,2)]) simp
  have "move_ctor v s ?w = move_ctor v s w1"
    using False assms(3) by (simp add: move_ctor_def w1_def split_beta put_obj_def fun_upd_twist)
  moreover have "keeps w1 (move_ctor v s w1)"
    using k False assms(3) by (intro move_keeps [of _ _ c']) (simp_all add: keeps_def w1_def)
  ultimately show ?thesis
    using dtor_eq [OF assms(1,2)] False assms(2) keeps_trans [OF k] by (simp add: move_assign_def)
qed

lemma cpp_step_ok:
  assumes "cpp_inv w" "legal s w"
  shows "\<exists>x w'. cpp_step s w = Some (x, w') \<and> cpp_inv w' \<and> (\<not> escapes s \<longrightarrow> unowned w' = unowned w) \<and>
    (x \<noteq> None \<longrightarrow> w' = w)"
proof (cases s)
  case (Open v fd e)
  show ?thesis
  proof (cases "fd \<ge> 0")
    case True
    with Open assms add_keeps [of w v "Device fd"] show ?thesis by (simp add: Device_ctor_def keeps_def)
  qed (use Open assms in \<open>simp add: Device_ctor_def unique_fd_reset_def\<close>)
next
  case (Export v d ret e dfd)
  with assms add_keeps [of w v "Unique_fd dfd"] show ?thesis by (auto simp: export_dmabuf_def keeps_def)
next
  case (Map_ring v d pg base e)
  show ?thesis
  proof (cases base)
    case (Some b)
    define m where "m = snd (kbuf_map_open pg (\<lambda>_. Some b) zero_map)"
    have m: "kbuf_map_open pg (\<lambda>_. Some b) zero_map = (0, m)" "km_base m = b"
      by (simp_all add: m_def kbuf_map_open_def Let_def)
    from add_keeps [of w v "Mapped_ring m" "Map (km_base m) (km_maplen m)"] assms Map_ring Some
    show ?thesis by (simp add: MappedRing_ctor_def m keeps_def)
  qed (use Map_ring assms in \<open>simp add: MappedRing_ctor_def kbuf_map_open_def Let_def\<close>)
next
  case (Adopt v fd)
  show ?thesis
  proof (cases "fd \<ge> 0")
    case True
    with Adopt assms own_adopt [of "owns_at w" "res_table w" "Fd fd" v] show ?thesis
      by (simp add: cpp_inv_def unowned_def)
  next
    case False
    with Adopt assms have "(owns_at w)(v := {}) = owns_at w" by (auto simp: fun_eq_iff)
    with False Adopt assms show ?thesis by (simp add: cpp_inv_def unowned_def)
  qed
next
  case (Move v s)
  with assms move_keeps [of w s _ v] show ?thesis by (auto simp: keeps_def)
next
  case (Assign v s)
  with assms assign_keeps [of w v _ s] show ?thesis by (fastforce simp: keeps_def)
next
  case (Release v)
  with assms own_drop [of "owns_at w" "res_table w" v] show ?thesis
    by (auto simp: cpp_inv_def unique_fd_exchange_def)
next
  case (Reset_fd v fd)
  then obtain old where o: "objs w v = Some (Unique_fd old)" using assms(2) by auto
  define w1 where "w1 = put_obj v (Some (Unique_fd (- 1))) (w\<lparr>res_table := res_table w - owns (Unique_fd old)\<rparr>)"
  have k: "keeps w w1" unfolding w1_def by (rule kill_keeps [OF assms(1) o]) simp
  have st: "cpp_step s w = Some (None, put_obj v (Some (Unique_fd fd)) w1)"
    using dtor_eq [OF assms(1) o] Reset_fd o
    by (auto simp: unique_fd_reset_def w1_def put_obj_def split: option.splits if_splits)
  show ?thesis
  proof (cases "fd \<ge> 0")
    case True
    with Reset_fd assms(2) k have "Fd fd \<in> res_table w1 - \<Union> (range (owns_at w1))"
      by (simp add: keeps_def flip: unowned_def)
    from own_adopt [OF _ this, of v] k True st Reset_fd show ?thesis
      by (simp add: cpp_inv_def keeps_def)
  next
    case False
    then have "(owns_at w1)(v := owns (Unique_fd fd)) = owns_at w1" by (simp add: w1_def)
    with False k st show ?thesis by (simp add: cpp_inv_def unowned_def keeps_def)
  qed
next
  case (Scope_end v)
  then obtain c where c: "objs w v = Some c" using assms(2) by auto
  with Scope_end dtor_eq [OF assms(1) c] kill_keeps [OF assms(1) c, of None] show ?thesis
    by (simp add: keeps_def)
qed

lemma cpp_run_ok:
  "cpp_inv w \<Longrightarrow> legal_run ss w \<Longrightarrow>
   \<exists>w'. cpp_run ss w = Some w' \<and> cpp_inv w' \<and> ((\<forall>s \<in> set ss. \<not> escapes s) \<longrightarrow> unowned w' = unowned w)"
proof (induction ss arbitrary: w)
  case (Cons s ss)
  have "legal s w" using Cons.prems(2) by simp
  from cpp_step_ok [OF Cons.prems(1) this] obtain x w1 where
    "cpp_step s w = Some (x, w1)" "cpp_inv w1" "\<not> escapes s \<longrightarrow> unowned w1 = unowned w" by blast
  with Cons.IH [of w1] Cons.prems(2) show ?case by auto
qed simp

text \<open>
  C18: the handles own what they hold. A program that obeys the language's rules never closes a
  descriptor or unmaps a region that is not open, whichever constructors throw and however handles
  are moved, assigned to themselves, reset and destroyed; at every moment no two handles hold the
  same resource and all they hold is open. If the program does not take descriptors out of or into
  handles by hand, then once all objects are gone exactly the resources from before are left.
\<close>

theorem raii_exactly_once:
  assumes "cpp_inv w" "legal_run ss w"
  shows "\<exists>w'. cpp_run ss w = Some w' \<and> cpp_inv w' \<and>
    ((\<forall>s \<in> set ss. \<not> escapes s) \<and> (\<forall>v. objs w' v = None) \<longrightarrow> res_table w' = unowned w)"
proof -
  from cpp_run_ok [OF assms] obtain w' where
    w': "cpp_run ss w = Some w'" "cpp_inv w'" "(\<forall>s \<in> set ss. \<not> escapes s) \<longrightarrow> unowned w' = unowned w"
    by blast
  moreover have "(\<forall>v. objs w' v = None) \<longrightarrow> unowned w' = res_table w'" by (simp add: unowned_def)
  ultimately show ?thesis by auto
qed

section \<open>The methods of Device\<close>

text \<open>
  The C library turns the driver's negative result into \<open>-1\<close> and \<open>errno\<close>; the
  methods turn that into a \<open>std::system_error\<close> with the same code. \<open>old\<close> is what
  \<open>errno\<close> held before. The structures passed to \<open>ioctl\<close> are objects of the caller's
  stack, so the kernel can always reach them.
\<close>

definition c_ret :: "errno \<Rightarrow> nat result \<Rightarrow> int \<times> errno" where
  "c_ret old r = (case r of Inl e \<Rightarrow> (- 1, e) | Inr n \<Rightarrow> (int n, old))"

definition c_ret0 :: "errno \<Rightarrow> unit result \<Rightarrow> int \<times> errno" where
  "c_ret0 old r = (case r of Inl e \<Rightarrow> (- 1, e) | Inr _ \<Rightarrow> (0, old))"

definition Device_read :: "errno \<Rightarrow> sched \<Rightarrow> uaccess \<Rightarrow> bool \<Rightarrow> nat \<Rightarrow> kbuf_dev
    \<Rightarrow> (nat result \<times> u8 list \<times> kbuf_dev) option option" where
  "Device_read old s u nonblock cnt d =
     map_option (map_option (\<lambda>(r, out, w, d').
       let (n, errno) = c_ret old r in
       (if n < 0 then Inl errno else Inr (nat n), out, d'))) (kbuf_read s u nonblock cnt d)"

definition Device_write :: "errno \<Rightarrow> sched \<Rightarrow> uaccess \<Rightarrow> bool \<Rightarrow> ubuf \<Rightarrow> nat \<Rightarrow> kbuf_dev
    \<Rightarrow> (nat result \<times> kbuf_dev) option option" where
  "Device_write old s u nonblock inp cnt d =
     map_option (map_option (\<lambda>(r, out, w, d').
       let (n, errno) = c_ret old r in
       (if n < 0 then Inl errno else Inr (nat n), d'))) (kbuf_write s u nonblock inp cnt d)"

definition Device_stats :: "errno \<Rightarrow> kbuf_dev \<Rightarrow> kbuf_stats result" where
  "Device_stats old d =
     (let (r, s) = kbuf_ioc_getstats good_user d; (ret, errno) = c_ret0 old r in
      if ret \<noteq> 0 then Inl errno else Inr (stats_of_bytes s))"

definition Device_reset :: "errno \<Rightarrow> kbuf_dev \<Rightarrow> unit result \<times> kbuf_dev" where
  "Device_reset old d =
     (let (r, d') = kbuf_ioc_reset d; (ret, errno) = c_ret0 old r in
      (if ret \<noteq> 0 then Inl errno else Inr (), d'))"

definition Device_resize :: "errno \<Rightarrow> u32 \<Rightarrow> u32 \<Rightarrow> kbuf_dev \<Rightarrow> (kst, unit result \<times> kbuf_dev) state" where
  "Device_resize old num sz d = do {
     (r, w, d') \<leftarrow> kbuf_ioc_resize good_user (resize_arg num sz) (\<lambda>d. d) d;
     let (ret, errno) = c_ret0 old r;
     State_Monad.return (if ret \<noteq> 0 then Inl errno else Inr (), d') }"

datatype Mode = Mode_blocking | Mode_spsc

primrec static_cast :: "Mode \<Rightarrow> int" where
  "static_cast Mode_blocking = KBUF_MODE_BLOCKING"
| "static_cast Mode_spsc = KBUF_MODE_SPSC"

definition Device_set_mode :: "errno \<Rightarrow> Mode \<Rightarrow> kbuf_dev \<Rightarrow> unit result \<times> kbuf_dev" where
  "Device_set_mode old m d =
     (let v = word_of_int (static_cast m); (r, d') = kbuf_ioc_smode good_user (mode_arg v) d;
          (ret, errno) = c_ret0 old r in
      (if ret \<noteq> 0 then Inl errno else Inr (), d'))"

definition run_import_selftest :: "errno \<Rightarrow> int \<Rightarrow> (int \<Rightarrow> u8 list) \<Rightarrow> (kst, (unit result \<times> u8 list) option) state" where
  "run_import_selftest old dfd bufs = do {
     x \<leftarrow> kbuf_ioc_import good_user (mode_arg (word_of_int dfd)) bufs;
     State_Monad.return (map_option (\<lambda>(r, buf).
       let (ret, errno) = c_ret0 old r in (if ret \<noteq> 0 then Inl errno else Inr (), buf)) x) }"

lemma c_ret_eq [simp]:
  "(if fst (c_ret old r) < 0 then Inl (snd (c_ret old r)) else Inr (nat (fst (c_ret old r)))) = r"
  "(if fst (c_ret0 old q) \<noteq> 0 then Inl (snd (c_ret0 old q)) else Inr ()) = q"
  by (auto simp: c_ret_def c_ret0_def split: sum.splits)

text \<open>The methods report what the driver answered.\<close>

lemma Device_eq:
  "Device_read old s u nb cnt d = map_option (map_option (\<lambda>(r, out, w, d'). (r, out, d'))) (kbuf_read s u nb cnt d)"
  "Device_write old s u nb inp cnt d = map_option (map_option (\<lambda>(r, out, w, d'). (r, d'))) (kbuf_write s u nb inp cnt d)"
  "Device_reset old d = kbuf_ioc_reset d"
  "Device_resize old num sz d = do { (r, w, d') \<leftarrow> kbuf_ioc_resize good_user (resize_arg num sz) (\<lambda>d. d) d;
     State_Monad.return (r, d') }"
  "Device_set_mode old m d = kbuf_ioc_smode good_user (mode_arg (word_of_int (static_cast m))) d"
  by (simp_all add: Device_read_def Device_write_def Device_reset_def Device_resize_def Device_set_mode_def
      split_beta Let_def)

text \<open>The self-test runs on the buffer of the descriptor passed, also after the way through an \<open>int\<close>.\<close>

lemma run_import_selftest_eq:
  assumes "- (2 ^ 31) \<le> dfd" "dfd < 2 ^ 31"
  shows "run_import_selftest old dfd bufs = kbuf_dmabuf_import_selftest (bufs dfd)"
proof -
  have "sint (word_of_int dfd :: u32) = dfd"
    using assms by (simp add: sint_sbintrunc' signed_take_bit_int_eq_self)
  then have "kbuf_ioc_import good_user (mode_arg (word_of_int dfd)) bufs = kbuf_dmabuf_import_selftest (bufs dfd)"
    unfolding kbuf_ioc_import_def copy_mode_arg by simp
  moreover have "map_option (\<lambda>(r, buf). let (ret, errno) = c_ret0 old r in
      (if ret \<noteq> 0 then Inl errno else Inr (), buf)) x = x" for x :: "(unit result \<times> u8 list) option"
    by (cases x) (simp_all add: split_beta Let_def)
  ultimately show ?thesis by (simp add: run_import_selftest_def)
qed

lemma Device_stats_eq:
  "Device_stats old d = Inr \<lparr>
     st_bytes_produced = bytes_produced d, st_bytes_consumed = bytes_consumed d,
     st_msgs_produced = msgs_produced d, st_msgs_consumed = msgs_consumed d,
     st_read_sleeps = read_sleeps d, st_write_sleeps = write_sleeps d,
     st_num_buffers = num_buffers d, st_buffer_size = buffer_size d,
     st_cur_count = kbuf_occupancy d, st_peak_count = peak_count d\<rparr>"
  by (simp add: Device_stats_def kbuf_ioc_getstats_def c_ret0_def Let_def)

lemma set_mode_result:
  assumes "Device_set_mode old m d = (r, d')" "dev_ok d"
  shows "dev_ok d' \<and> dev_msgs d' = dev_msgs d \<and> num_buffers d' = num_buffers d \<and> buffer_size d' = buffer_size d \<and>
    (r = Inr () \<longleftrightarrow> dev_msgs d = [] \<and> (m = Mode_spsc \<longrightarrow> is_power_of_2 (num_buffers d))) \<and>
    (r = Inr () \<longrightarrow> mode d' = static_cast m)"
proof -
  have v: "sint (le_word (le_bytes 4 (word_of_int (static_cast m) :: u32)) :: u32) = static_cast m"
    by (cases m) simp_all
  have e: "kbuf_ioc_smode good_user (mode_arg (word_of_int (static_cast m))) d = (r, d')"
    using assms(1) by (simp only: Device_eq)
  have "num_buffers d' = num_buffers d" "buffer_size d' = buffer_size d"
    "r = Inr () \<longleftrightarrow> dev_msgs d = [] \<and> (m = Mode_spsc \<longrightarrow> is_power_of_2 (num_buffers d))"
    "r = Inr () \<longrightarrow> mode d' = static_cast m"
    using e unfolding kbuf_ioc_smode_def copy_mode_arg Let_def prod.case v
    by (cases m; auto simp: occupancy_0_iff split: if_splits)+
  with smode_ok [OF assms(2) e] show ?thesis by auto
qed

text \<open>
  Configuring a device through the wrapper does what it says. \<open>resize(num, size)\<close> and
  then \<open>set_mode(m)\<close> keep the device well formed and its messages, whatever the kernel
  answers; if \<open>resize\<close> does not throw, \<open>stats()\<close> reports an empty ring of exactly that
  geometry and \<open>set_mode\<close> throws only for the lock-free mode with a number of slots that is
  not a power of two; if it throws, the geometry is the old one.
\<close>

theorem cpp_configure:
  assumes "dev_ok d" "run_state (Device_resize old num sz d) k = ((r, d1), k')"
    and "Device_set_mode old m d1 = (r', d2)"
  shows "dev_ok d2 \<and> dev_msgs d2 = dev_msgs d \<and> (r' = Inr () \<longrightarrow> mode d2 = static_cast m) \<and>
    (\<exists>st. Device_stats old d2 = Inr st \<and>
      (if r = Inr () then st_num_buffers st = num \<and> st_buffer_size st = sz \<and> st_cur_count st = 0 \<and>
          (r' = Inr () \<longleftrightarrow> m = Mode_spsc \<longrightarrow> is_power_of_2 num)
       else st_num_buffers st = num_buffers d \<and> st_buffer_size st = buffer_size d))"
proof -
  from assms(2) obtain w where run:
    "run_state (kbuf_ioc_resize good_user (resize_arg num sz) (\<lambda>d. d) d) k = ((r, w, d1), k')"
    by (auto simp: Device_eq split: prod.splits)
  note a = resize_ok [OF run assms(1) assms(1) refl]
  then have "dev_ok d1" by simp
  note b = set_mode_result [OF assms(3) this]
  show ?thesis
  proof (cases r)
    case (Inl e)
    with a have "d1 = d" by (auto split: if_splits)
    with b Inl show ?thesis by (simp add: Device_stats_eq)
  next
    case (Inr x)
    with a b show ?thesis by (simp add: Device_stats_eq occupancy_0_iff)
  qed
qed

section \<open>The methods of MappedRing\<close>

definition MappedRing_reset :: "kbuf_dev \<Rightarrow> kbuf_dev" where
  "MappedRing_reset d = kbuf_map_reset d"

definition MappedRing_data :: "kbuf_map \<Rightarrow> ptr \<times> u64" where
  "MappedRing_data m = (km_data m, km_cap m)"

definition MappedRing_write :: "nat \<Rightarrow> kbuf_map \<Rightarrow> kbuf_dev \<Rightarrow> u8 list \<Rightarrow> (u64 \<times> kbuf_dev) option" where
  "MappedRing_write ps m d inp = kbuf_map_write ps m d (arg_of inp) (of_nat (length inp))"

definition MappedRing_read :: "nat \<Rightarrow> kbuf_map \<Rightarrow> kbuf_dev \<Rightarrow> u64 \<Rightarrow> (u64 \<times> u8 list \<times> kbuf_dev) option" where
  "MappedRing_read ps m d out_size = kbuf_map_read ps m d out_size"

text \<open>
  On a ring that has been reset, \<open>write\<close> takes a span of at most the capacity whole and
  \<open>read\<close> gives it back, also through a handle the ring has been moved into.
\<close>

lemma ring_roundtrip:
  assumes "map_ok ps m d" "length inp \<le> KBUF_MMAP_CAPACITY" "objs w s = Some (Mapped_ring m)" "objs w v = None"
  shows "\<exists>m' d1 d2. objs (move_ctor v s w) v = Some (Mapped_ring m') \<and>
    MappedRing_write ps m' (MappedRing_reset d) inp = Some (of_nat (length inp), d1) \<and>
    MappedRing_read ps m' d1 (of_nat (length inp)) = Some (of_nat (length inp), inp, d2) \<and> map_bytes d2 = []"
proof -
  have ok: "map_ok ps m (MappedRing_reset d)" and e: "map_bytes (MappedRing_reset d) = []"
    using assms(1) by (simp_all add: map_ok_def map_bytes_def MappedRing_reset_def kbuf_map_reset_def)
  have n: "unat (of_nat (length inp) :: u64) = length inp"
    using assms(2) unfolding KBUF_MMAP_CAPACITY_def by (simp only: unat_of_nat) simp
  from map_write_appends [OF ok refl, of "arg_of inp" "of_nat (length inp)"] obtain d1 where
    1: "MappedRing_write ps m (MappedRing_reset d) inp = Some (of_nat (length inp), d1)" "map_ok ps m d1"
      "map_bytes d1 = inp"
    unfolding MappedRing_write_def n e using assms(2) by (auto simp: min_absorb1)
  from map_read_takes [OF 1(2) refl, of "of_nat (length inp)"] obtain d2 where
    "MappedRing_read ps m d1 (of_nat (length inp)) = Some (of_nat (length inp), inp, d2)" "map_bytes d2 = []"
    unfolding MappedRing_read_def n 1(3) by auto
  with 1 assms(3) show ?thesis by (auto simp: move_ctor_def)
qed

lemma MappedRing_data_inside:
  assumes "kbuf_map_open (of_nat ps) mm m = (0, m')" "ps < 2 ^ 32"
  shows "fst (MappedRing_data m') = km_base m' + int ps \<and>
    fst (MappedRing_data m') + int (unat (snd (MappedRing_data m'))) \<le> km_base m' + int (unat (km_maplen m'))"
proof -
  have ps: "unat (of_nat ps :: u64) = ps" using assms(2) by (simp only: unat_of_nat) simp
  have m': "km_maplen m' = of_nat (ps + 2 * KBUF_MMAP_CAPACITY)"
    "km_data m' = km_base m' + int ps" "km_cap m' = of_nat KBUF_MMAP_CAPACITY"
    using assms(1) unfolding kbuf_map_open_def Let_def
    by (auto simp: ps simp del: unsigned_of_nat split: option.splits)
  have "ps + 2 * KBUF_MMAP_CAPACITY < 2 ^ 64" using assms(2) by (simp add: KBUF_MMAP_CAPACITY_def)
  then have "unat (km_maplen m') = ps + 2 * KBUF_MMAP_CAPACITY"
    unfolding m'(1) by (simp only: unat_of_nat) simp
  then show ?thesis unfolding MappedRing_data_def m'(2,3) fst_conv snd_conv unat_cap by linarith
qed

section \<open>A program\<close>

text \<open>
  A device is opened and exported, the export moved and assigned to itself, a second open fails, a
  ring is mapped and moved; then the scopes end.
\<close>

definition demo_program :: "stmt list" where
  "demo_program = [Open 0 3 EIO, Export 1 0 0 EIO 4, Move 2 1, Assign 2 2, Open 3 (- 1) ENOENT,
     Map_ring 4 0 4096 (Some 0x100000) EIO, Move 5 4, Assign 1 2,
     Scope_end 5, Scope_end 4, Scope_end 2, Scope_end 1, Scope_end 0]"

definition demo_proc :: cpp where
  "demo_proc = \<lparr>res_table = {Fd 0, Fd 1, Fd 2}, objs = (\<lambda>_. None)\<rparr>"

lemmas cpp_simps = Device_ctor_def export_dmabuf_def MappedRing_ctor_def kbuf_map_open_def zero_map_def
  move_ctor_def move_assign_def unique_fd_reset_def unique_fd_exchange_def give_back_def obtain_res_def
  put_obj_def kbuf_map_close_def Let_def

theorem raii_exactly_once_witness:
  "\<exists>w'. cpp_run demo_program demo_proc = Some w' \<and> res_table w' = {Fd 0, Fd 1, Fd 2}"
proof -
  have i: "cpp_inv demo_proc" "unowned demo_proc = {Fd 0, Fd 1, Fd 2}"
    by (simp_all add: cpp_inv_def own_ok_def unowned_def owns_at_def demo_proc_def)
  have l: "legal_run demo_program demo_proc"
    by (simp add: demo_program_def demo_proc_def cpp_simps)
  have "\<forall>w'. cpp_run demo_program demo_proc = Some w' \<longrightarrow> (\<forall>v. objs w' v = None)"
    by (auto simp: demo_program_def demo_proc_def cpp_simps)
  moreover have "\<forall>s \<in> set demo_program. \<not> escapes s" by (simp add: demo_program_def)
  ultimately show ?thesis using raii_exactly_once [OF i(1) l] i(2) by auto
qed

theorem cpp_configure_witness:
  "\<exists>d1 d2 k' st. run_state (Device_resize EIO 1 1 demo_dev) demo_kst = ((Inr (), d1), k') \<and>
     Device_set_mode EIO Mode_spsc d1 = (Inr (), d2) \<and> Device_stats EIO d2 = Inr st \<and> st_num_buffers st = 1"
proof -
  obtain d1 k' where run: "run_state (Device_resize EIO 1 1 demo_dev) demo_kst = ((Inr (), d1), k')"
    using demo_resize1 by (auto simp: Device_eq)
  obtain r d2 where m: "Device_set_mode EIO Mode_spsc d1 = (r, d2)" by fastforce
  from cpp_configure [OF demo_ok(1) run m] run m show ?thesis by (auto simp: is_power_of_2_def)
qed

end
