(* ===== verification/Kbuf_Bench.thy ===== *)
theory Kbuf_Bench
  imports Kbuf_Ioctl Kbuf_Libkbuf
begin

text \<open>
  The benchmark program bench/kbuf_bench.c as a client of the driver: the set-up of a slot-ring
  device, and the producer and consumer processes that move a given number of bytes, or time stamps
  of eight bytes, through the mmap ring. The two processes interleave call by call. The clock, the
  pinning to CPUs and the printing are not modelled; the pipe transport is the kernel's own.
\<close>

section \<open>Draining a device\<close>

text \<open>\<open>while (read(fd, drain, sizeof(drain)) > 0)\<close> on a descriptor opened with \<open>O_NONBLOCK\<close>.\<close>

partial_function (option) drain_loop :: "kbuf_dev \<Rightarrow> kbuf_dev option option" where
  "drain_loop d =
     (case syscall d good_user (Read 65536) of
        None \<Rightarrow> Some None
      | Some (Failed e, d') \<Rightarrow> Some (Some d')
      | Some (Done n out, d') \<Rightarrow> if n > 0 then drain_loop d' else Some (Some d'))"

text \<open>\<open>opened\<close> tells whether \<open>open\<close> succeeded. The result is the return value and the device.\<close>

definition slot_setup :: "bool \<Rightarrow> u32 \<Rightarrow> bool \<Rightarrow> kbuf_dev \<Rightarrow> (kst, (int \<times> kbuf_dev) option option) state" where
  "slot_setup opened msgsize spsc d =
     (if \<not> opened then State_Monad.return (Some (Some (- 1, d)))
      else let d = snd (kbuf_ioc_smode good_user (mode_arg (word_of_int KBUF_MODE_BLOCKING)) d) in
        case drain_loop d of
          None \<Rightarrow> State_Monad.return None
        | Some None \<Rightarrow> State_Monad.return (Some None)
        | Some (Some d) \<Rightarrow> do {
            (r, w, d) \<leftarrow> kbuf_ioc_resize good_user (resize_arg 8 msgsize) (\<lambda>d. d) d;
            if isl r then State_Monad.return (Some (Some (- 1, d)))
            else let (r, d) = kbuf_ioc_smode good_user
                (mode_arg (word_of_int (if spsc then KBUF_MODE_SPSC else KBUF_MODE_BLOCKING))) d in
              State_Monad.return (Some (Some (if isl r then - 1 else 0, d))) })"

lemma good_consume:
  "kbuf_ring_consume good_user d n = Some (r, out, d') \<Longrightarrow> \<not> isl r"
  "kbuf_spsc_consume good_user d n = Some (r, out, d') \<Longrightarrow> \<not> isl r"
  by (auto simp: kbuf_ring_consume_def kbuf_spsc_consume_def Let_def split: if_splits)

text \<open>A read into valid memory takes the oldest message.\<close>

lemma good_read:
  assumes "dev_ok d" "dev_msgs d = m # ms"
  shows "\<exists>d'. syscall d good_user (Read n) = Some (Done (min n (length m)) (take n m), d') \<and> dev_ok d' \<and>
    mode d' = mode d \<and> dev_msgs d' = ms"
proof -
  from device.serves [OF assms(1) uaccess_ok_good, of "Read n"] obtain r d' where
    s: "syscall d good_user (Read n) = Some (r, d')" "dev_ok d'"
      "spec_step (unat (num_buffers d)) (unat (buffer_size d)) (dev_msgs d) (Read n) r (dev_msgs d')" by blast
  have f: "r \<noteq> Failed EFAULT"
    using s(1) by (auto simp: read_nonblock finish_read_def reply_of_def sum.case_eq_if split: if_splits
        dest: good_consume)
  have "mode d' = mode d"
    using s(1) by (auto simp: read_nonblock finish_read_def reply_of_def split: if_splits
        dest: ring_consume_frame spsc_consume_frame)
  moreover from s(3) f have "r = Done (min n (length m)) (take n m) \<and> dev_msgs d' = ms"
    by (auto simp: assms(2) elim: spec_step_readE)
  ultimately show ?thesis using s by simp
qed

lemma empty_read:
  assumes "dev_ok d" "dev_msgs d = []"
  shows "\<exists>d'. syscall d good_user (Read n) = Some (Failed EAGAIN, d') \<and> dev_ok d' \<and>
    mode d' = mode d \<and> dev_msgs d' = []"
proof -
  from device.serves [OF assms(1) uaccess_ok_good, of "Read n"] obtain r d' where
    s: "syscall d good_user (Read n) = Some (r, d')" "dev_ok d'"
      "spec_step (unat (num_buffers d)) (unat (buffer_size d)) (dev_msgs d) (Read n) r (dev_msgs d')" by blast
  have "mode d' = mode d"
    using s(1) by (auto simp: read_nonblock finish_read_def reply_of_def split: if_splits
        dest: ring_consume_frame spsc_consume_frame)
  moreover from s(3) have "r = Failed EAGAIN \<and> dev_msgs d' = []"
    by (auto simp: assms(2) elim: spec_step_readE)
  ultimately show ?thesis using s by simp
qed

text \<open>The loop stops after the first message without content, which looks like an empty ring to it.\<close>

lemma drain_loop_result:
  assumes "dev_ok d"
  shows "\<exists>d'. drain_loop d = Some (Some d') \<and> dev_ok d' \<and> mode d' = mode d \<and>
    dev_msgs d' = tl (dropWhile (\<lambda>m. m \<noteq> []) (dev_msgs d))"
  using assms
proof (induction "dev_msgs d" arbitrary: d)
  case Nil
  from empty_read [OF Nil(2), of 65536] Nil(1) show ?case by (subst drain_loop.simps) auto
next
  case (Cons m ms)
  from good_read [OF Cons.prems Cons.hyps(2) [symmetric], of 65536] obtain d1 where
    1: "syscall d good_user (Read 65536) = Some (Done (min 65536 (length m)) (take 65536 m), d1)" "dev_ok d1"
      "mode d1 = mode d" "dev_msgs d1 = ms" by blast
  show ?case
  proof (cases "m = []")
    case True
    then show ?thesis using 1 Cons.hyps(2) [symmetric] by (subst drain_loop.simps) simp
  next
    case False
    then have "drain_loop d = drain_loop d1" using 1(1) by (subst drain_loop.simps) simp
    with Cons.hyps(1) [OF 1(4) [symmetric] 1(2)] 1 False Cons.hyps(2) [symmetric] show ?thesis by simp
  qed
qed

text \<open>Draining empties the ring unless a message without content is followed by another one.\<close>

lemma drains_iff: "tl (dropWhile (\<lambda>m. m \<noteq> []) q) = [] \<longleftrightarrow> (\<forall>m \<in> set (butlast q). m \<noteq> [])"
  by (induction q) auto

lemma smode_blocking:
  assumes "dev_ok d"
  shows "dev_ok (snd (kbuf_ioc_smode u arg d))" "dev_msgs (snd (kbuf_ioc_smode u arg d)) = dev_msgs d"
  using smode_ok [OF assms, of u arg] by (metis prod.collapse)+

lemma setup_mode:
  assumes "dev_ok d" "dev_msgs d = []" "num_buffers d = 8"
  shows "\<exists>d'. kbuf_ioc_smode good_user (mode_arg (word_of_int (if spsc then KBUF_MODE_SPSC else KBUF_MODE_BLOCKING))) d =
      (Inr (), d') \<and> dev_ok d' \<and> dev_msgs d' = [] \<and> num_buffers d' = 8 \<and> buffer_size d' = buffer_size d \<and>
      mode d' = (if spsc then KBUF_MODE_SPSC else KBUF_MODE_BLOCKING)"
proof -
  let ?m = "if spsc then KBUF_MODE_SPSC else KBUF_MODE_BLOCKING"
  have v: "sint (le_word (le_bytes 4 (word_of_int ?m :: u32)) :: u32) = ?m" by (cases spsc) simp_all
  have p: "is_power_of_2 8" by (simp add: is_power_of_2_def)
  obtain r d' where e: "kbuf_ioc_smode good_user (mode_arg (word_of_int ?m)) d = (r, d')" by fastforce
  then have "r = Inr () \<and> num_buffers d' = num_buffers d \<and> buffer_size d' = buffer_size d \<and> mode d' = ?m"
    unfolding kbuf_ioc_smode_def copy_mode_arg Let_def prod.case v
    using assms(2,3) p by (auto simp: occupancy_0_iff split: if_splits)
  with e smode_ok [OF assms(1) e] assms show ?thesis by auto
qed

lemma setup_resize:
  assumes "dev_ok d" "dev_msgs d = []" "1 \<le> sz" "sz \<le> KBUF_MAX_BUFFER_SIZE"
    and run: "run_state (kbuf_ioc_resize good_user (resize_arg 8 sz) (\<lambda>d. d) d) k = ((r, w, d'), k')"
  shows "dev_ok d' \<and> (\<not> isl r \<longleftrightarrow> fst (run_state (kbuf_alloc_slots 8 sz) k) \<noteq> None) \<and>
    (\<not> isl r \<longrightarrow> dev_msgs d' = [] \<and> num_buffers d' = 8 \<and> buffer_size d' = sz)"
proof -
  note ok = resize_ok [OF run assms(1) assms(1) refl]
  have "\<not> isl r" if "run_state (kbuf_alloc_slots 8 sz) k = (Some (sp, ss), k1)" for sp ss k1
  proof -
    have "\<exists>k'. run_state (kbuf_ioc_resize good_user (resize_arg 8 sz) (\<lambda>d. d) d) k =
      ((Inr (), [WRITE_WQ], resized \<lparr>rq_num_buffers = 8, rq_buffer_size = sz\<rparr> sp ss d), k')"
      by (rule resize_succeeds [OF copy_resize_arg])
        (use assms that in \<open>simp_all add: KBUF_MAX_NUM_BUFFERS_def is_power_of_2_def\<close>)
    with run show ?thesis by auto
  qed
  moreover have "fst (run_state (kbuf_alloc_slots 8 sz) k) \<noteq> None" if "\<not> isl r"
    using run that by (cases rule: resize_cases) auto
  ultimately have "\<not> isl r \<longleftrightarrow> fst (run_state (kbuf_alloc_slots 8 sz) k) \<noteq> None"
    by (cases "run_state (kbuf_alloc_slots 8 sz) k") auto
  with ok show ?thesis by (auto split: sum.split_asm)
qed

text \<open>
  Setting up a benchmark device works. Whatever mode the device was left in and whatever it
  still holds, provided no empty message is queued in front of another one, \<open>slot_setup\<close>
  returns: 0 exactly when the device could be opened and the memory for the slots was there, and
  then the device is empty, has eight slots of the message size and is in the mode asked for.
\<close>

theorem slot_setup_ready:
  assumes "dev_ok d" "\<forall>m \<in> set (butlast (dev_msgs d)). m \<noteq> []" "1 \<le> msgsize" "msgsize \<le> KBUF_MAX_BUFFER_SIZE"
    and run: "run_state (slot_setup opened msgsize spsc d) k = (x, k')"
  shows "\<exists>ret d'. x = Some (Some (ret, d')) \<and> dev_ok d' \<and>
    (if opened \<and> fst (run_state (kbuf_alloc_slots 8 msgsize) k) \<noteq> None
     then ret = 0 \<and> dev_msgs d' = [] \<and> num_buffers d' = 8 \<and> buffer_size d' = msgsize \<and>
       mode d' = (if spsc then KBUF_MODE_SPSC else KBUF_MODE_BLOCKING)
     else ret = - 1)"
proof (cases opened)
  case False
  with run assms(1) show ?thesis by (auto simp: slot_setup_def)
next
  case True
  define d1 where "d1 = snd (kbuf_ioc_smode good_user (mode_arg (word_of_int KBUF_MODE_BLOCKING)) d)"
  have 1: "dev_ok d1" "dev_msgs d1 = dev_msgs d" unfolding d1_def by (rule smode_blocking [OF assms(1)])+
  from drain_loop_result [OF 1(1)] obtain d2 where
    2: "drain_loop d1 = Some (Some d2)" "dev_ok d2" "dev_msgs d2 = []"
    using assms(2) by (auto simp: 1(2) drains_iff)
  obtain r w d3 k1 where
    rz: "run_state (kbuf_ioc_resize good_user (resize_arg 8 msgsize) (\<lambda>d. d) d2) k = ((r, w, d3), k1)"
    by (metis surj_pair)
  note 3 = setup_resize [OF 2(2,3) assms(3,4) rz]
  note run' = run [unfolded slot_setup_def Let_def, folded d1_def, unfolded 2(1)]
  show ?thesis
  proof (cases "isl r")
    case True
    with run' rz 3 \<open>opened\<close> show ?thesis by auto
  next
    case False
    with 3 setup_mode [of d3 spsc] obtain d4 where
      4: "kbuf_ioc_smode good_user (mode_arg (word_of_int (if spsc then KBUF_MODE_SPSC else KBUF_MODE_BLOCKING))) d3 =
        (Inr (), d4)" "dev_ok d4" "dev_msgs d4 = []" "num_buffers d4 = 8" "buffer_size d4 = buffer_size d3"
        "mode d4 = (if spsc then KBUF_MODE_SPSC else KBUF_MODE_BLOCKING)" by blast
    from run' rz False \<open>opened\<close> have "x = Some (Some (0, d4))" by (simp add: 4(1) [simplified])
    with 4 3 False \<open>opened\<close> show ?thesis by simp
  qed
qed

section \<open>Mapping a device\<close>

text \<open>\<open>map_or_die\<close> for the descriptor that \<open>open\<close> returned: an exit status or the map.\<close>

definition map_or_die :: "int \<Rightarrow> u64 \<Rightarrow> (u64 \<Rightarrow> ptr option) \<Rightarrow> kbuf_map \<Rightarrow> int + kbuf_map" where
  "map_or_die fd pg mmap m =
     (if fd < 0 then Inl 2
      else case kbuf_map_open pg mmap m of (r, m') \<Rightarrow> if r \<noteq> 0 then Inl 2 else Inr m')"

text \<open>The program goes on only with a map of one page and two copies of the ring.\<close>

lemma map_or_die_result:
  "map_or_die fd pg mmap m =
     (if fd < 0 \<or> mmap (pg + 2 * of_nat KBUF_MMAP_CAPACITY) = None then Inl 2
      else Inr (snd (kbuf_map_open pg mmap m)))"
  by (simp add: map_or_die_def kbuf_map_open_def Let_def split: option.split)

section \<open>Bytes through the mmap ring\<close>

text \<open>The bytes each process has moved so far; each leaves its loop when it has moved \<open>tot\<close>.\<close>

record xfer =
  xdev :: kbuf_dev
  p_done :: nat
  c_done :: nat

text \<open>One round of the producer's and of the consumer's loop; \<open>None\<close> is an access outside the mapping.\<close>

definition producer_round :: "nat \<Rightarrow> kbuf_map \<Rightarrow> u32 \<Rightarrow> xfer \<Rightarrow> xfer option" where
  "producer_round ps m msgsize s =
     map_option (\<lambda>(w, d'). s\<lparr>xdev := d', p_done := p_done s + unat w\<rparr>)
       (kbuf_map_write ps m (xdev s) (\<lambda>_. 0xa5) (ucast msgsize))"

definition consumer_round :: "nat \<Rightarrow> kbuf_map \<Rightarrow> u32 \<Rightarrow> xfer \<Rightarrow> xfer option" where
  "consumer_round ps m msgsize s =
     map_option (\<lambda>(r, out, d'). s\<lparr>xdev := d', c_done := c_done s + unat r\<rparr>)
       (kbuf_map_read ps m (xdev s) (ucast msgsize))"

inductive mmap_step :: "nat \<Rightarrow> kbuf_map \<Rightarrow> u32 \<Rightarrow> nat \<Rightarrow> xfer \<Rightarrow> xfer \<Rightarrow> bool" for ps m msgsize tot where
  produce: "p_done s < tot \<Longrightarrow> producer_round ps m msgsize s = Some s' \<Longrightarrow> mmap_step ps m msgsize tot s s'"
| consume: "c_done s < tot \<Longrightarrow> consumer_round ps m msgsize s = Some s' \<Longrightarrow> mmap_step ps m msgsize tot s s'"

definition xfer_start :: "kbuf_dev \<Rightarrow> xfer" where
  "xfer_start d = \<lparr>xdev = d, p_done = 0, c_done = 0\<rparr>"

text \<open>\<open>lost\<close> counts bytes that were written and will never be read.\<close>

definition xfer_inv :: "nat \<Rightarrow> kbuf_map \<Rightarrow> u32 \<Rightarrow> nat \<Rightarrow> nat \<Rightarrow> xfer \<Rightarrow> bool" where
  "xfer_inv ps m msgsize tot lost s \<longleftrightarrow> map_ok ps m (xdev s) \<and>
     p_done s = lost + c_done s + length (map_bytes (xdev s)) \<and>
     (p_done s = 0 \<or> p_done s < tot + unat msgsize)"

lemma unat_ucast_u64 [simp]: "unat (ucast (x :: u32) :: u64) = unat x"
  by transfer (simp add: take_bit_take_bit)

lemma map_write_counts:
  assumes "map_ok ps m d"
  shows "\<exists>w d'. kbuf_map_write ps m d buf n = Some (w, d') \<and> map_ok ps m d' \<and>
    unat w = min (unat n) (KBUF_MMAP_CAPACITY - length (map_bytes d)) \<and>
    map_bytes d' = map_bytes d @ ubytes buf (unat w)"
proof -
  let ?k = "min (unat n) (KBUF_MMAP_CAPACITY - length (map_bytes d))"
  have "?k \<le> KBUF_MMAP_CAPACITY" by simp
  also have "\<dots> < 2 ^ 64" by (simp add: KBUF_MMAP_CAPACITY_def)
  finally have "unat (of_nat ?k :: u64) = ?k" by (simp only: unat_of_nat) simp
  with map_write_appends [OF assms refl, of buf n] show ?thesis by metis
qed

lemma map_read_counts:
  assumes "map_ok ps m d"
  shows "\<exists>r d'. kbuf_map_read ps m d n = Some (r, take (unat r) (map_bytes d), d') \<and> map_ok ps m d' \<and>
    unat r = min (unat n) (length (map_bytes d)) \<and> map_bytes d' = drop (unat r) (map_bytes d)"
proof -
  let ?k = "min (unat n) (length (map_bytes d))"
  have "?k \<le> unat n" by simp
  also have "\<dots> < 2 ^ 64" by (rule unat_u64_less)
  finally have "unat (of_nat ?k :: u64) = ?k" by (simp only: unat_of_nat) simp
  with map_read_takes [OF assms refl, of n] show ?thesis by metis
qed

lemma xfer_step_inv:
  assumes "mmap_step ps m msgsize tot s s'" "xfer_inv ps m msgsize tot lost s"
  shows "xfer_inv ps m msgsize tot lost s'"
  using assms(1)
proof cases
  case produce
  have "map_ok ps m (xdev s)" using assms(2) by (simp add: xfer_inv_def)
  from map_write_counts [OF this, of "\<lambda>_. 0xa5" "ucast msgsize"] obtain w d' where
    w: "kbuf_map_write ps m (xdev s) (\<lambda>_. 0xa5) (ucast msgsize) = Some (w, d')" "map_ok ps m d'"
      "unat w = min (unat (ucast msgsize :: u64)) (KBUF_MMAP_CAPACITY - length (map_bytes (xdev s)))"
      "map_bytes d' = map_bytes (xdev s) @ ubytes (\<lambda>_. 0xa5) (unat w)" by blast
  have "unat w \<le> unat msgsize" "length (map_bytes d') = length (map_bytes (xdev s)) + unat w"
    using w(3) by (simp_all add: w(4) del: length_map_bytes)
  moreover have "s' = s\<lparr>xdev := d', p_done := p_done s + unat w\<rparr>"
    using produce(2) w(1) by (simp add: producer_round_def)
  ultimately show ?thesis using produce(1) assms(2) w(2)
    by (auto simp: xfer_inv_def simp del: length_map_bytes)
next
  case consume
  have "map_ok ps m (xdev s)" using assms(2) by (simp add: xfer_inv_def)
  from map_read_counts [OF this, of "ucast msgsize"] obtain r d' where
    r: "kbuf_map_read ps m (xdev s) (ucast msgsize) = Some (r, take (unat r) (map_bytes (xdev s)), d')"
      "map_ok ps m d'" "unat r = min (unat (ucast msgsize :: u64)) (length (map_bytes (xdev s)))"
      "map_bytes d' = drop (unat r) (map_bytes (xdev s))" by blast
  have "length (map_bytes d') + unat r = length (map_bytes (xdev s))"
    using r(3) by (simp add: r(4) del: length_map_bytes)
  moreover have "s' = s\<lparr>xdev := d', c_done := c_done s + unat r\<rparr>"
    using consume(2) r(1) by (simp add: consumer_round_def)
  ultimately show ?thesis using consume(1) assms(2) r(2)
    by (auto simp: xfer_inv_def simp del: length_map_bytes)
qed

lemma xfer_run_inv:
  "(mmap_step ps m msgsize tot)\<^sup>*\<^sup>* s s' \<Longrightarrow> xfer_inv ps m msgsize tot lost s \<Longrightarrow>
   xfer_inv ps m msgsize tot lost s'"
  by (induction rule: rtranclp_induct) (auto intro: xfer_step_inv)

lemma xfer_progress:
  assumes "xfer_inv ps m msgsize tot 0 s" "0 < msgsize" "p_done s < tot \<or> c_done s < tot"
  shows "\<exists>s'. mmap_step ps m msgsize tot s s' \<and> p_done s + c_done s < p_done s' + c_done s'"
proof (cases "map_bytes (xdev s) = []")
  case True
  with assms(1,3) have "p_done s < tot" and ok: "map_ok ps m (xdev s)" by (auto simp: xfer_inv_def)
  from map_write_counts [OF ok, of "\<lambda>_. 0xa5" "ucast msgsize"] obtain w d' where
    "kbuf_map_write ps m (xdev s) (\<lambda>_. 0xa5) (ucast msgsize) = Some (w, d')" "0 < unat w"
    using True assms(2) by (auto simp: KBUF_MMAP_CAPACITY_def word_less_nat_alt simp del: unat_gt_0)
  with produce [OF \<open>p_done s < tot\<close>, of ps m msgsize] show ?thesis by (fastforce simp: producer_round_def)
next
  case False
  with assms(1,3) have "c_done s < tot" and ok: "map_ok ps m (xdev s)"
    by (auto simp: xfer_inv_def simp flip: length_greater_0_conv)
  from map_read_counts [OF ok, of "ucast msgsize"] obtain r out d' where
    "kbuf_map_read ps m (xdev s) (ucast msgsize) = Some (r, out, d')" "0 < unat r"
    using False assms(2) by (auto simp: word_less_nat_alt simp del: length_map_bytes unat_gt_0)
  with consume [OF \<open>c_done s < tot\<close>, of ps m msgsize] show ?thesis by (fastforce simp: consumer_round_def)
qed

lemma xfer_completes:
  assumes "xfer_inv ps m msgsize tot 0 s" "0 < msgsize"
  shows "\<exists>s'. (mmap_step ps m msgsize tot)\<^sup>*\<^sup>* s s' \<and> tot \<le> p_done s' \<and> tot \<le> c_done s'"
  using assms(1)
proof (induction "2 * (tot + unat msgsize) - (p_done s + c_done s)" arbitrary: s rule: less_induct)
  case less
  show ?case
  proof (cases "p_done s < tot \<or> c_done s < tot")
    case True
    from xfer_progress [OF less.prems assms(2) True] obtain s1 where
      1: "mmap_step ps m msgsize tot s s1" "p_done s + c_done s < p_done s1 + c_done s1" by blast
    note inv1 = xfer_step_inv [OF 1(1) less.prems]
    have "p_done s1 + c_done s1 \<le> 2 * (tot + unat msgsize)"
      using inv1 by (auto simp: xfer_inv_def)
    with 1(2) have "2 * (tot + unat msgsize) - (p_done s1 + c_done s1) < 2 * (tot + unat msgsize) - (p_done s + c_done s)"
      by simp
    from less.hyps [OF this inv1] 1(1) show ?thesis by (meson converse_rtranclp_into_rtranclp)
  qed auto
qed

lemma xfer_start_inv: "map_ok ps m d \<Longrightarrow> map_bytes d = [] \<Longrightarrow> xfer_inv ps m msgsize tot 0 (xfer_start d)"
  by (simp add: xfer_inv_def xfer_start_def flip: length_map_bytes)


text \<open>
  The program itself resets the ring in the consumer, after the producer has been forked. If the
  producer has already written a message by then, the reset discards it, and the consumer waits for
  ever: in no state that can follow has it moved all the bytes.
\<close>

lemma reset_inv:
  assumes "xfer_inv ps m msgsize tot 0 s" "c_done s = 0"
  shows "xfer_inv ps m msgsize tot (p_done s) (s\<lparr>xdev := kbuf_map_reset (xdev s)\<rparr>)"
  using assms by (auto simp: xfer_inv_def map_ok_def kbuf_map_reset_def)

theorem reset_after_fork_hangs:
  assumes "map_ok ps m d" "map_bytes d = []"
    and "(mmap_step ps m msgsize tot)\<^sup>*\<^sup>* (xfer_start d) s" "c_done s = 0" "unat msgsize \<le> p_done s" "0 < p_done s"
    and "(mmap_step ps m msgsize tot)\<^sup>*\<^sup>* (s\<lparr>xdev := kbuf_map_reset (xdev s)\<rparr>) s'"
  shows "c_done s' < tot"
proof -
  have "xfer_inv ps m msgsize tot (p_done s) s'"
    by (rule xfer_run_inv [OF assms(7) reset_inv [OF xfer_run_inv [OF assms(3) xfer_start_inv [OF assms(1,2)]] assms(4)]])
  with assms(5,6) show ?thesis by (auto simp: xfer_inv_def)
qed

section \<open>Time stamps through the mmap ring\<close>

text \<open>
  The producer retries a write of eight bytes until it returns something else than 0, and goes on to
  the next sample whatever that is; the consumer does the same. A read of fewer bytes would leave
  the rest of the variable as it was, \<open>junk\<close>.
\<close>

record stamping =
  tdev :: kbuf_dev
  p_next :: nat
  stamps :: "u64 list"

inductive latency_step :: "nat \<Rightarrow> kbuf_map \<Rightarrow> nat \<Rightarrow> (nat \<Rightarrow> u64) \<Rightarrow> stamping \<Rightarrow> stamping \<Rightarrow> bool"
  for ps m samples ts where
  stamp: "\<lbrakk>p_next s < samples; kbuf_map_write ps m (tdev s) (arg_of (le_bytes 8 (ts (p_next s)))) 8 = Some (w, d')\<rbrakk>
    \<Longrightarrow> latency_step ps m samples ts s
      (s\<lparr>tdev := d', p_next := (if w = 0 then p_next s else Suc (p_next s))\<rparr>)"
| sample: "\<lbrakk>length (stamps s) < samples; kbuf_map_read ps m (tdev s) 8 = Some (r, out, d');
      length junk = 8\<rbrakk>
    \<Longrightarrow> latency_step ps m samples ts s
      (s\<lparr>tdev := d', stamps := (if r = 0 then stamps s
         else stamps s @ [le_word (out @ drop (length out) junk)])\<rparr>)"

definition stamp_bytes :: "(nat \<Rightarrow> u64) \<Rightarrow> nat \<Rightarrow> nat \<Rightarrow> u8 list" where
  "stamp_bytes ts i j = concat (map (\<lambda>k. le_bytes 8 (ts k)) [i..<j])"

definition stamping_inv :: "nat \<Rightarrow> kbuf_map \<Rightarrow> (nat \<Rightarrow> u64) \<Rightarrow> stamping \<Rightarrow> bool" where
  "stamping_inv ps m ts s \<longleftrightarrow> map_ok ps m (tdev s) \<and> length (stamps s) \<le> p_next s \<and>
     map_bytes (tdev s) = stamp_bytes ts (length (stamps s)) (p_next s) \<and>
     stamps s = map ts [0..<length (stamps s)]"

lemma length_stamp_bytes: "length (stamp_bytes ts i j) = 8 * (j - i)"
  by (simp add: stamp_bytes_def length_concat comp_def sum_list_triv)

lemma stamp_bytes_Suc: "i \<le> j \<Longrightarrow> stamp_bytes ts i (Suc j) = stamp_bytes ts i j @ le_bytes 8 (ts j)"
  by (simp add: stamp_bytes_def)

lemma stamp_bytes_first: "i < j \<Longrightarrow> stamp_bytes ts i j = le_bytes 8 (ts i) @ stamp_bytes ts (Suc i) j"
  by (simp add: stamp_bytes_def upt_conv_Cons)

lemma latency_step_inv:
  assumes "latency_step ps m samples ts s s'" "stamping_inv ps m ts s"
  shows "stamping_inv ps m ts s'"
  using assms(1)
proof cases
  case (stamp w d')
  have ok: "map_ok ps m (tdev s)" and le: "length (stamps s) \<le> p_next s"
    and b: "map_bytes (tdev s) = stamp_bytes ts (length (stamps s)) (p_next s)"
    using assms(2) by (auto simp: stamping_inv_def)
  from map_write_counts [OF ok, of "arg_of (le_bytes 8 (ts (p_next s)))" 8] stamp(3)
  have d': "map_ok ps m d'" "unat w = min 8 (KBUF_MMAP_CAPACITY - 8 * (p_next s - length (stamps s)))"
    "map_bytes d' = map_bytes (tdev s) @ ubytes (arg_of (le_bytes 8 (ts (p_next s)))) (unat w)"
    by (auto simp: b length_stamp_bytes simp del: length_map_bytes)
  have "KBUF_MMAP_CAPACITY = 8 * 8192" by (simp add: KBUF_MMAP_CAPACITY_def)
  moreover have "min 8 (8 * 8192 - 8 * k) = 0 \<or> min 8 (8 * 8192 - 8 * k) = (8 :: nat)" for k
    by (simp add: min_def flip: diff_mult_distrib2)
  ultimately have "unat w = 0 \<or> unat w = 8" using d'(2) by metis
  then show ?thesis
  proof
    assume "unat w = 0"
    with d' stamp(1) assms(2) show ?thesis by (simp add: stamping_inv_def unat_eq_zero)
  next
    assume w: "unat w = 8"
    then have "w \<noteq> 0" by auto
    with d' w stamp(1) assms(2) le show ?thesis by (simp add: stamping_inv_def stamp_bytes_Suc)
  qed
next
  case (sample r out d' junk)
  have ok: "map_ok ps m (tdev s)" and le: "length (stamps s) \<le> p_next s"
    and b: "map_bytes (tdev s) = stamp_bytes ts (length (stamps s)) (p_next s)"
    using assms(2) by (auto simp: stamping_inv_def)
  from map_read_counts [OF ok, of 8] sample(3)
  have d': "map_ok ps m d'" "unat r = min 8 (8 * (p_next s - length (stamps s)))"
    "map_bytes d' = drop (unat r) (map_bytes (tdev s))" "out = take (unat r) (map_bytes (tdev s))"
    by (auto simp: b length_stamp_bytes simp del: length_map_bytes)
  show ?thesis
  proof (cases "length (stamps s) = p_next s")
    case True
    with d'(2) have "r = 0" by (simp add: unat_eq_zero)
    with d' sample(1) assms(2) show ?thesis by (simp add: stamping_inv_def)
  next
    case False
    with le have lt: "length (stamps s) < p_next s" by simp
    with d'(2) have r: "unat r = 8" by simp
    then have "r \<noteq> 0" by auto
    with d' r b sample(1,4) assms(2) lt show ?thesis
      by (simp add: stamping_inv_def stamp_bytes_first)
  qed
qed

text \<open>
  Time stamps are never torn: in every state the latency benchmark can reach from an empty ring, the
  stamps the consumer has read are the producer's, one by one and in order.
\<close>

theorem stamps_whole:
  assumes "map_ok ps m d" "map_bytes d = []"
    and "(latency_step ps m samples ts)\<^sup>*\<^sup>* \<lparr>tdev = d, p_next = 0, stamps = []\<rparr> s"
  shows "stamps s = map ts [0..<length (stamps s)] \<and> length (stamps s) \<le> p_next s"
proof -
  have "stamping_inv ps m ts \<lparr>tdev = d, p_next = 0, stamps = []\<rparr>"
    using assms(1,2) by (simp add: stamping_inv_def stamp_bytes_def)
  with assms(3) have "stamping_inv ps m ts s"
    by (induction rule: rtranclp_induct) (auto intro: latency_step_inv)
  then show ?thesis by (simp add: stamping_inv_def)
qed

section \<open>Concrete runs\<close>

lemma demo_alloc8: "fst (run_state (kbuf_alloc_slots 8 1) demo_kst) \<noteq> None"
  by (simp add: kbuf_alloc_slots_def kmalloc_def ask_ptr_def ask_def ask_bytes_def tell_def
      demo_kst_def State_Monad.bind_def State_Monad.return_def)

theorem slot_setup_ready_witness:
  "\<exists>d' k'. run_state (slot_setup True 1 True demo_dev) demo_kst = (Some (Some (0, d')), k') \<and>
     num_buffers d' = 8 \<and> mode d' = KBUF_MODE_SPSC"
proof -
  obtain x k' where run: "run_state (slot_setup True 1 True demo_dev) demo_kst = (x, k')" by fastforce
  have "\<forall>m \<in> set (butlast (dev_msgs demo_dev)). m \<noteq> []" by (simp add: demo_simps)
  from slot_setup_ready [OF demo_ok(1) this _ _ run] run demo_alloc8 show ?thesis
    by (auto simp: KBUF_MAX_BUFFER_SIZE_def)
qed

text \<open>
  An empty message in front of another one stops the draining loop early: the resize finds the ring
  busy and the set-up fails, on a device that could be drained.
\<close>

definition demo_stuck :: kbuf_dev where
  "demo_stuck = demo_dev\<lparr>ring_count := 2, peak_count := 2,
     slots := [\<lparr>data = 2, bytes = [0, 0], len = 0\<rparr>, \<lparr>data = 3, bytes = [9, 0], len = 1\<rparr>]\<rparr>"

theorem empty_message_stops_draining:
  "dev_ok demo_stuck \<and> dev_msgs demo_stuck = [[], [9]] \<and>
   (\<exists>d'. drain_loop demo_stuck = Some (Some d') \<and> dev_msgs d' = [[9]])"
proof -
  have "dev_ok demo_stuck" and m: "dev_msgs demo_stuck = [[], [9]]"
    by (simp_all add: demo_stuck_def demo_simps upt_rec)
  with drain_loop_result [of demo_stuck] show ?thesis by auto
qed


end
