(* ===== verification/Kbuf_Bench_Slots.thy ===== *)
theory Kbuf_Bench_Slots
  imports Kbuf_Bench
begin

text \<open>
  The slot-ring transports of bench/kbuf_bench.c: the producer and the consumer that \<open>run_once\<close>
  starts on a device prepared by \<open>slot_setup\<close>, in the blocking or in the lock-free mode, each
  calling \<open>write\<close> or \<open>read\<close> on a blocking descriptor until it has moved its messages. A
  call happens at the moment it finds work: before that it is asleep, which is \<open>None\<close> here.
\<close>

section \<open>Calls that sleep\<close>

text \<open>On a device nobody else touches, a call that finds no work never returns.\<close>

lemma read_blocking_loop_asleep:
  assumes "kbuf_ring_is_empty d"
  shows "read_blocking_loop calm u False n i d = None"
proof -
  have "s = calm \<longrightarrow> \<not> nb \<longrightarrow> \<not> kbuf_ring_is_empty d" if "read_blocking_loop s u nb n i d = Some y" for s nb y
    by (rule read_blocking_loop.raw_induct [where P = "\<lambda>s u nb n i d y. s = calm \<longrightarrow> \<not> nb \<longrightarrow> \<not> kbuf_ring_is_empty d", OF _ that])
      (fastforce simp: Let_def kbuf_ring_is_empty_def split: if_splits)
  with assms show ?thesis by (metis not_None_eq)
qed

lemma write_blocking_loop_asleep:
  assumes "kbuf_ring_is_full d"
  shows "write_blocking_loop calm u False ub n i d = None"
proof -
  have "s = calm \<longrightarrow> \<not> nb \<longrightarrow> \<not> kbuf_ring_is_full d" if "write_blocking_loop s u nb ub n i d = Some y" for s nb y
    by (rule write_blocking_loop.raw_induct [where P = "\<lambda>s u nb ub n i d y. s = calm \<longrightarrow> \<not> nb \<longrightarrow> \<not> kbuf_ring_is_full d", OF _ that])
      (fastforce simp: Let_def kbuf_ring_is_full_def split: if_splits)
  with assms show ?thesis by (metis not_None_eq)
qed

lemma read_spsc_loop_asleep:
  assumes "kbuf_spsc_is_empty d"
  shows "read_spsc_loop calm u False n i d = None"
proof -
  have "s = calm \<longrightarrow> \<not> nb \<longrightarrow> \<not> kbuf_spsc_is_empty d" if "read_spsc_loop s u nb n i d = Some y" for s nb y
    by (rule read_spsc_loop.raw_induct [where P = "\<lambda>s u nb n i d y. s = calm \<longrightarrow> \<not> nb \<longrightarrow> \<not> kbuf_spsc_is_empty d", OF _ that])
      (fastforce simp: Let_def kbuf_spsc_is_empty_def split: if_splits)
  with assms show ?thesis by (metis not_None_eq)
qed

lemma write_spsc_loop_asleep:
  assumes "kbuf_spsc_is_full d"
  shows "write_spsc_loop calm u False ub n i d = None"
proof -
  have "s = calm \<longrightarrow> \<not> nb \<longrightarrow> \<not> kbuf_spsc_is_full d" if "write_spsc_loop s u nb ub n i d = Some y" for s nb y
    by (rule write_spsc_loop.raw_induct [where P = "\<lambda>s u nb ub n i d y. s = calm \<longrightarrow> \<not> nb \<longrightarrow> \<not> kbuf_spsc_is_full d", OF _ that])
      (fastforce simp: Let_def kbuf_spsc_is_full_def split: if_splits)
  with assms show ?thesis by (metis not_None_eq)
qed

lemmas loop_asleep = read_blocking_loop_asleep write_blocking_loop_asleep read_spsc_loop_asleep write_spsc_loop_asleep

lemma not_ready_iff:
  assumes "dev_ok d"
  shows "(if mode d = KBUF_MODE_SPSC then kbuf_spsc_is_empty d else kbuf_ring_is_empty d) \<longleftrightarrow> dev_msgs d = []"
    and "(if mode d = KBUF_MODE_SPSC then kbuf_spsc_is_full d else kbuf_ring_is_full d) \<longleftrightarrow>
      length (dev_msgs d) = unat (num_buffers d)"
  using assms
  by (auto simp: dev_ok_def dev_msgs_def spsc.is_empty_iff blocking.is_empty_iff spsc.is_full_iff
      blocking.is_full_iff split: if_splits)

text \<open>A blocking call is asleep while there is no work and otherwise does what a non-blocking one does.\<close>

lemma read_sleeps_or_serves:
  assumes "dev_ok d"
  shows "kbuf_read calm u False n d = (if dev_msgs d = [] then None else kbuf_read calm u True n d)"
  using not_ready_iff(1) [OF assms]
  by (cases "mode d = KBUF_MODE_SPSC"; cases "dev_msgs d = []")
    (simp_all add: kbuf_read_def kbuf_read_spsc_def kbuf_read_blocking_def loop_asleep
      read_spsc_loop.simps [of calm u _ n 0] read_blocking_loop.simps [of calm u _ n 0]
      kbuf_spsc_is_empty_def kbuf_ring_is_empty_def)

lemma write_sleeps_or_serves:
  assumes "dev_ok d"
  shows "kbuf_write calm u False ub n d =
    (if length (dev_msgs d) = unat (num_buffers d) then None else kbuf_write calm u True ub n d)"
  using not_ready_iff(2) [OF assms]
  by (cases "mode d = KBUF_MODE_SPSC"; cases "length (dev_msgs d) = unat (num_buffers d)")
    (simp_all add: kbuf_write_def kbuf_write_spsc_def kbuf_write_blocking_def Let_def loop_asleep
      write_spsc_loop.simps [of calm u _ ub _ 0] write_blocking_loop.simps [of calm u _ ub _ 0]
      kbuf_spsc_is_full_def kbuf_ring_is_full_def)

section \<open>The two processes\<close>

text \<open>
  The rounds of the two loops so far, and whether each is still in its loop: a call that returns
  anything but the message size leaves it.
\<close>

record slot_run =
  rdev :: kbuf_dev
  p_i :: nat
  p_on :: bool
  c_i :: nat
  c_on :: bool

definition write_round :: "u32 \<Rightarrow> slot_run \<Rightarrow> slot_run option option" where
  "write_round msgsize s =
     map_option (map_option (\<lambda>(r, out, w, d). if r = Inr (unat msgsize) then s\<lparr>rdev := d, p_i := p_i s + 1\<rparr>
         else s\<lparr>rdev := d, p_on := False\<rparr>))
       (kbuf_write calm good_user False (\<lambda>_. 0xa5) (unat msgsize) (rdev s))"

definition read_round :: "u32 \<Rightarrow> slot_run \<Rightarrow> slot_run option option" where
  "read_round msgsize s =
     map_option (map_option (\<lambda>(r, out, w, d). if r = Inr (unat msgsize) then s\<lparr>rdev := d, c_i := c_i s + 1\<rparr>
         else s\<lparr>rdev := d, c_on := False\<rparr>))
       (kbuf_read calm good_user False (unat msgsize) (rdev s))"

inductive slot_step :: "u32 \<Rightarrow> nat \<Rightarrow> slot_run \<Rightarrow> slot_run \<Rightarrow> bool" for msgsize nmsg where
  write_one: "p_on s \<Longrightarrow> p_i s < nmsg \<Longrightarrow> write_round msgsize s = Some (Some s') \<Longrightarrow> slot_step msgsize nmsg s s'"
| read_one: "c_on s \<Longrightarrow> c_i s < nmsg \<Longrightarrow> read_round msgsize s = Some (Some s') \<Longrightarrow> slot_step msgsize nmsg s s'"

definition slot_start :: "kbuf_dev \<Rightarrow> slot_run" where
  "slot_start d = \<lparr>rdev = d, p_i = 0, p_on = True, c_i = 0, c_on = True\<rparr>"

text \<open>
  The preparation that \<open>run_once\<close> makes for each transport before it forks: \<open>devs n\<close> is
  /dev/kbuf\<open>n\<close>, \<open>opens n\<close> tells whether opening it succeeds, \<open>pipe_ret\<close> is what
  \<open>pipe\<close> returned. The result tells whether the run goes on.
\<close>

datatype transport = T_MUTEX | T_SPSC | T_MMAP | T_PIPE

fun slot_dev :: "transport \<Rightarrow> nat option" where
  "slot_dev T_MUTEX = Some 1"
| "slot_dev T_SPSC = Some 2"
| "slot_dev T_MMAP = None"
| "slot_dev T_PIPE = None"

definition run_once_setup :: "(nat \<Rightarrow> bool) \<Rightarrow> int \<Rightarrow> transport \<Rightarrow> u32 \<Rightarrow> (nat \<Rightarrow> kbuf_dev)
    \<Rightarrow> (kst, (bool \<times> (nat \<Rightarrow> kbuf_dev)) option option) state" where
  "run_once_setup opens pipe_ret t msgsize devs =
     (case slot_dev t of
        Some n \<Rightarrow> do {
          x \<leftarrow> slot_setup (opens n) msgsize (t = T_SPSC) (devs n);
          State_Monad.return (map_option (map_option (\<lambda>(ret, d). (ret = 0, devs(n := d)))) x) }
      | None \<Rightarrow> State_Monad.return (Some (Some (t = T_PIPE \<longrightarrow> pipe_ret = 0, devs))))"

definition run_once_nmsg :: "u64 \<Rightarrow> u32 \<Rightarrow> u64" where
  "run_once_nmsg tot msgsize = tot div ucast msgsize"

definition slot_inv :: "u32 \<Rightarrow> nat \<Rightarrow> slot_run \<Rightarrow> bool" where
  "slot_inv msgsize nmsg s \<longleftrightarrow> dev_ok (rdev s) \<and> buffer_size (rdev s) = msgsize \<and>
     dev_msgs (rdev s) = replicate (p_i s - c_i s) (replicate (unat msgsize) 0xa5) \<and>
     c_i s \<le> p_i s \<and> p_i s \<le> nmsg \<and> p_on s \<and> c_on s"

lemma good_produce:
  "kbuf_ring_produce good_user d ub n = Some (r, d') \<Longrightarrow> \<not> isl r"
  "kbuf_spsc_produce good_user d ub n = Some (r, d') \<Longrightarrow> \<not> isl r"
  by (auto simp: kbuf_ring_produce_def kbuf_spsc_produce_def Let_def split: if_splits)

text \<open>What a write and a read of a whole message do when they find work.\<close>

lemma write_whole:
  assumes "dev_ok d" "length (dev_msgs d) \<noteq> unat (num_buffers d)"
  shows "\<exists>w d'. kbuf_write calm good_user False (\<lambda>_. b) (unat (buffer_size d)) d =
      Some (Some (Inr (unat (buffer_size d)), [], w, d')) \<and> dev_ok d' \<and> buffer_size d' = buffer_size d \<and>
      dev_msgs d' = dev_msgs d @ [replicate (unat (buffer_size d)) b]"
proof -
  let ?c = "Write (\<lambda>_. b) (unat (buffer_size d))"
  from device.serves [OF assms(1) uaccess_ok_good, of ?c] obtain r d' where
    s: "syscall d good_user ?c = Some (r, d')" "dev_ok d'" "unat (buffer_size d') = unat (buffer_size d)"
      "spec_step (unat (num_buffers d)) (unat (buffer_size d)) (dev_msgs d) ?c r (dev_msgs d')" by blast
  from s(1) obtain x out w where
    x: "kbuf_write calm good_user True (\<lambda>_. b) (unat (buffer_size d)) d = Some (Some (x, out, w, d'))"
      "r = (case x of Inl e \<Rightarrow> Failed e | Inr k \<Rightarrow> Done k out)"
    by (auto simp: reply_of_def split: option.splits bind_splits)
  have "x \<noteq> Inl EFAULT"
    using x(1) by (auto simp: write_nonblock finish_write_def split: if_splits dest: good_produce)
  with s(4) x(2) assms(2) have "x = Inr (unat (buffer_size d)) \<and> out = [] \<and>
      dev_msgs d' = dev_msgs d @ [ubytes (\<lambda>_. b) (unat (buffer_size d))]"
    by (auto elim!: spec_step_writeE split: sum.splits)
  with s(2,3) x(1) assms show ?thesis
    by (auto simp: write_sleeps_or_serves map_replicate_const word_unat_eq_iff)
qed

lemma read_whole:
  assumes "dev_ok d" "dev_msgs d = m # ms"
  shows "\<exists>w d'. kbuf_read calm good_user False (length m) d = Some (Some (Inr (length m), m, w, d')) \<and>
    dev_ok d' \<and> buffer_size d' = buffer_size d \<and> dev_msgs d' = ms"
proof -
  let ?c = "Read (length m)"
  from device.serves [OF assms(1) uaccess_ok_good, of ?c] obtain r d' where
    s: "syscall d good_user ?c = Some (r, d')" "dev_ok d'" "unat (buffer_size d') = unat (buffer_size d)"
      "spec_step (unat (num_buffers d)) (unat (buffer_size d)) (dev_msgs d) ?c r (dev_msgs d')" by blast
  from s(1) obtain x out w where
    x: "kbuf_read calm good_user True (length m) d = Some (Some (x, out, w, d'))"
      "r = (case x of Inl e \<Rightarrow> Failed e | Inr k \<Rightarrow> Done k out)"
    by (auto simp: reply_of_def split: option.splits bind_splits)
  have "x \<noteq> Inl EFAULT"
    using x(1) by (auto simp: read_nonblock finish_read_def split: if_splits dest: good_consume)
  with s(4) x(2) have "x = Inr (length m) \<and> out = m \<and> dev_msgs d' = ms"
    by (auto simp: assms(2) elim!: spec_step_readE split: sum.splits)
  with s(2,3) x(1) assms show ?thesis by (auto simp: read_sleeps_or_serves word_unat_eq_iff)
qed

lemma write_round_inv:
  assumes "slot_inv msgsize nmsg s" "p_i s < nmsg"
  shows "write_round msgsize s \<noteq> Some None"
    and "write_round msgsize s = Some (Some s') \<Longrightarrow>
      slot_inv msgsize nmsg s' \<and> p_i s' = p_i s + 1 \<and> c_i s' = c_i s"
    and "dev_msgs (rdev s) = [] \<Longrightarrow> \<exists>s'. write_round msgsize s = Some (Some s')"
proof -
  let ?full = "length (dev_msgs (rdev s)) = unat (num_buffers (rdev s))"
  have ok: "dev_ok (rdev s)" "buffer_size (rdev s) = msgsize" using assms(1) by (auto simp: slot_inv_def)
  have none: "write_round msgsize s = None" if ?full
    using that ok by (simp add: write_round_def write_sleeps_or_serves)
  have step: "\<exists>s1. write_round msgsize s = Some (Some s1) \<and>
      slot_inv msgsize nmsg s1 \<and> p_i s1 = p_i s + 1 \<and> c_i s1 = c_i s" if "\<not> ?full"
    using write_whole [OF ok(1) that, of "0xa5"] assms
    by (auto simp: write_round_def slot_inv_def ok(2) Suc_diff_le replicate_append_same)
  show "write_round msgsize s \<noteq> Some None" using none step by (cases ?full) auto
  show "write_round msgsize s = Some (Some s') \<Longrightarrow> slot_inv msgsize nmsg s' \<and> p_i s' = p_i s + 1 \<and> c_i s' = c_i s"
    using none step by (cases ?full) auto
  show "\<exists>s'. write_round msgsize s = Some (Some s')" if "dev_msgs (rdev s) = []"
    using step ok(1) that by (fastforce simp: dev_ok_def spsc_ok_def ring_ok_def geom_ok_def split: if_splits)
qed

lemma read_round_inv:
  assumes "slot_inv msgsize nmsg s"
  shows "read_round msgsize s \<noteq> Some None"
    and "read_round msgsize s = Some (Some s') \<Longrightarrow>
      slot_inv msgsize nmsg s' \<and> p_i s' = p_i s \<and> c_i s' = c_i s + 1"
    and "dev_msgs (rdev s) \<noteq> [] \<Longrightarrow> \<exists>s'. read_round msgsize s = Some (Some s')"
proof -
  let ?q = "dev_msgs (rdev s)"
  have ok: "dev_ok (rdev s)" "?q = replicate (p_i s - c_i s) (replicate (unat msgsize) 0xa5)"
    using assms by (auto simp: slot_inv_def)
  have none: "read_round msgsize s = None" if "?q = []"
    using that ok(1) by (simp add: read_round_def read_sleeps_or_serves)
  have step: "\<exists>s1. read_round msgsize s = Some (Some s1) \<and>
      slot_inv msgsize nmsg s1 \<and> p_i s1 = p_i s \<and> c_i s1 = c_i s + 1" if ne: "?q \<noteq> []"
  proof -
    obtain k where k: "p_i s - c_i s = Suc k"
      using ne [unfolded ok(2) replicate_empty] not0_implies_Suc by blast
    then have "?q = replicate (unat msgsize) 0xa5 # replicate k (replicate (unat msgsize) 0xa5)" by (simp add: ok(2))
    from read_whole [OF ok(1) this] k assms show ?thesis by (auto simp: read_round_def slot_inv_def)
  qed
  show "read_round msgsize s \<noteq> Some None" using none step by (cases "?q = []") auto
  show "read_round msgsize s = Some (Some s') \<Longrightarrow> slot_inv msgsize nmsg s' \<and> p_i s' = p_i s \<and> c_i s' = c_i s + 1"
    using none step by (cases "?q = []") auto
  show "?q \<noteq> [] \<Longrightarrow> \<exists>s'. read_round msgsize s = Some (Some s')" using step by blast
qed

lemma slot_progress:
  assumes "slot_inv msgsize nmsg s" "p_i s + c_i s < 2 * nmsg"
  shows "\<exists>s'. slot_step msgsize nmsg s s'"
proof (cases "dev_msgs (rdev s) = []")
  case True
  then have "p_i s < nmsg" "p_on s" using assms by (auto simp: slot_inv_def)
  with write_round_inv(3) [OF assms(1) _ True] show ?thesis by (blast intro: write_one)
next
  case False
  then have "c_i s < nmsg" "c_on s" using assms(1) by (auto simp: slot_inv_def)
  with read_round_inv(3) [OF assms(1) False] show ?thesis by (blast intro: read_one)
qed

lemma slot_runs_inv:
  assumes "(slot_step msgsize nmsg ^^ k) s s'" "slot_inv msgsize nmsg s"
  shows "slot_inv msgsize nmsg s' \<and> p_i s' + c_i s' = p_i s + c_i s + k"
  using assms(1)
proof (induction k arbitrary: s')
  case (Suc k)
  then obtain s1 where "(slot_step msgsize nmsg ^^ k) s s1" and st: "slot_step msgsize nmsg s1 s'" by auto
  from Suc.IH [OF this(1)] have "slot_inv msgsize nmsg s1" "p_i s1 + c_i s1 = p_i s + c_i s + k" by simp_all
  with st show ?case by cases (auto dest: write_round_inv(2) read_round_inv(2))
qed (use assms(2) in simp)

text \<open>A run on an empty device whose slots have the size of a message.\<close>

lemma slot_run_completes:
  assumes "dev_ok d" "dev_msgs d = []" "buffer_size d = msgsize" "(slot_step msgsize nmsg ^^ k) (slot_start d) s"
  shows "p_on s \<and> c_on s \<and> c_i s \<le> p_i s \<and> p_i s \<le> nmsg \<and> p_i s + c_i s = k \<and>
    dev_msgs (rdev s) = replicate (p_i s - c_i s) (replicate (unat msgsize) 0xa5) \<and>
    (p_i s < nmsg \<longrightarrow> write_round msgsize s \<noteq> Some None) \<and> read_round msgsize s \<noteq> Some None \<and>
    (k < 2 * nmsg \<longleftrightarrow> (\<exists>s'. slot_step msgsize nmsg s s'))"
proof -
  have "slot_inv msgsize nmsg (slot_start d)" using assms(1-3) by (simp add: slot_inv_def slot_start_def)
  from slot_runs_inv [OF assms(4) this] have inv: "slot_inv msgsize nmsg s" and k: "p_i s + c_i s = k"
    by (simp_all add: slot_start_def)
  have "k < 2 * nmsg" if "slot_step msgsize nmsg s s'" for s'
    using that inv k by cases (auto simp: slot_inv_def)
  with slot_progress [OF inv] k have "k < 2 * nmsg \<longleftrightarrow> (\<exists>s'. slot_step msgsize nmsg s s')" by blast
  with inv k write_round_inv(1) [OF inv] read_round_inv(1) [OF inv] show ?thesis by (simp add: slot_inv_def)
qed

text \<open>
  C38: the benchmark of a slot ring moves every message. Whatever the device was left with, provided
  no empty message is queued in front of another one, the set-up returns, and it succeeds exactly
  when the device could be opened and there was memory for the slots. Then, in the mode of the
  transport and however the two processes interleave, no call accesses memory out of bounds or
  returns anything but the message size, so neither process leaves its loop early; what is in the
  ring is always the messages written and not yet read, whole; and a run goes on until both
  processes have made all their calls and no longer: \<open>k\<close> counts the calls made.
\<close>

theorem slot_transport_completes:
  assumes "slot_dev t = Some n" "dev_ok (devs n)" "\<forall>m \<in> set (butlast (dev_msgs (devs n))). m \<noteq> []"
    "1 \<le> msgsize" "msgsize \<le> KBUF_MAX_BUFFER_SIZE"
    and "run_state (run_once_setup opens pipe_ret t msgsize devs) kern = (x, kern')"
    and "nmsg = unat (run_once_nmsg tot msgsize)"
  shows "\<exists>go devs'. x = Some (Some (go, devs')) \<and>
    (go \<longleftrightarrow> opens n \<and> fst (run_state (kbuf_alloc_slots 8 msgsize) kern) \<noteq> None) \<and>
    (go \<longrightarrow> mode (devs' n) = (if t = T_SPSC then KBUF_MODE_SPSC else KBUF_MODE_BLOCKING) \<and>
      (\<forall>k s. (slot_step msgsize nmsg ^^ k) (slot_start (devs' n)) s \<longrightarrow>
        p_on s \<and> c_on s \<and> p_i s + c_i s = k \<and> c_i s \<le> p_i s \<and> p_i s \<le> nmsg \<and>
        dev_msgs (rdev s) = replicate (p_i s - c_i s) (replicate (unat msgsize) 0xa5) \<and>
        (p_i s < nmsg \<longrightarrow> write_round msgsize s \<noteq> Some None) \<and> read_round msgsize s \<noteq> Some None \<and>
        (k < 2 * nmsg \<longleftrightarrow> (\<exists>s'. slot_step msgsize nmsg s s'))))"
proof -
  obtain y kern1 where run: "run_state (slot_setup (opens n) msgsize (t = T_SPSC) (devs n)) kern = (y, kern1)"
    by fastforce
  from slot_setup_ready [OF assms(2-5) run] obtain ret d where
    y: "y = Some (Some (ret, d))" "dev_ok d" and
    c: "if opens n \<and> fst (run_state (kbuf_alloc_slots 8 msgsize) kern) \<noteq> None
      then ret = 0 \<and> dev_msgs d = [] \<and> num_buffers d = 8 \<and> buffer_size d = msgsize \<and>
        mode d = (if t = T_SPSC then KBUF_MODE_SPSC else KBUF_MODE_BLOCKING)
      else ret = - 1" by blast
  have "x = Some (Some (ret = 0, devs(n := d)))"
    using assms(1,6) run y(1) by (simp add: run_once_setup_def)
  with c slot_run_completes [OF y(2), where msgsize = msgsize and nmsg = nmsg] show ?thesis
    by (cases "opens n \<and> fst (run_state (kbuf_alloc_slots 8 msgsize) kern) \<noteq> None") auto
qed

text \<open>Four bytes in messages of one byte, on a device that the set-up switches to the lock-free mode.\<close>

theorem slot_transport_completes_witness:
  "\<exists>devs' kern'. run_state (run_once_setup (\<lambda>_. True) 0 T_SPSC 1 (\<lambda>_. demo_dev)) demo_kst =
      (Some (Some (True, devs')), kern') \<and>
    (\<exists>s. slot_step 1 4 (slot_start (devs' 2)) s \<and> p_on s \<and> p_i s + c_i s = 1)"
proof -
  obtain x kern' where
    run: "run_state (run_once_setup (\<lambda>_. True) 0 T_SPSC 1 (\<lambda>_. demo_dev)) demo_kst = (x, kern')" by fastforce
  have q: "\<forall>m \<in> set (butlast (dev_msgs demo_dev)). m \<noteq> []" by (simp add: demo_simps)
  have n: "4 = unat (run_once_nmsg 4 1)" by (simp add: run_once_nmsg_def)
  from slot_transport_completes [where devs = "\<lambda>_. demo_dev" and n = 2, OF _ demo_ok(1) q _ _ run n] demo_alloc8
  obtain devs' where x: "x = Some (Some (True, devs'))" and
    r: "\<forall>k s. (slot_step 1 4 ^^ k) (slot_start (devs' 2)) s \<longrightarrow> p_on s \<and> p_i s + c_i s = k \<and>
      (k < 8 \<longleftrightarrow> (\<exists>s'. slot_step 1 4 s s'))"
    by (auto simp: KBUF_MAX_BUFFER_SIZE_def)
  from r [rule_format, of 0] obtain s where s: "slot_step 1 4 (slot_start (devs' 2)) s" by auto
  then have "(slot_step 1 4 ^^ 1) (slot_start (devs' 2)) s" by (simp only: relpowp_1)
  from r [rule_format, OF this] s x run show ?thesis by blast
qed

end
