(* ===== verification/Kbuf_Bench_Stats.thy ===== *)
theory Kbuf_Bench_Stats
  imports Complex_Main Kbuf_Bench_Slots
begin

text \<open>
  The figures bench/kbuf_bench.c reports: the latency percentiles over the samples sorted by
  \<open>qsort\<close>, the mean and the sample standard deviation of the throughput runs, and the layout of
  the false-sharing counters. The library's \<open>qsort\<close> is a parameter; floating-point numbers are
  real numbers, without rounding.
\<close>

section \<open>Three-way comparison\<close>

text \<open>What \<open>qsort\<close> asks of a comparison function.\<close>

locale three_way =
  fixes cmp :: "'a \<Rightarrow> 'a \<Rightarrow> int"
  assumes cmp_swap: "cmp y x = - cmp x y"
    and cmp_eq: "cmp x y = 0 \<Longrightarrow> x = y"
    and cmp_trans: "cmp x y \<le> 0 \<Longrightarrow> cmp y z \<le> 0 \<Longrightarrow> cmp x z \<le> 0"
begin

definition ordered :: "'a list \<Rightarrow> bool" where
  "ordered = sorted_wrt (\<lambda>x y. cmp x y \<le> 0)"

lemma cmp_antisym: "cmp x y \<le> 0 \<Longrightarrow> cmp y x \<le> 0 \<Longrightarrow> x = y"
  using cmp_swap [of x y] cmp_eq [of x y] by simp

lemma ordered_head:
  assumes "ordered (x # xs)" "z \<in> set (x # xs)"
  shows "cmp x z \<le> 0"
  using assms cmp_swap [of x x] by (auto simp: ordered_def)

text \<open>There is only one way to put a list into order.\<close>

lemma ordered_unique: "mset xs = mset ys \<Longrightarrow> ordered xs \<Longrightarrow> ordered ys \<Longrightarrow> xs = ys"
proof (induction xs arbitrary: ys)
  case (Cons x xs)
  then obtain y ys' where ys: "ys = y # ys'" by (cases ys) auto
  have "set (x # xs) = set ys" using Cons.prems(1) by (rule mset_eq_setD)
  then have "x \<in> set (y # ys')" "y \<in> set (x # xs)" using ys by auto
  with Cons.prems(2,3) ys have "x = y" by (intro cmp_antisym ordered_head) simp_all
  with Cons ys show ?case by (simp add: ordered_def)
qed simp

end

definition cmp_u64 :: "u64 \<Rightarrow> u64 \<Rightarrow> int" where
  "cmp_u64 x y = (if x > y then 1 else 0) - (if x < y then 1 else 0)"

lemma cmp_u64_le: "cmp_u64 x y \<le> 0 \<longleftrightarrow> x \<le> y"
  by (auto simp: cmp_u64_def)

interpretation u64: three_way cmp_u64
proof unfold_locales
  fix x y z
  show "cmp_u64 y x = - cmp_u64 x y" by (auto simp: cmp_u64_def)
  show "cmp_u64 x y = 0 \<Longrightarrow> x = y" by (auto simp: cmp_u64_def split: if_splits)
  show "cmp_u64 x y \<le> 0 \<Longrightarrow> cmp_u64 y z \<le> 0 \<Longrightarrow> cmp_u64 x z \<le> 0" by (simp add: cmp_u64_le)
qed

text \<open>The documented result of \<open>qsort\<close>: the same elements, in ascending order of the comparison.\<close>

definition qsort_ok :: "((u64 \<Rightarrow> u64 \<Rightarrow> int) \<Rightarrow> u64 list \<Rightarrow> u64 list) \<Rightarrow> bool" where
  "qsort_ok qsort \<longleftrightarrow> (\<forall>xs. mset (qsort cmp_u64 xs) = mset xs \<and> u64.ordered (qsort cmp_u64 xs))"

lemma qsort_sorts:
  assumes "qsort_ok qsort"
  shows "qsort cmp_u64 xs = sort xs"
proof (rule u64.ordered_unique)
  show "u64.ordered (sort xs)" unfolding u64.ordered_def cmp_u64_le by simp
qed (use assms in \<open>simp_all add: qsort_ok_def\<close>)

section \<open>Latency\<close>

text \<open>\<open>now_ns\<close> for a clock reading of seconds and nanoseconds, and a latency sample.\<close>

definition now_ns :: "int \<Rightarrow> int \<Rightarrow> u64" where
  "now_ns sec nsec = word_of_int sec * 1000000000 + word_of_int nsec"

definition latency_sample :: "u64 \<Rightarrow> u64 \<Rightarrow> u64" where
  "latency_sample now ts = now - ts"

lemma latency_sample_exact:
  assumes "t = sec * 1000000000 + nsec" "t' = sec' * 1000000000 + nsec'" "t \<le> t'" "t' - t < 2 ^ 64"
  shows "uint (latency_sample (now_ns sec' nsec') (now_ns sec nsec)) = t' - t"
proof -
  have "now_ns sec nsec = word_of_int t" "now_ns sec' nsec' = word_of_int t'"
    using assms(1,2) by (simp_all add: now_ns_def)
  then have "latency_sample (now_ns sec' nsec') (now_ns sec nsec) = word_of_int (t' - t)"
    by (simp add: latency_sample_def)
  then show ?thesis using assms(3,4) by (simp only: uint_word_of_int) simp
qed

text \<open>Array accesses are checked: \<open>None\<close> is an index out of range.\<close>

definition elem_at :: "'a list \<Rightarrow> nat \<Rightarrow> 'a option" where
  "elem_at xs i = (if i < length xs then Some (xs ! i) else None)"

definition latency_report :: "((u64 \<Rightarrow> u64 \<Rightarrow> int) \<Rightarrow> u64 list \<Rightarrow> u64 list) \<Rightarrow> u64 list
    \<Rightarrow> u64 option list" where
  "latency_report qsort lat =
     (let samples = length lat; lat = qsort cmp_u64 lat in
      [elem_at lat (samples div 2), elem_at lat (nat \<lfloor>real samples * (90 / 100)\<rfloor>),
       elem_at lat (nat \<lfloor>real samples * (99 / 100)\<rfloor>), elem_at lat (samples - 1)])"

definition percentile :: "u64 list \<Rightarrow> nat \<Rightarrow> u64 \<Rightarrow> bool" where
  "percentile lat k p \<longleftrightarrow> p \<in> set lat \<and> k < length (filter (\<lambda>x. x \<le> p) lat) \<and>
     length (filter (\<lambda>x. x < p) lat) \<le> k"

lemma length_filter_sort: "length (filter P (sort xs)) = length (filter P xs)"
  by (metis filter_sort length_sort)

lemma sorted_percentile:
  assumes "k < length lat"
  shows "percentile lat k (sort lat ! k)"
proof -
  let ?s = "sort lat" and ?p = "sort lat ! k"
  have k: "k < length ?s" using assms by simp
  have split: "length (filter P ?s) = length (filter P (take j ?s)) + length (filter P (drop j ?s))" for P j
    by (metis append_take_drop_id filter_append length_append)
  have low: "x \<le> ?p" if "x \<in> set (take (Suc k) ?s)" for x
  proof -
    from that obtain j where "j < length ?s" "j < Suc k" "x = ?s ! j" unfolding in_set_conv_nth by auto
    then show ?thesis using sorted_nth_mono [of ?s j k] k by simp
  qed
  have high: "?p \<le> x" if "x \<in> set (drop k ?s)" for x
  proof -
    from that obtain j where "j < length ?s - k" "x = ?s ! (k + j)" unfolding in_set_conv_nth by auto
    then show ?thesis using sorted_nth_mono [of ?s k "k + j"] by simp
  qed
  have "filter (\<lambda>x. x \<le> ?p) (take (Suc k) ?s) = take (Suc k) ?s"
    by (rule filter_True) (use low in blast)
  then have "Suc k \<le> length (filter (\<lambda>x. x \<le> ?p) ?s)"
    using k split [of "\<lambda>x. x \<le> ?p" "Suc k"] by simp
  moreover have "filter (\<lambda>x. x < ?p) (drop k ?s) = []"
    by (rule filter_False) (use high in \<open>auto simp: not_less\<close>)
  then have "length (filter (\<lambda>x. x < ?p) ?s) \<le> k"
    using split [of "\<lambda>x. x < ?p" k] length_filter_le [of "\<lambda>x. x < ?p" "take k ?s"] by simp
  moreover have "?p \<in> set lat" using nth_mem [OF k] by simp
  ultimately show ?thesis by (simp add: percentile_def length_filter_sort)
qed

lemma percentile_index:
  "n div 2 \<le> nat \<lfloor>real n * (90 / 100)\<rfloor>"
  "nat \<lfloor>real n * (90 / 100)\<rfloor> \<le> nat \<lfloor>real n * (99 / 100)\<rfloor>"
  "0 < n \<Longrightarrow> nat \<lfloor>real n * (99 / 100)\<rfloor> < n"
proof -
  show "n div 2 \<le> nat \<lfloor>real n * (90 / 100)\<rfloor>" by (simp add: le_nat_floor)
  show "nat \<lfloor>real n * (90 / 100)\<rfloor> \<le> nat \<lfloor>real n * (99 / 100)\<rfloor>"
    by (intro nat_mono floor_mono) simp
  show "0 < n \<Longrightarrow> nat \<lfloor>real n * (99 / 100)\<rfloor> < n" by (simp add: floor_less_iff nat_less_iff)
qed

text \<open>
  The latency figures are what they are called. With at least one sample every array access is
  in range; the values printed as p50, p90 and p99 are samples below which lie at most 50, 90 and 99
  percent of the samples while more than that many are not above, they ascend, and the last is the
  largest sample.
\<close>

theorem latency_report_exact:
  assumes "qsort_ok qsort" "lat \<noteq> []"
  shows "\<exists>p50 p90 p99 mx. latency_report qsort lat = map Some [p50, p90, p99, mx] \<and>
    percentile lat (length lat div 2) p50 \<and>
    percentile lat (nat \<lfloor>real (length lat) * (90 / 100)\<rfloor>) p90 \<and>
    percentile lat (nat \<lfloor>real (length lat) * (99 / 100)\<rfloor>) p99 \<and>
    p50 \<le> p90 \<and> p90 \<le> p99 \<and> p99 \<le> mx \<and> mx \<in> set lat \<and> (\<forall>x \<in> set lat. x \<le> mx)"
proof -
  define n where "n = length lat"
  define i9 where "i9 = nat \<lfloor>real n * (90 / 100)\<rfloor>"
  define i99 where "i99 = nat \<lfloor>real n * (99 / 100)\<rfloor>"
  let ?s = "sort lat"
  have n: "0 < n" using assms(2) by (simp add: n_def)
  have le: "n div 2 \<le> i9" "i9 \<le> i99" "i99 < n"
    unfolding i9_def i99_def by (rule percentile_index, rule percentile_index, rule percentile_index(3) [OF n])
  have i: "n div 2 < n" "i9 < n" "n - 1 < n" using n le by auto
  have r: "latency_report qsort lat = map Some [?s ! (n div 2), ?s ! i9, ?s ! i99, ?s ! (n - 1)]"
    unfolding latency_report_def Let_def qsort_sorts [OF assms(1)] elem_at_def length_sort
      n_def [symmetric] i9_def [symmetric] i99_def [symmetric] by (simp only: i le(3) if_True list.map)
  have mono: "a \<le> b \<Longrightarrow> b < n \<Longrightarrow> ?s ! a \<le> ?s ! b" for a b
    by (simp add: n_def sorted_nth_mono)
  have mx: "x \<le> ?s ! (n - 1)" if "x \<in> set lat" for x
  proof -
    from that have "x \<in> set ?s" by simp
    then obtain j where "j < length ?s" "x = ?s ! j" by (metis in_set_conv_nth)
    then show ?thesis using mono [of j "n - 1"] i by (simp add: n_def)
  qed
  have "?s ! (n - 1) \<in> set ?s" using i(3) by (intro nth_mem) (simp add: n_def)
  then have "?s ! (n - 1) \<in> set lat" by simp
  moreover have "percentile lat (n div 2) (?s ! (n div 2))" "percentile lat i9 (?s ! i9)" "percentile lat i99 (?s ! i99)"
    using i le(3) unfolding n_def by (blast intro: sorted_percentile)+
  moreover have "?s ! (n div 2) \<le> ?s ! i9" "?s ! i9 \<le> ?s ! i99" "?s ! i99 \<le> ?s ! (n - 1)"
    using mono [OF le(1) i(2)] mono [OF le(2,3)] mono [of i99 "n - 1"] i(3) le(3) by simp_all
  ultimately have "percentile lat (n div 2) (?s ! (n div 2)) \<and> percentile lat i9 (?s ! i9) \<and>
      percentile lat i99 (?s ! i99) \<and> ?s ! (n div 2) \<le> ?s ! i9 \<and> ?s ! i9 \<le> ?s ! i99 \<and>
      ?s ! i99 \<le> ?s ! (n - 1) \<and> ?s ! (n - 1) \<in> set lat \<and> (\<forall>x \<in> set lat. x \<le> ?s ! (n - 1))"
    using mx by blast
  with r show ?thesis unfolding n_def [symmetric] i9_def [symmetric] i99_def [symmetric] by blast
qed

theorem latency_report_exact_witness:
  "qsort_ok (\<lambda>_. sort) \<and>
   latency_report (\<lambda>_. sort) [9, 3, 7] = map Some [7, 9, 9, 9] \<and> percentile [9, 3, 7] 1 7"
proof -
  have ok: "qsort_ok (\<lambda>_. sort)" unfolding qsort_ok_def u64.ordered_def cmp_u64_le by simp
  have f: "\<lfloor>27 / 10 :: real\<rfloor> = 2" "\<lfloor>297 / 100 :: real\<rfloor> = 2" by linarith+
  have r: "latency_report (\<lambda>_. sort) [9, 3, 7] = map Some [7, 9, 9, 9]"
    by (simp add: latency_report_def elem_at_def f)
  have d: "length [9, 3, 7 :: u64] div 2 = 1" by simp
  obtain p50 p90 p99 mx where "latency_report (\<lambda>_. sort) [9, 3, 7] = map Some [p50, p90, p99, mx]"
    "percentile [9, 3, 7] 1 p50"
    using latency_report_exact [OF ok, of "[9, 3, 7]"] unfolding d by blast
  with ok r show ?thesis by simp
qed

section \<open>Throughput\<close>

text \<open>
  The runs of one cell of the table: seconds per run, negative for a failed set-up, which ends the
  cell. The loop accumulates the sum of the rates and of their squares.
\<close>

fun rate_loop :: "real \<Rightarrow> real list \<Rightarrow> real \<times> real \<Rightarrow> (real \<times> real) option" where
  "rate_loop mb [] (s1, s2) = Some (s1, s2)"
| "rate_loop mb (s # ss) (s1, s2) =
     (if s < 0 then None
      else let rate = mb / s in rate_loop mb ss (s1 + rate, s2 + rate * rate))"

definition throughput_cell :: "nat \<Rightarrow> real list \<Rightarrow> (real \<times> real) option" where
  "throughput_cell tot secs =
     (let runs = real (length secs); mb = real tot / (1024 * 1024) in
      map_option (\<lambda>(s1, s2). (s1 / runs,
        if length secs > 1 then sqrt ((s2 - s1 * s1 / runs) / (runs - 1)) else 0)) (rate_loop mb secs (0, 0)))"

lemma rate_loop_sums:
  "\<forall>s \<in> set ss. 0 \<le> s \<Longrightarrow> rate_loop mb ss (a, b) =
     Some (a + (\<Sum>s\<leftarrow>ss. mb / s), b + (\<Sum>s\<leftarrow>ss. (mb / s) * (mb / s)))"
  by (induction ss arbitrary: a b) (simp_all add: Let_def)

lemma rate_loop_fails: "s \<in> set ss \<Longrightarrow> s < 0 \<Longrightarrow> rate_loop mb ss ab = None"
  by (induction ss arbitrary: ab) (auto simp: Let_def split: prod.splits)

lemma sum_squares_about_mean:
  fixes xs :: "real list"
  assumes "xs \<noteq> []"
  shows "(\<Sum>x\<leftarrow>xs. (x - sum_list xs / length xs)\<^sup>2) = (\<Sum>x\<leftarrow>xs. x * x) - sum_list xs * sum_list xs / length xs"
proof -
  define m where "m = sum_list xs / length xs"
  have "(\<Sum>x\<leftarrow>ys. (x - m)\<^sup>2) = (\<Sum>x\<leftarrow>ys. x * x) - 2 * m * sum_list ys + length ys * m\<^sup>2" for ys
    by (induction ys) (simp_all add: power2_eq_square algebra_simps)
  moreover have "m * length xs = sum_list xs" using assms by (simp add: m_def)
  then have "length xs * m\<^sup>2 = m * sum_list xs"
    by (metis mult.assoc mult.commute power2_eq_square)
  ultimately have "(\<Sum>x\<leftarrow>xs. (x - m)\<^sup>2) = (\<Sum>x\<leftarrow>xs. x * x) - m * sum_list xs" by simp
  then show ?thesis by (simp add: m_def)
qed

definition rates :: "nat \<Rightarrow> real list \<Rightarrow> real list" where
  "rates tot secs = map (\<lambda>s. real tot / (1024 * 1024) / s) secs"

text \<open>
  The one-pass formula is the sample standard deviation. When every run took some time, the
  table shows the mean of the rates and the square root of the squared distances from it over one
  less than the number of runs, and what is under the root is not negative; when a run failed there
  is no figure.
\<close>

theorem throughput_cell_exact:
  assumes "2 \<le> length secs" "rs = rates tot secs"
  shows "((\<forall>s \<in> set secs. 0 < s) \<longrightarrow>
      throughput_cell tot secs = Some (sum_list rs / length rs,
        sqrt ((\<Sum>x\<leftarrow>rs. (x - sum_list rs / length rs)\<^sup>2) / (length rs - 1))) \<and>
      0 \<le> (\<Sum>x\<leftarrow>rs. x * x) - sum_list rs * sum_list rs / length rs) \<and>
    ((\<exists>s \<in> set secs. s < 0) \<longrightarrow> throughput_cell tot secs = None)"
proof -
  let ?mb = "real tot / (1024 * 1024)"
  have ne: "rs \<noteq> []" and len: "length rs = length secs" using assms by (auto simp: rates_def)
  note sq = sum_squares_about_mean [OF ne]
  have pos: "0 \<le> (\<Sum>x\<leftarrow>rs. (x - m)\<^sup>2)" for m by (rule sum_list_nonneg) auto
  have "throughput_cell tot secs = Some (sum_list rs / length rs,
      sqrt (((\<Sum>x\<leftarrow>rs. x * x) - sum_list rs * sum_list rs / length rs) / (length rs - 1)))"
    if "\<forall>s \<in> set secs. 0 < s"
  proof -
    have "\<forall>s \<in> set secs. 0 \<le> s" using that by auto
    from rate_loop_sums [OF this, of ?mb 0 0] assms show ?thesis
      by (simp add: throughput_cell_def Let_def rates_def comp_def of_nat_diff)
  qed
  moreover have "throughput_cell tot secs = None" if "s \<in> set secs" "s < 0" for s
    using rate_loop_fails [OF that] by (simp add: throughput_cell_def Let_def)
  ultimately show ?thesis using sq pos [of "sum_list rs / length rs"] by auto
qed

theorem throughput_cell_exact_witness:
  "throughput_cell (2 * 1024 * 1024) [1, 2] = Some (3 / 2, sqrt (1 / 2))"
proof -
  have "((2 - 3 / 2)\<^sup>2 + (1 - 3 / 2)\<^sup>2) / (2 - 1) = (1 / 2 :: real)" by (simp add: power2_eq_square)
  with throughput_cell_exact [of "[1, 2]" _ "2 * 1024 * 1024", OF _ refl] show ?thesis by (simp add: rates_def)
qed

section \<open>False sharing\<close>

text \<open>
  Offsets of the members of a structure with the given sizes and alignments, as the C ABI lays them
  out, and the members of \<open>struct fs_shared\<close>: \<open>a, b, pad, c, pad2, d\<close>.
\<close>

fun layout :: "nat \<Rightarrow> (nat \<times> nat) list \<Rightarrow> nat list" where
  "layout off [] = []"
| "layout off ((sz, al) # fs) =
     (let pos = (off + al - 1) div al * al in pos # layout (pos + sz) fs)"

definition fs_shared :: "(nat \<times> nat) list" where
  "fs_shared = [(8, 8), (8, 8), (128, 1), (8, 8), (128, 1), (8, 8)]"

definition fs_offset :: "nat \<Rightarrow> nat" where
  "fs_offset i = layout 0 fs_shared ! i"

text \<open>
  The counters \<open>a\<close> and \<open>b\<close> share a cache line of 64 bytes; \<open>c\<close> and \<open>d\<close>
  do not, nor with the others, for a structure at the start of a page.
\<close>

lemma fs_lines:
  assumes "64 dvd base"
  shows "(base + fs_offset 0) div 64 = (base + fs_offset 1) div 64 \<and>
    distinct [(base + fs_offset 0) div 64, (base + fs_offset 3) div 64, (base + fs_offset 5) div 64]"
proof -
  have o: "fs_offset 0 = 0" "fs_offset 1 = 8" "fs_offset 3 = 144" "fs_offset 5 = 280"
    by (simp_all add: fs_offset_def fs_shared_def Let_def)
  from assms obtain q where "base = 64 * q" by blast
  then show ?thesis unfolding o by simp
qed

text \<open>One process of a false-sharing run: both loops add one, \<open>iters\<close> times.\<close>

primrec fs_loop :: "nat \<Rightarrow> u64 \<Rightarrow> u64" where
  "fs_loop 0 x = x"
| "fs_loop (Suc n) x = fs_loop n (x + 1)"

lemma fs_loop_adds: "fs_loop n x = x + of_nat n"
  by (induction n arbitrary: x) simp_all

text \<open>
  A run forks one process for the first counter and uses the other itself; when \<open>fork\<close> fails only
  the second counter moves. \<open>falsesharing\<close> makes four runs on a zeroed page, plain increments
  first, then an eighth as many atomic ones; \<open>forks i\<close> tells whether the \<open>i\<close>-th \<open>fork\<close> succeeds.
\<close>

definition fs_run :: "bool \<Rightarrow> u64 \<Rightarrow> u64 \<times> u64 \<Rightarrow> u64 \<times> u64" where
  "fs_run forked iters xy =
     (if forked then fs_loop (unat iters) (fst xy) else fst xy, fs_loop (unat iters) (snd xy))"

definition fs_report :: "bool \<Rightarrow> bool \<Rightarrow> u64 \<Rightarrow> (u64 \<times> u64) \<times> (u64 \<times> u64) \<Rightarrow> (u64 \<times> u64) \<times> (u64 \<times> u64)" where
  "fs_report f1 f2 iters s = (fs_run f1 iters (fst s), fs_run f2 iters (snd s))"

definition falsesharing :: "bool \<Rightarrow> (nat \<Rightarrow> bool) \<Rightarrow> u64 \<Rightarrow> ((u64 \<times> u64) \<times> (u64 \<times> u64)) option" where
  "falsesharing mapped forks iters =
     (let atomic_iters = iters div 8 in
      if \<not> mapped then None
      else Some (fs_report (forks 2) (forks 3) atomic_iters (fs_report (forks 0) (forks 1) iters ((0, 0), (0, 0)))))"

text \<open>No increment is lost: both layouts do the same amount of work, so their times compare.\<close>

lemma falsesharing_counts:
  assumes "\<And>i. forks i" "n = iters + iters div 8"
  shows "falsesharing True forks iters = Some ((n, n), (n, n))"
  using assms by (simp add: falsesharing_def fs_report_def fs_run_def fs_loop_adds Let_def)

section \<open>Parameters\<close>

definition bench_sizes :: "u32 list" where
  "bench_sizes = [64, 256, 1024, 4096, 16384]"

text \<open>Total bytes, runs, latency samples and increments for \<open>quick\<close> and for the full benchmark.\<close>

definition bench_params :: "bool \<Rightarrow> nat \<times> nat \<times> nat \<times> nat" where
  "bench_params quick =
     (if quick then 8 * 2 ^ 20 else 64 * 2 ^ 20, if quick then 3 else 10,
      if quick then 2000 else 20000, if quick then 20 * 2 ^ 20 else 200 * 2 ^ 20)"

text \<open>The parameters satisfy what the results above ask for.\<close>

lemma bench_params_ok:
  assumes "bench_params quick = (tot, runs, samples, iters)" "sz \<in> set bench_sizes"
  shows "2 \<le> runs \<and> 0 < samples \<and> 1 \<le> sz \<and> sz \<le> KBUF_MAX_BUFFER_SIZE \<and> 0 < sz \<and> unat sz dvd tot"
  using assms by (auto simp: bench_params_def bench_sizes_def KBUF_MAX_BUFFER_SIZE_def split: if_splits)

text \<open>
  The whole table: a row per message size, a cell per transport; \<open>secs t sz r\<close> is what the
  \<open>r\<close>-th \<open>run_once\<close> of the cell returned.
\<close>

definition throughput :: "(transport \<Rightarrow> u32 \<Rightarrow> nat \<Rightarrow> real) \<Rightarrow> nat \<Rightarrow> nat \<Rightarrow> (u32 \<times> (real \<times> real) option list) list" where
  "throughput secs tot runs = map (\<lambda>sz. (sz, map (\<lambda>t. throughput_cell tot (map (secs t sz) [0..<runs]))
     [T_MUTEX, T_SPSC, T_MMAP, T_PIPE])) bench_sizes"

lemma throughput_table:
  assumes "bench_params quick = (tot, runs, samples, iters)" "(sz, cells) \<in> set (throughput secs tot runs)"
  shows "sz \<in> set bench_sizes" "length cells = 4"
    and "\<And>i t. i < 4 \<Longrightarrow> t = [T_MUTEX, T_SPSC, T_MMAP, T_PIPE] ! i \<Longrightarrow> \<forall>r < runs. secs t sz r \<noteq> 0 \<Longrightarrow>
      cells ! i = None \<longleftrightarrow> (\<exists>r < runs. secs t sz r < 0)"
proof -
  have c: "cells = map (\<lambda>t. throughput_cell tot (map (secs t sz) [0..<runs])) [T_MUTEX, T_SPSC, T_MMAP, T_PIPE]"
    and sz: "sz \<in> set bench_sizes"
    using assms(2) by (auto simp: throughput_def)
  then show "sz \<in> set bench_sizes" "length cells = 4" by simp_all
  fix i t assume i: "i < 4" "t = [T_MUTEX, T_SPSC, T_MMAP, T_PIPE] ! i" and nz: "\<forall>r < runs. secs t sz r \<noteq> 0"
  have two: "2 \<le> length (map (secs t sz) [0..<runs])" using bench_params_ok [OF assms(1) sz] by simp
  have cell: "cells ! i = throughput_cell tot (map (secs t sz) [0..<runs])" using i unfolding c by (subst nth_map) simp_all
  note ex = throughput_cell_exact [OF two refl, of tot]
  show "cells ! i = None \<longleftrightarrow> (\<exists>r < runs. secs t sz r < 0)"
  proof (cases "\<exists>r < runs. secs t sz r < 0")
    case True
    then have "\<exists>s \<in> set (map (secs t sz) [0..<runs]). s < 0" by auto
    with ex True show ?thesis unfolding cell by blast
  next
    case False
    have "\<forall>s \<in> set (map (secs t sz) [0..<runs]). 0 < s"
    proof
      fix s assume "s \<in> set (map (secs t sz) [0..<runs])"
      then obtain r where "r < runs" "s = secs t sz r" by auto
      with False nz show "0 < s" by (metis linorder_neqE)
    qed
    with ex have "cells ! i \<noteq> None" unfolding cell by (metis option.distinct(1))
    with False show ?thesis by blast
  qed
qed

end
