(* ===== verification/Spec2Isabelle.thy ===== *)
theory Spec2Isabelle
  imports Kbuf_Races Kbuf_Libkbuf Kbuf_Init Kbuf_Dispatch Kbuf_Spsc_Wait Kbuf_Map_Conc
    Kbuf_Wait Kbuf_Trace Kbuf_Cpp Kbuf_Bench_Stats
begin

text \<open>
  Verification of kbuf, a Linux character device driver for producer/consumer message passing, with
  its user-space libraries and its benchmark program. Paths below are relative to src/.

  \<^bold>\<open>The program.\<close> Each device /dev/kbuf\<open>N\<close> is a ring of \<open>num_buffers\<close> slots of
  \<open>buffer_size\<close> bytes. A \<open>write\<close> puts one message into a slot, a \<open>read\<close> takes the oldest
  one out. In the blocking mode a mutex and two wait queues coordinate any number of readers and
  writers; in the lock-free mode one producer and one consumer use free-running 32-bit indices. The
  ioctls read and reset statistics, change the geometry and the mode, and export or import the
  second buffer of a device: a byte ring in shared memory that processes map twice in a row (the
  control page first) and use through include/libkbuf.h, and that can be handed out as a dma-buf. A
  control device creates and destroys further devices at run time; they are reference counted, since
  open files and exported buffers outlive their removal. /proc/kbuf_status, debugfs and tracepoints
  show what the devices do. include/kbufpp.hpp wraps all this in C++ handles.

  \<^bold>\<open>How the code is modelled.\<close> A C function is a function on records with the fields of
  the C structures; machine integers are words of their width. \<open>None\<close> is an access out of bounds
  or to freed memory; where a loop may not end the function has one more option and the outer
  \<open>None\<close> is not returning. Errors are \<open>Inl errno\<close>. Copies from and to user memory, what other
  threads do while a call sleeps, signals, and the kernel's answers (memory, minors, registration)
  are parameters; what the kernel documents about them is a named hypothesis or a locale assumption.
  The kernel objects the driver holds are a multiset that acquiring and releasing change:
  \<open>held\<close> is \<open>None\<close> once something is released that is not held.

  \<^bold>\<open>The theories\<close>, in the order they build on each other:

  \<^item> \<open>Kbuf_Prelude\<close>: types, error numbers, windows of a ring, arithmetic of wrapping indices.
  \<^item> \<open>Kbuf_Kernel\<close>: answers and ledger of the kernel, state monad, triples with a frame rule.
  \<^item> \<open>Kbuf_Dev\<close>: the structures of include/kbuf.h and src/kbuf_internal.h; allocating and freeing
    slots (src/kbuf_ring.c).
  \<^item> \<open>Kbuf_Queue\<close>: the contract of a device, a bounded queue of messages; the locales
    \<open>slot_ring\<close> (what read and write need of a ring) and \<open>fifo_server\<close> (what callers may rely on).
  \<^item> \<open>Kbuf_Ring\<close>, \<open>Kbuf_Spsc\<close>: the two rings of src/kbuf_ring.c; each interprets \<open>slot_ring\<close>.
  \<^item> \<open>Kbuf_File\<close>: read, write and poll of src/kbuf_main.c, with their sleeping loops; the device
    interprets \<open>fifo_server\<close>. FIFO order, refinement of the queue, exact counters, exact poll, and
    that sleeping calls return once they find work.
  \<^item> \<open>Kbuf_Ioctl\<close>: statistics, reset, resize and mode of src/kbuf_ioctl.c and the byte layout of
    their arguments. Messages survive every command and the memory of the slots is accounted for.
  \<^item> \<open>Kbuf_Races\<close>: what the code does not exclude: a resize while a writer sleeps, a mode switch
    between test and use, a reset of the peak in the lock-free mode.
  \<^item> \<open>Kbuf_Mmap\<close>, \<open>Kbuf_Libkbuf\<close>: src/kbuf_mmap.c and include/libkbuf.h. The double mapping shows
    the ring, faults stay inside it, and the library moves a byte stream through it.
  \<^item> \<open>Kbuf_Ctl\<close>: src/kbuf_ctl.c with open and release of src/kbuf_main.c. Creation is all or
    nothing; a destroyed device is hidden at once and freed with its last user.
  \<^item> \<open>Kbuf_Dmabuf\<close>: src/kbuf_dmabuf.c. A mapping covers the buffer, every failure is undone, and the
    importer's self-test finds what it wrote.
  \<^item> \<open>Kbuf_System\<close>: all devices together. Every history of calls by well-behaved processes keeps the
    invariant of the driver, and what the kernel has handed out is what the driver accounts for.
  \<^item> \<open>Kbuf_Proc\<close>: src/kbuf_proc.c and src/kbuf_debugfs.c; the text parses back to the state.
  \<^item> \<open>Kbuf_Init\<close>: loading and unloading the module, with every error label of \<open>kbuf_init\<close>.
  \<^item> \<open>Kbuf_Dispatch\<close>: \<open>kbuf_ioctl\<close> itself: command numbers, guards, any argument.
  \<^item> \<open>Kbuf_Conc\<close>: the lock-free mode in atomic steps, where a load with acquire may return any
    earlier value not older than one already seen. Order, no loss, no access to the same slot.
  \<^item> \<open>Kbuf_Spsc_Wait\<close>: the same two callers when they sleep: without a mutex, that no wake-up is lost
    rests on the lock of the wait queue, and that is enough; they never sleep at the same time.
  \<^item> \<open>Kbuf_Map_Conc\<close>: the library's producer and consumer in steps, the bytes of a copy in any order.
    The stream arrives whole, no byte is read and written at once, whole calls are such steps.
  \<^item> \<open>Kbuf_Wait\<close>: the blocking mode in atomic steps, with any number of threads, signals and faults.
    Order, no lost wake-up, no deadlock, and that a finite number of calls settles.
  \<^item> \<open>Kbuf_Trace\<close>: the events of src/kbuf_trace.h; a trace replays to the depth of the queue.
  \<^item> \<open>Kbuf_Cpp\<close>: include/kbufpp.hpp. Each descriptor and mapping has one owner and is released once,
    through moves, failing constructors and hand-overs.
  \<^item> \<open>Kbuf_Bench\<close>, \<open>Kbuf_Bench_Slots\<close>, \<open>Kbuf_Bench_Stats\<close>: bench/kbuf_bench.c. The set-up of the
    devices, the processes over slot rings and over the mmap ring, the false-sharing counters, and the
    arithmetic of the report.

  \<^bold>\<open>Bounds.\<close> No function carries fuel. Loops over the code's own data recurse on it; loops that
  wait are \<open>partial_function (option)\<close>, with theorems that they return when they should. In
  \<open>Kbuf_Wait\<close> a set of \<open>k\<close> calls makes at most \<open>2 * k * (6 * k + 1) + 6 * k\<close> steps: each of at
  most \<open>2 * k\<close> events (transfers, exits) can wake all other threads for one more round of six steps.

  \<^bold>\<open>Not modelled.\<close> The tables of operations, module metadata, \<open>kbuf_devnode\<close> and the header
  guards have no behaviour of their own; \<open>seq_file\<close>, tracing, sysfs, the DMA API and the virtual
  memory system belong to the kernel, and the hardware's cache synchronisation is invisible at this
  level. Log messages have no effect. Of the benchmark: the pipe transport is the kernel's, and
  pinning, scheduling classes, clocks and printed text do not touch the driver; its floating-point
  results are taken as exact reals. Reconfiguration in the middle of a call appears in
  \<open>Kbuf_File\<close> as an arbitrary change while it sleeps and in \<open>Kbuf_Races\<close>, not in the step relations
  of \<open>Kbuf_Wait\<close>, \<open>Kbuf_Conc\<close> and \<open>Kbuf_Spsc_Wait\<close>. Only loads
  of a ring index may be observed late there; the bytes of a slot or of the mapped ring are read as
  they are, which the absence of simultaneous accesses justifies. The tests, the scripts, the build
  and the virtual-machine harness in verif/ are not part of the running system.
\<close>

end
